(* ===== verification/Prelude.thy ===== *)
theory Prelude
  imports Main "HOL-Library.Word" "HOL-Library.Sublist"
begin

unbundle bit_operations_syntax

text \<open>
  The vocabulary every component shares: Go's bytes and fixed-width integers, error
  values as the chain of sentinels that \<open>errors.Is\<close> can find in them, and the
  state-and-error monad in which the stateful code is written (the reader of
  \<open>envelope.go\<close> and the memory of \<open>securebytes\<close> are two instances of it).
\<close>

section \<open>Machine types\<close>

type_synonym u8 = "8 word"
type_synonym u16 = "16 word"
type_synonym u32 = "32 word"
type_synonym u64 = "64 word"
type_synonym bytes = "8 word list"

text \<open>The bytes of a Go string constant.\<close>

definition ascii :: "string \<Rightarrow> bytes" where
  "ascii s = map (\<lambda>c. word_of_nat (of_char c)) s"

lemma length_ascii [simp]: "length (ascii s) = length s"
  by (simp add: ascii_def)

section \<open>Errors\<close>

text \<open>
  The sentinel errors of the packages \<open>tumbler\<close>, \<open>securebytes\<close> and \<open>transport\<close>, plus the
  errors that come from outside the module: \<open>External n\<close> is an error value of the operating
  system, of the random source, of a \<open>context.Context\<close> or of another library. \<open>GoPanic\<close> stands for a
  run-time panic; it travels like an error through the deferred clean-ups and is never
  caught by the code.
\<close>

datatype sentinel =
    ErrAuthFailed | ErrBadMagic | ErrBadVersion | ErrShortData | ErrMalformed
  | ErrSlotNotFound | ErrNoMethods | ErrDEKSize | ErrKDFParams | ErrUnsupportedKDF
  | ErrUnsupportedAEAD | ErrPolicyMismatch | ErrPolicyUnsafe
  | ErrInvalidRecoveryCode
  | ErrDestroyed | ErrNegativeSize
  | ErrToolNotFound | ErrToolVersion | ErrNoDevice | ErrTouchTimeout
  | ErrSlotNotConfigured | ErrBadResponse | ErrToolFailure | ErrNotImplemented
  | ErrNoVersion
  | External nat
  | GoPanic

text \<open>
  An error value is the list of sentinels in its \<open>%w\<close> chain: \<open>fmt.Errorf\<close> with
  one \<open>%w\<close> keeps the wrapped chain (only the text changes), with two it
  concatenates both.
\<close>

type_synonym gerror = "sentinel list"

definition errorsIs :: "gerror \<Rightarrow> sentinel \<Rightarrow> bool" where
  "errorsIs e s = List.member e s"

lemma errorsIs_iff [simp]: "errorsIs e s \<longleftrightarrow> s \<in> set e"
  by (simp add: errorsIs_def)

section \<open>The state-and-error monad\<close>

type_synonym ('s, 'a) go = "'s \<Rightarrow> (gerror + 'a) \<times> 's"

definition ret :: "'a \<Rightarrow> ('s, 'a) go" where
  "ret x = (\<lambda>s. (Inr x, s))"

definition throw :: "gerror \<Rightarrow> ('s, 'a) go" where
  "throw e = (\<lambda>s. (Inl e, s))"

text \<open>\<open>v, err := m(); if err != nil { return err }; f(v)\<close>\<close>

definition bind :: "('s, 'a) go \<Rightarrow> ('a \<Rightarrow> ('s, 'b) go) \<Rightarrow> ('s, 'b) go" where
  "bind m f = (\<lambda>s. case m s of (Inl e, t) \<Rightarrow> (Inl e, t) | (Inr x, t) \<Rightarrow> f x t)"

text \<open>\<open>defer c()\<close> followed by \<open>m\<close>: the clean-up runs on every exit of \<open>m\<close> (an error
  or a panic included) and its own result is discarded.\<close>

definition deferring :: "('s, unit) go \<Rightarrow> ('s, 'a) go \<Rightarrow> ('s, 'a) go" where
  "deferring c m = (\<lambda>s. case m s of (r, t) \<Rightarrow> (r, snd (c t)))"

text \<open>\<open>v, err := m(); if err != nil { c(); return err }\<close>: a clean-up on the error path
  only, which a panic does not run.\<close>

definition onError :: "('s, unit) go \<Rightarrow> ('s, 'a) go \<Rightarrow> ('s, 'a) go" where
  "onError c m =
     (\<lambda>s. case m s of
            (Inl e, t) \<Rightarrow> (Inl e, if List.member e GoPanic then t else snd (c t))
          | (Inr x, t) \<Rightarrow> (Inr x, t))"

definition gets :: "('s \<Rightarrow> 'a) \<Rightarrow> ('s, 'a) go" where
  "gets f = (\<lambda>s. (Inr (f s), s))"

definition modify :: "('s \<Rightarrow> 's) \<Rightarrow> ('s, unit) go" where
  "modify f = (\<lambda>s. (Inr (), f s))"

text \<open>A pure fallible computation run in the monad.\<close>

definition lift :: "gerror + 'a \<Rightarrow> ('s, 'a) go" where
  "lift r = (\<lambda>s. (r, s))"

named_theorems go_simps "evaluation of the monad's operations at a state"

lemma ret_apply [go_simps]: "ret x s = (Inr x, s)"
  by (simp add: ret_def)

lemma throw_apply [go_simps]: "throw e s = (Inl e, s)"
  by (simp add: throw_def)

lemma gets_apply [go_simps]: "gets f s = (Inr (f s), s)"
  by (simp add: gets_def)

lemma modify_apply [go_simps]: "modify f s = (Inr (), f s)"
  by (simp add: modify_def)

lemma lift_apply [go_simps]: "lift r s = (r, s)"
  by (simp add: lift_def)

lemma bind_Inr [go_simps]: "m s = (Inr x, t) \<Longrightarrow> bind m f s = f x t"
  by (simp add: bind_def)

lemma bind_Inl [go_simps]: "m s = (Inl e, t) \<Longrightarrow> bind m f s = (Inl e, t)"
  by (simp add: bind_def)

lemma deferring_apply [go_simps]: "m s = (r, t) \<Longrightarrow> deferring c m s = (r, snd (c t))"
  by (simp add: deferring_def)

lemma onError_Inr [go_simps]: "m s = (Inr x, t) \<Longrightarrow> onError c m s = (Inr x, t)"
  by (simp add: onError_def)

lemma onError_Inl [go_simps]:
  "m s = (Inl e, t) \<Longrightarrow> GoPanic \<notin> set e \<Longrightarrow> onError c m s = (Inl e, snd (c t))"
  by (simp add: onError_def)

subsection \<open>Monad laws\<close>

lemma bind_ret_left [simp]: "bind (ret x) f = f x"
  by (rule ext) (simp add: bind_def ret_def)

lemma bind_throw [simp]: "bind (throw e) f = throw e"
  by (rule ext) (simp add: bind_def throw_def)

lemma bind_ret_right [simp]: "bind m ret = m"
  by (rule ext) (simp add: bind_def ret_def split: prod.splits sum.splits)

lemma bind_assoc: "bind (bind m f) g = bind m (\<lambda>x. bind (f x) g)"
  by (rule ext) (simp add: bind_def split: prod.splits sum.splits)

lemma bind_if: "bind (if c then a else b) f = (if c then bind a f else bind b f)"
  by simp

lemma bind_cong [fundef_cong]:
  assumes "m s = m' s'" and "\<And>x t. m' s' = (Inr x, t) \<Longrightarrow> f x t = f' x t" and "s = s'"
  shows "bind m f s = bind m' f' s'"
  using assms by (auto simp: bind_def split: prod.splits sum.splits)

subsection \<open>Case analysis on a finished run\<close>

lemma bind_cases:
  assumes "bind m f s = (r, t)"
  obtains (err) e where "m s = (Inl e, t)" and "r = Inl e"
  | (ok) x u where "m s = (Inr x, u)" and "f x u = (r, t)"
  using assms by (auto simp: bind_def split: prod.splits sum.splits)

lemma bind_Inr_cases:
  assumes "bind m f s = (Inr y, t)"
  obtains x u where "m s = (Inr x, u)" and "f x u = (Inr y, t)"
  using assms by (auto simp: bind_def split: prod.splits sum.splits)

lemma deferring_cases:
  assumes "deferring c m s = (r, t)"
  obtains u where "m s = (r, u)" and "t = snd (c u)"
  using assms by (auto simp: deferring_def split: prod.splits)

lemma onError_cases:
  assumes "onError c m s = (r, t)"
  obtains (ok) x where "m s = (Inr x, t)" and "r = Inr x"
  | (err) e u where "m s = (Inl e, u)" and "r = Inl e"
      and "t = (if GoPanic \<in> set e then u else snd (c u))"
  using assms by (auto simp: onError_def split: prod.splits sum.splits)

section \<open>The errors an action can give\<close>

definition failsWith :: "gerror set \<Rightarrow> ('s, 'a) go \<Rightarrow> bool" where
  "failsWith E m \<longleftrightarrow> (\<forall>s e t. m s = (Inl e, t) \<longrightarrow> e \<in> E)"

named_theorems fails "closure of the possible errors under the monad's operations"

lemma failsWith_ret [fails]: "failsWith E (ret x)"
  by (simp add: failsWith_def ret_apply)

lemma failsWith_throw [fails]: "e \<in> E \<Longrightarrow> failsWith E (throw e)"
  by (simp add: failsWith_def throw_apply)

lemma failsWith_bind [fails]:
  "failsWith E m \<Longrightarrow> (\<And>x. failsWith E (f x)) \<Longrightarrow> failsWith E (bind m f)"
  unfolding failsWith_def by (blast elim: bind_cases)

lemma failsWith_if [fails]:
  "failsWith E a \<Longrightarrow> failsWith E b \<Longrightarrow> failsWith E (if c then a else b)"
  by simp

lemma failsWith_deferring [fails]: "failsWith E m \<Longrightarrow> failsWith E (deferring c m)"
  by (auto simp: failsWith_def deferring_def split: prod.splits)

lemma failsWith_onError [fails]: "failsWith E m \<Longrightarrow> failsWith E (onError c m)"
  by (auto simp: failsWith_def onError_def split: prod.splits sum.splits)

section \<open>Lists\<close>

lemma drop_eq_append_drop: "drop n xs = ys @ zs \<Longrightarrow> drop (n + length ys) xs = zs"
  by (metis add.commute append_eq_conv_conj drop_drop)

lemma strict_prefix_append_cases:
  assumes "strict_prefix s (a @ b)"
  obtains (left) "strict_prefix s a"
  | (right) s' where "s = a @ s'" and "strict_prefix s' b"
proof -
  from assms have p: "prefix s (a @ b)" and ne: "s \<noteq> a @ b"
    by (auto simp: strict_prefix_def)
  from p consider "prefix s a" | us where "s = a @ us" "prefix us b"
    by (auto simp: prefix_append)
  then show thesis
  proof cases
    case 1
    show thesis
    proof (cases "s = a")
      case True
      with ne have "strict_prefix [] b" by (cases b) auto
      with True show thesis by (intro right [of "[]"]) auto
    next
      case False
      with 1 show thesis by (intro left) (auto simp: strict_prefix_def)
    qed
  next
    case 2
    with ne show thesis by (intro right [of us]) (auto simp: strict_prefix_def)
  qed
qed

lemma replicate_eq_map_zero: "map (\<lambda>_. c) xs = replicate (length xs) c"
  by (induction xs) auto

lemma not_Inl_iff: "(\<exists>x. r = Inr x) \<longleftrightarrow> (\<forall>e. r \<noteq> Inl e)"
  by (cases r) auto

end
