(* ===== verification/Codec.thy ===== *)
theory Codec
  imports Prelude
begin

text \<open>
  Reading and writing bytes: Go's \<open>encoding/binary\<close> big-endian helpers, the bounds-checked
  cursor \<open>reader\<close> of \<open>envelope.go\<close>, and the contract \<open>decoder\<close> that relates a reading
  routine to the bytes it stands for. The contract is closed under the monad's
  operations, so that a routine written as a sequence of reads satisfies it by its own
  structure.
\<close>

section \<open>encoding/binary, big endian\<close>

definition putU16 :: "u16 \<Rightarrow> bytes" where
  "putU16 v = [ucast (drop_bit 8 v), ucast v]"

definition getU16 :: "u8 \<Rightarrow> u8 \<Rightarrow> u16" where
  "getU16 b0 b1 = ucast b1 OR push_bit 8 (ucast b0)"

definition putU32 :: "u32 \<Rightarrow> bytes" where
  "putU32 v = [ucast (drop_bit 24 v), ucast (drop_bit 16 v), ucast (drop_bit 8 v), ucast v]"

definition getU32 :: "u8 \<Rightarrow> u8 \<Rightarrow> u8 \<Rightarrow> u8 \<Rightarrow> u32" where
  "getU32 b0 b1 b2 b3 = ucast b3 OR push_bit 8 (ucast b2) OR push_bit 16 (ucast b1)
     OR push_bit 24 (ucast b0)"

lemma bit_u8_beyond [simp]:
  fixes b :: u8
  shows "\<not> bit b (8 + n)" "\<not> bit b (16 + n)" "\<not> bit b (24 + n)"
  using bit_imp_le_length [of b] by fastforce+

lemma length_putU16 [simp]: "length (putU16 v) = 2"
  by (simp add: putU16_def)

lemma length_putU32 [simp]: "length (putU32 v) = 4"
  by (simp add: putU32_def)

lemma getU16_putU16 [simp]: "getU16 (ucast (drop_bit 8 v)) (ucast v) = v"
  unfolding getU16_def
  by (rule bit_word_eqI) (auto simp: bit_simps)

lemma putU16_getU16 [simp]: "putU16 (getU16 a b) = [a, b]"
  unfolding getU16_def putU16_def
  by (auto intro!: bit_word_eqI simp: bit_simps)

lemma getU32_putU32 [simp]:
  "getU32 (ucast (drop_bit 24 v)) (ucast (drop_bit 16 v)) (ucast (drop_bit 8 v)) (ucast v) = v"
proof (rule bit_word_eqI)
  fix n assume "n < LENGTH(32)"
  then consider "n < 8" | "8 \<le> n" "n < 16" | "16 \<le> n" "n < 24" | "24 \<le> n" "n < 32"
    by force
  then show "bit (getU32 (ucast (drop_bit 24 v)) (ucast (drop_bit 16 v)) (ucast (drop_bit 8 v)) (ucast v)) n
      = bit v n"
    by cases (auto simp: getU32_def bit_simps)
qed

lemma putU32_getU32 [simp]: "putU32 (getU32 a b c d) = [a, b, c, d]"
  unfolding getU32_def putU32_def
  by (auto intro!: bit_word_eqI simp: bit_simps)


section \<open>The reader\<close>

text \<open>
  \<open>reader\<close> of \<open>envelope.go\<close>: a buffer and an offset. Go's \<open>int\<close> is a natural number here:
  no offset exceeds the buffer's length, which \<open>ParseEnvelope\<close> bounds by 1 MiB before the first
  read, so no sum wraps.
\<close>

record reader =
  rbuf :: bytes
  roff :: nat

definition reader_u8 :: "(reader, u8) go" where
  "reader_u8 r =
     (if roff r + 1 > length (rbuf r) then (Inl [ErrShortData], r)
      else (Inr (rbuf r ! roff r), r\<lparr>roff := roff r + 1\<rparr>))"

definition reader_u16 :: "(reader, u16) go" where
  "reader_u16 r =
     (if roff r + 2 > length (rbuf r) then (Inl [ErrShortData], r)
      else (Inr (getU16 (rbuf r ! roff r) (rbuf r ! (roff r + 1))), r\<lparr>roff := roff r + 2\<rparr>))"

definition reader_u32 :: "(reader, u32) go" where
  "reader_u32 r =
     (if roff r + 4 > length (rbuf r) then (Inl [ErrShortData], r)
      else (Inr (getU32 (rbuf r ! roff r) (rbuf r ! (roff r + 1))
                        (rbuf r ! (roff r + 2)) (rbuf r ! (roff r + 3))),
            r\<lparr>roff := roff r + 4\<rparr>))"

definition reader_take :: "int \<Rightarrow> (reader, bytes) go" where
  "reader_take n r =
     (if n < 0 \<or> int (roff r) + n > int (length (rbuf r)) then (Inl [ErrShortData], r)
      else (Inr (take (nat n) (drop (roff r) (rbuf r))), r\<lparr>roff := roff r + nat n\<rparr>))"

definition reader_takeU16 :: "nat \<Rightarrow> (reader, bytes) go" where
  "reader_takeU16 maxLen =
     bind reader_u16 (\<lambda>n.
       if unat n > maxLen then throw [ErrMalformed]
       else reader_take (int (unat n)))"

section \<open>The decoder contract\<close>

text \<open>\<open>at r s\<close>: the unread part of \<open>r\<close> is \<open>s\<close>; \<open>adv r n\<close>: \<open>r\<close> after reading \<open>n\<close> bytes.\<close>

definition at :: "reader \<Rightarrow> bytes \<Rightarrow> bool" where
  "at r s \<longleftrightarrow> roff r \<le> length (rbuf r) \<and> drop (roff r) (rbuf r) = s"

definition adv :: "reader \<Rightarrow> nat \<Rightarrow> reader" where
  "adv r n = r\<lparr>roff := roff r + n\<rparr>"

lemma at_adv: "at r (c @ p) \<Longrightarrow> at (adv r (length c)) p"
  unfolding at_def adv_def
  by (auto simp: drop_eq_append_drop) (metis drop_eq_append_drop length_append length_drop
      add_le_cancel_left le_add1 le_add_diff_inverse)

lemma adv_0 [simp]: "adv r 0 = r"
  by (simp add: adv_def)

lemma adv_adv [simp]: "adv (adv r m) n = adv r (m + n)"
  by (simp add: adv_def)

lemma at_unique: "at r s \<Longrightarrow> at r s' \<Longrightarrow> s = s'"
  by (simp add: at_def)

lemma at_length: "at r s \<Longrightarrow> length (rbuf r) = roff r + length s"
  by (auto simp: at_def)

lemma at_nth: "at r s \<Longrightarrow> i < length s \<Longrightarrow> rbuf r ! (roff r + i) = s ! i"
  by (auto simp: at_def)

text \<open>
  The promise of a reading routine \<open>dec\<close> for the encoding relation \<open>R\<close> (\<open>R x c\<close>: the bytes
  \<open>c\<close> encode \<open>x\<close>): in front of an encoding it returns the value and moves past exactly
  these bytes; whatever it returns was encoded there; on a proper prefix of an encoding it
  fails with \<open>ErrShortData\<close>.
\<close>

locale decoder =
  fixes dec :: "(reader, 'a) go" and R :: "'a \<Rightarrow> bytes \<Rightarrow> bool"
  assumes complete: "at r (c @ p) \<Longrightarrow> R x c \<Longrightarrow> dec r = (Inr x, adv r (length c))"
    and sound: "at r s \<Longrightarrow> dec r = (Inr x, r') \<Longrightarrow>
      \<exists>c p. s = c @ p \<and> R x c \<and> r' = adv r (length c)"
    and short: "at r s \<Longrightarrow> R x c \<Longrightarrow> strict_prefix s c \<Longrightarrow> \<exists>r'. dec r = (Inl [ErrShortData], r')"
begin

text \<open>An encoding determines its value and where it ends.\<close>

lemma unique:
  assumes "R x c" and "R y d" and "c @ p = d @ q"
  shows "x = y \<and> c = d \<and> p = q"
proof -
  let ?r = "\<lparr>rbuf = c @ p, roff = 0\<rparr>"
  have a: "at ?r (c @ p)" by (simp add: at_def)
  from complete [OF a assms(1)] have 1: "dec ?r = (Inr x, adv ?r (length c))" .
  from a assms(3) have "at ?r (d @ q)" by simp
  from complete [OF this assms(2)] have 2: "dec ?r = (Inr y, adv ?r (length d))" .
  from 1 2 have "x = y" and "length c = length d" by (auto simp: adv_def)
  with assms(3) show ?thesis by auto
qed

lemma injective: "R x c \<Longrightarrow> R y c \<Longrightarrow> x = y"
  using unique [of x c y c "[]" "[]"] by simp

lemma not_strict_prefix: "R x c \<Longrightarrow> R y d \<Longrightarrow> \<not> strict_prefix c d"
  using unique [of x c y d _ "[]"] by (auto simp: strict_prefix_def prefix_def)

end

subsection \<open>Closure under the monad's operations\<close>

named_theorems decoders "closure of the decoder contract"

lemma decoder_ret [decoders]: "decoder (ret v) (\<lambda>x c. x = v \<and> c = [])"
  by unfold_locales (auto simp: ret_apply)

lemma decoder_throw [decoders]: "decoder (throw e) (\<lambda>x c. False)"
  by unfold_locales (auto simp: throw_apply)

lemma decoder_if [decoders]:
  "decoder a R \<Longrightarrow> decoder b S \<Longrightarrow>
   decoder (if P then a else b) (\<lambda>x c. if P then R x c else S x c)"
  by simp

lemma decoder_bind [decoders]:
  assumes "decoder d R" and "\<And>x. decoder (f x) (S x)"
  shows "decoder (bind d f) (\<lambda>y c. \<exists>x c1 c2. R x c1 \<and> S x y c2 \<and> c = c1 @ c2)"
proof (unfold_locales, goal_cases)
  case (1 r c p y)
  then obtain x c1 c2 where x: "R x c1" "S x y c2" "c = c1 @ c2" by blast
  with 1(1) have a: "at r (c1 @ (c2 @ p))" by simp
  note s1 = decoder.complete [OF assms(1) a x(1)]
  note s2 = decoder.complete [OF assms(2) at_adv [OF a] x(2)]
  show ?case using s1 s2 x(3) by (simp add: bind_Inr)
next
  case (2 r s y r')
  from 2(2) obtain x u where d: "d r = (Inr x, u)" and f: "f x u = (Inr y, r')"
    by (rule bind_Inr_cases)
  from decoder.sound [OF assms(1) 2(1) d]
  obtain c1 p1 where c1: "s = c1 @ p1" "R x c1" "u = adv r (length c1)" by blast
  from 2(1) c1 have "at u p1" by (simp add: at_adv)
  from decoder.sound [OF assms(2) this f]
  obtain c2 p2 where c2: "p1 = c2 @ p2" "S x y c2" "r' = adv u (length c2)" by blast
  show ?case
    by (rule exI [of _ "c1 @ c2"]) (use c1 c2 in auto)
next
  case (3 r s y c)
  then obtain x c1 c2 where x: "R x c1" "S x y c2" "c = c1 @ c2" by blast
  with 3(3) have "strict_prefix s (c1 @ c2)" by simp
  then show ?case
  proof (cases rule: strict_prefix_append_cases)
    case left
    from decoder.short [OF assms(1) 3(1) x(1) left] show ?thesis
      by (auto simp: bind_Inl)
  next
    case (right s')
    with 3(1) have a: "at r (c1 @ s')" by simp
    from decoder.short [OF assms(2) at_adv [OF a] x(2) right(2)]
    show ?thesis using decoder.complete [OF assms(1) a x(1)] by (auto simp: bind_Inr)
  qed
qed

lemma decoder_cong:
  assumes "decoder d R" and "\<And>x c. R x c \<longleftrightarrow> S x c"
  shows "decoder d S"
proof -
  have "R = S" using assms(2) by (intro ext)
  with assms(1) show ?thesis by simp
qed

subsection \<open>The reader's operations satisfy the contract\<close>

lemma strict_prefix_length: "strict_prefix s c \<Longrightarrow> length s < length c"
  by (rule prefix_length_less)

interpretation u8: decoder reader_u8 "\<lambda>v c. c = [v]"
proof (unfold_locales, goal_cases)
  case (1 r c p x)
  then show ?case using at_nth [OF 1(1), of 0] at_length [OF 1(1)]
    by (simp add: reader_u8_def adv_def)
next
  case (2 r s x r')
  then have "s \<noteq> []" using at_length [OF 2(1)] by (auto simp: reader_u8_def split: if_splits)
  then obtain a p where "s = a # p" by (cases s) auto
  then show ?case using 2 at_nth [OF 2(1), of 0]
    by (auto simp: reader_u8_def adv_def split: if_splits)
next
  case (3 r s x c)
  then show ?case using at_length [OF 3(1)] strict_prefix_length [OF 3(3)]
    by (auto simp: reader_u8_def)
qed

interpretation u16: decoder reader_u16 "\<lambda>v c. c = putU16 v"
proof (unfold_locales, goal_cases)
  case (1 r c p x)
  then show ?case using at_nth [OF 1(1), of 0] at_nth [OF 1(1), of 1] at_length [OF 1(1)]
    by (simp add: reader_u16_def adv_def putU16_def)
next
  case (2 r s x r')
  then have "2 \<le> length s"
    using at_length [OF 2(1)] by (auto simp: reader_u16_def split: if_splits)
  then obtain a b p where s: "s = a # b # p"
    by (metis Suc_le_length_iff numeral_2_eq_2)
  then show ?case using 2 at_nth [OF 2(1), of 0] at_nth [OF 2(1), of 1]
    by (auto simp: reader_u16_def adv_def split: if_splits)
next
  case (3 r s x c)
  then show ?case using at_length [OF 3(1)] strict_prefix_length [OF 3(3)]
    by (auto simp: reader_u16_def)
qed

interpretation u32: decoder reader_u32 "\<lambda>v c. c = putU32 v"
proof (unfold_locales, goal_cases)
  case (1 r c p x)
  then show ?case
    using at_nth [OF 1(1), of 0] at_nth [OF 1(1), of 1] at_nth [OF 1(1), of 2]
      at_nth [OF 1(1), of 3] at_length [OF 1(1)]
    by (simp add: reader_u32_def adv_def putU32_def)
next
  case (2 r s x r')
  then have "4 \<le> length s"
    using at_length [OF 2(1)] by (auto simp: reader_u32_def split: if_splits)
  then obtain a b c d p where s: "s = a # b # c # d # p"
    by (auto simp: numeral_eq_Suc Suc_le_length_iff)
  then show ?case
    using 2 at_nth [OF 2(1), of 0] at_nth [OF 2(1), of 1] at_nth [OF 2(1), of 2]
      at_nth [OF 2(1), of 3]
    by (auto simp: reader_u32_def adv_def split: if_splits)
next
  case (3 r s x c)
  then show ?case using at_length [OF 3(1)] strict_prefix_length [OF 3(3)]
    by (auto simp: reader_u32_def)
qed

interpretation takeN: decoder "reader_take n" "\<lambda>x c. 0 \<le> n \<and> length x = nat n \<and> c = x" for n
proof (unfold_locales, goal_cases)
  case (1 r c p x)
  then show ?case using at_length [OF 1(1)] by (auto simp: reader_take_def adv_def at_def)
next
  case (2 r s x r')
  then have "0 \<le> n" "nat n \<le> length s" "x = take (nat n) s" "r' = adv r (nat n)"
    using at_length [OF 2(1)] by (auto simp: reader_take_def at_def adv_def split: if_splits)
  then show ?case by (intro exI [of _ x] exI [of _ "drop (nat n) s"]) auto
next
  case (3 r s x c)
  then show ?case using at_length [OF 3(1)] strict_prefix_length [OF 3(3)]
    by (auto simp: reader_take_def)
qed

declare u8.decoder_axioms [decoders] u16.decoder_axioms [decoders]
  u32.decoder_axioms [decoders] takeN.decoder_axioms [decoders]

text \<open>\<open>appendU16Bytes\<close> of \<open>envelope.go\<close>: the length is converted by \<open>uint16\<close>.\<close>

definition appendU16Bytes :: "bytes \<Rightarrow> bytes \<Rightarrow> bytes" where
  "appendU16Bytes dst b = (dst @ putU16 (word_of_nat (length b))) @ b"

lemma appendU16Bytes_eq: "appendU16Bytes dst b = dst @ appendU16Bytes [] b"
  by (simp add: appendU16Bytes_def)

lemma length_appendU16Bytes [simp]:
  "length (appendU16Bytes dst b) = length dst + 2 + length b"
  by (simp add: appendU16Bytes_def)

lemma decoder_takeU16:
  assumes "m < 65536"
  shows "decoder (reader_takeU16 m) (\<lambda>x c. length x \<le> m \<and> c = appendU16Bytes [] x)"
  unfolding reader_takeU16_def
proof (rule decoder_cong, (rule decoders)+)
  fix x c :: bytes
  have "unat (word_of_nat (length x) :: u16) = length x" if "length x \<le> m"
    using that assms by (simp add: unat_of_nat)
  then show "(\<exists>n c1 c2. c1 = putU16 n \<and>
      (if m < unat n then False
       else 0 \<le> int (unat n) \<and> length x = nat (int (unat n)) \<and> c2 = x) \<and> c = c1 @ c2)
    \<longleftrightarrow> (length x \<le> m \<and> c = appendU16Bytes [] x)"
    by (auto simp: appendU16Bytes_def not_less
        intro!: exI [of _ "word_of_nat (length x)"])
qed

lemmas decoder_takeU16_bounded [decoders] =
  decoder_takeU16 [of 64, simplified] decoder_takeU16 [of 256, simplified]

end
