(* ===== verification/Crypto_Std.thy ===== *)
theory Crypto_Std
  imports Codec
begin

text \<open>
  The parts of Go's standard library that the key schedule uses: SHA-256 and SHA-1 (FIPS 180-4,
  \<open>crypto/sha256\<close>, \<open>crypto/sha1\<close>), HMAC (RFC 2104, \<open>crypto/hmac\<close>) and HKDF-SHA256 (RFC 5869,
  \<open>crypto/hkdf\<close>), all executable. Of the hash functions the proofs use only the size of the
  result.
\<close>

section \<open>SHA-256\<close>

definition sha256_K :: "u32 list" where
  "sha256_K =
  [1116352408, 1899447441, 3049323471, 3921009573, 961987163, 1508970993, 2453635748, 2870763221,
   3624381080, 310598401, 607225278, 1426881987, 1925078388, 2162078206, 2614888103, 3248222580,
   3835390401, 4022224774, 264347078, 604807628, 770255983, 1249150122, 1555081692, 1996064986,
   2554220882, 2821834349, 2952996808, 3210313671, 3336571891, 3584528711, 113926993, 338241895,
   666307205, 773529912, 1294757372, 1396182291, 1695183700, 1986661051, 2177026350, 2456956037,
   2730485921, 2820302411, 3259730800, 3345764771, 3516065817, 3600352804, 4094571909, 275423344,
   430227734, 506948616, 659060556, 883997877, 958139571, 1322822218, 1537002063, 1747873779,
   1955562222, 2024104815, 2227730452, 2361852424, 2428436474, 2756734187, 3204031479, 3329325298]"

type_synonym sha256_state = "u32 \<times> u32 \<times> u32 \<times> u32 \<times> u32 \<times> u32 \<times> u32 \<times> u32"

definition sha256_init :: sha256_state where
  "sha256_init = (1779033703, 3144134277, 1013904242, 2773480762,
     1359893119, 2600822924, 528734635, 1541459225)"

text \<open>A message padded to whole 64-byte blocks: \<open>0x80\<close>, zeros, and the bit length.\<close>

definition putU64 :: "u64 \<Rightarrow> bytes" where
  "putU64 v = putU32 (ucast (drop_bit 32 v)) @ putU32 (ucast v)"

definition sha_pad :: "bytes \<Rightarrow> bytes" where
  "sha_pad m = m @ [0x80] @ replicate ((119 - length m mod 64) mod 64) 0 @
     putU64 (word_of_nat (8 * length m))"

text \<open>The big-endian 32-bit words of a block.\<close>

fun be_words :: "bytes \<Rightarrow> u32 list" where
  "be_words (a # b # c # d # r) = getU32 a b c d # be_words r"
| "be_words _ = []"

definition sha256_sched :: "u32 list \<Rightarrow> nat \<Rightarrow> u32 list" where
  "sha256_sched ws t =
     (let x = ws ! (t - 15); y = ws ! (t - 2);
          s0 = xor (xor (word_rotr 7 x) (word_rotr 18 x)) (drop_bit 3 x);
          s1 = xor (xor (word_rotr 17 y) (word_rotr 19 y)) (drop_bit 10 y)
      in ws @ [ws ! (t - 16) + s0 + ws ! (t - 7) + s1])"

definition sha256_round :: "sha256_state \<Rightarrow> u32 \<times> u32 \<Rightarrow> sha256_state" where
  "sha256_round st kw =
     (case st of (a, b, c, d, e, f, g, h) \<Rightarrow>
        let s1 = xor (xor (word_rotr 6 e) (word_rotr 11 e)) (word_rotr 25 e);
            ch = xor (e AND f) (NOT e AND g);
            t1 = h + s1 + ch + fst kw + snd kw;
            s0 = xor (xor (word_rotr 2 a) (word_rotr 13 a)) (word_rotr 22 a);
            maj = xor (xor (a AND b) (a AND c)) (b AND c);
            t2 = s0 + maj
        in (t1 + t2, a, b, c, d + t1, e, f, g))"

definition sha256_add :: "sha256_state \<Rightarrow> sha256_state \<Rightarrow> sha256_state" where
  "sha256_add s t =
     (case s of (a, b, c, d, e, f, g, h) \<Rightarrow> case t of (a', b', c', d', e', f', g', h') \<Rightarrow>
        (a + a', b + b', c + c', d + d', e + e', f + f', g + g', h + h'))"

definition sha256_block :: "sha256_state \<Rightarrow> bytes \<Rightarrow> sha256_state" where
  "sha256_block st blk =
     (let ws = foldl sha256_sched (be_words blk) [16..<64]
      in sha256_add st (foldl sha256_round st (zip sha256_K ws)))"

definition blocks64 :: "bytes \<Rightarrow> bytes list" where
  "blocks64 m = map (\<lambda>i. take 64 (drop (64 * i) m)) [0..<length m div 64]"

definition sha256 :: "bytes \<Rightarrow> bytes" where
  "sha256 m =
     (case foldl sha256_block sha256_init (blocks64 (sha_pad m)) of (a, b, c, d, e, f, g, h) \<Rightarrow>
        concat (map putU32 [a, b, c, d, e, f, g, h]))"

lemma length_sha256 [simp]: "length (sha256 m) = 32"
  by (simp add: sha256_def split: prod.splits)

section \<open>SHA-1\<close>

type_synonym sha1_state = "u32 \<times> u32 \<times> u32 \<times> u32 \<times> u32"

definition sha1_init :: sha1_state where
  "sha1_init = (0x67452301, 0xefcdab89, 0x98badcfe, 0x10325476, 0xc3d2e1f0)"

definition sha1_sched :: "u32 list \<Rightarrow> nat \<Rightarrow> u32 list" where
  "sha1_sched ws t =
     ws @ [word_rotl 1 (xor (xor (ws ! (t - 3)) (ws ! (t - 8))) (xor (ws ! (t - 14)) (ws ! (t - 16))))]"

definition sha1_round :: "sha1_state \<Rightarrow> nat \<times> u32 \<Rightarrow> sha1_state" where
  "sha1_round st tw =
     (case st of (a, b, c, d, e) \<Rightarrow>
        let t = fst tw;
            (f, k) = (if t < 20 then ((b AND c) OR (NOT b AND d), 0x5a827999)
                      else if t < 40 then (xor (xor b c) d, 0x6ed9eba1)
                      else if t < 60 then ((b AND c) OR (b AND d) OR (c AND d), 0x8f1bbcdc)
                      else (xor (xor b c) d, 0xca62c1d6))
        in (word_rotl 5 a + f + e + k + snd tw, a, word_rotl 30 b, c, d))"

definition sha1_block :: "sha1_state \<Rightarrow> bytes \<Rightarrow> sha1_state" where
  "sha1_block st blk =
     (let ws = foldl sha1_sched (be_words blk) [16..<80]
      in case st of (a, b, c, d, e) \<Rightarrow>
           case foldl sha1_round st (zip [0..<80] ws) of (a', b', c', d', e') \<Rightarrow>
             (a + a', b + b', c + c', d + d', e + e'))"

definition sha1 :: "bytes \<Rightarrow> bytes" where
  "sha1 m =
     (case foldl sha1_block sha1_init (blocks64 (sha_pad m)) of (a, b, c, d, e) \<Rightarrow>
        concat (map putU32 [a, b, c, d, e]))"

lemma length_sha1 [simp]: "length (sha1 m) = 20"
  by (simp add: sha1_def split: prod.splits)

section \<open>HMAC\<close>

text \<open>With the 64-byte block of both hash functions.\<close>

definition hmac :: "(bytes \<Rightarrow> bytes) \<Rightarrow> bytes \<Rightarrow> bytes \<Rightarrow> bytes" where
  "hmac H key msg =
     (let k = (if length key > 64 then H key else key);
          k = k @ replicate (64 - length k) 0
      in H (map (\<lambda>b. xor b 0x5c) k @ H (map (\<lambda>b. xor b 0x36) k @ msg)))"

lemma length_hmac [simp]:
  "length (hmac sha256 key msg) = 32" "length (hmac sha1 key msg) = 20"
  by (simp_all add: hmac_def Let_def)

section \<open>HKDF-SHA256\<close>

text \<open>An empty salt is a block of zeros of the hash's size.\<close>

definition hkdf_Extract :: "bytes \<Rightarrow> bytes \<Rightarrow> bytes" where
  "hkdf_Extract secret salt = hmac sha256 (if length salt = 0 then replicate 32 0 else salt) secret"

text \<open>\<open>n\<close> blocks of output, counting from the last block \<open>buf\<close> with number \<open>counter\<close>.\<close>

fun hkdf_blocks :: "bytes \<Rightarrow> bytes \<Rightarrow> nat \<Rightarrow> u8 \<Rightarrow> bytes \<Rightarrow> bytes" where
  "hkdf_blocks prk info 0 counter buf = []"
| "hkdf_blocks prk info (Suc n) counter buf =
     (let counter = counter + 1;
          buf = hmac sha256 prk (buf @ info @ [counter])
      in buf @ hkdf_blocks prk info n counter buf)"

abbreviation (input) errKeyLength :: gerror where "errKeyLength \<equiv> [External 0]"

definition hkdf_Expand :: "bytes \<Rightarrow> bytes \<Rightarrow> nat \<Rightarrow> gerror + bytes" where
  "hkdf_Expand prk info len =
     (if len > 32 * 255 then Inl errKeyLength
      else Inr (take len (hkdf_blocks prk info ((len + 31) div 32) 0 [])))"

lemma length_hkdf_blocks: "length (hkdf_blocks prk info n c buf) = 32 * n"
  by (induction n arbitrary: c buf) (simp_all add: Let_def)

lemma length_hkdf_Expand: "hkdf_Expand prk info len = Inr out \<Longrightarrow> length out = len"
  by (auto simp: hkdf_Expand_def length_hkdf_blocks split: if_splits)

end
