(* ===== verification/Types.thy ===== *)
theory Types
  imports Prelude
begin

text \<open>
  \<open>tumbler.go\<close>: method types, policies, algorithm identifiers and the data-key bounds.
  A Go \<open>uint8\<close> enumeration is kept as a byte, since any byte can be read from a file;
  \<open>valid\<close> is the code's own range check.
\<close>

section \<open>Method types\<close>

type_synonym MethodType = u8

abbreviation (input) MethodPassword :: MethodType where "MethodPassword \<equiv> 1"
abbreviation (input) MethodYubiKey :: MethodType where "MethodYubiKey \<equiv> 2"
abbreviation (input) MethodPasswordAndYubiKey :: MethodType where "MethodPasswordAndYubiKey \<equiv> 3"
abbreviation (input) MethodRecovery :: MethodType where "MethodRecovery \<equiv> 4"

definition MethodType_valid :: "MethodType \<Rightarrow> bool" where
  "MethodType_valid t \<longleftrightarrow> t \<ge> MethodPassword \<and> t \<le> MethodRecovery"

text \<open>\<open>%d\<close> of \<open>fmt\<close> for an unsigned value.\<close>

fun fmt_d :: "nat \<Rightarrow> string" where
  "fmt_d n = (if n < 10 then [char_of (48 + n)] else fmt_d (n div 10) @ [char_of (48 + n mod 10)])"

declare fmt_d.simps [simp del]

definition MethodType_String :: "MethodType \<Rightarrow> string" where
  "MethodType_String t =
     (if t = MethodPassword then ''password''
      else if t = MethodYubiKey then ''yubikey''
      else if t = MethodPasswordAndYubiKey then ''password+yubikey''
      else if t = MethodRecovery then ''recovery''
      else ''method('' @ fmt_d (unat t) @ '')'')"

section \<open>Policies\<close>

type_synonym Policy = u8

abbreviation (input) PolicyInvalid :: Policy where "PolicyInvalid \<equiv> 0"
abbreviation (input) PolicyPasswordOnly :: Policy where "PolicyPasswordOnly \<equiv> 1"
abbreviation (input) PolicyPasswordAndYubiKey :: Policy where "PolicyPasswordAndYubiKey \<equiv> 2"
abbreviation (input) PolicyYubiKeyOnly :: Policy where "PolicyYubiKeyOnly \<equiv> 3"

definition Policy_String :: "Policy \<Rightarrow> string" where
  "Policy_String p =
     (if p = PolicyPasswordOnly then ''password-only''
      else if p = PolicyPasswordAndYubiKey then ''password-and-yubikey''
      else if p = PolicyYubiKeyOnly then ''yubikey-only''
      else ''invalid'')"

definition Policy_valid :: "Policy \<Rightarrow> bool" where
  "Policy_valid p \<longleftrightarrow> p \<ge> PolicyPasswordOnly \<and> p \<le> PolicyYubiKeyOnly"

definition policyForMethod :: "MethodType \<Rightarrow> Policy" where
  "policyForMethod t =
     (if t = MethodPassword then PolicyPasswordOnly
      else if t = MethodYubiKey then PolicyYubiKeyOnly
      else if t = MethodPasswordAndYubiKey then PolicyPasswordAndYubiKey
      else PolicyInvalid)"

section \<open>Identifiers and bounds\<close>

type_synonym AEADID = u8
type_synonym KDFID = u8

abbreviation (input) FormatVersion :: u8 where "FormatVersion \<equiv> 1"
abbreviation (input) AEADChaCha20Poly1305 :: AEADID where "AEADChaCha20Poly1305 \<equiv> 1"
abbreviation (input) KDFNone :: KDFID where "KDFNone \<equiv> 0"
abbreviation (input) KDFArgon2id :: KDFID where "KDFArgon2id \<equiv> 1"
abbreviation (input) KDFScrypt :: KDFID where "KDFScrypt \<equiv> 2"
abbreviation (input) maxDEKLen :: nat where "maxDEKLen \<equiv> 240"
abbreviation (input) wrappedOverhead :: nat where "wrappedOverhead \<equiv> 16"

section \<open>Facts about the enumerations\<close>

lemma MethodType_valid_iff:
  "MethodType_valid t \<longleftrightarrow>
   t = MethodPassword \<or> t = MethodYubiKey \<or> t = MethodPasswordAndYubiKey \<or> t = MethodRecovery"
proof -
  have "t \<ge> 1 \<and> t \<le> 4 \<longleftrightarrow> unat t \<in> {1, 2, 3, 4}"
    by (auto simp: word_le_nat_alt)
  also have "\<dots> \<longleftrightarrow> t = 1 \<or> t = 2 \<or> t = 3 \<or> t = 4"
    by (auto simp: word_unat_eq_iff)
  finally show ?thesis by (simp add: MethodType_valid_def)
qed

lemma Policy_valid_iff:
  "Policy_valid p \<longleftrightarrow>
   p = PolicyPasswordOnly \<or> p = PolicyPasswordAndYubiKey \<or> p = PolicyYubiKeyOnly"
proof -
  have "p \<ge> 1 \<and> p \<le> 3 \<longleftrightarrow> unat p \<in> {1, 2, 3}"
    by (auto simp: word_le_nat_alt)
  also have "\<dots> \<longleftrightarrow> p = 1 \<or> p = 2 \<or> p = 3"
    by (auto simp: word_unat_eq_iff)
  finally show ?thesis by (simp add: Policy_valid_def)
qed

lemma policyForMethod_valid:
  "Policy_valid (policyForMethod t) \<longleftrightarrow> MethodType_valid t \<and> t \<noteq> MethodRecovery"
  by (auto simp: policyForMethod_def Policy_valid_iff MethodType_valid_iff)

lemma policyForMethod_invalid: "policyForMethod t = PolicyInvalid \<or> Policy_valid (policyForMethod t)"
  by (auto simp: policyForMethod_def Policy_valid_iff)

lemma policyForMethod_inj:
  "policyForMethod t = policyForMethod u \<Longrightarrow> Policy_valid (policyForMethod t) \<Longrightarrow> t = u"
  by (auto simp: policyForMethod_def Policy_valid_iff split: if_splits)

end
