(* ===== verification/World.thy ===== *)
theory World
  imports Types
begin

text \<open>
  The state of the stateful code: one memory of byte slices that hold secret material, the
  \<open>SecureBytes\<close> containers that own some of them, the \<open>FakeTransport\<close> objects, and the
  history of requests made to the outside. Everything outside the repository (operating
  system, random source, contexts, cryptographic primitives, the ykman process) is an
  argument of the model, the record \<open>environ\<close>. What can change over time is a function of the
  history, so that consecutive identical requests may be answered differently. An outside
  error is a number \<open>n\<close>, which the code sees as the error value \<open>[External n]\<close>. The random source
  answers with a stream from which a request of \<open>n\<close> bytes takes the first \<open>n\<close>.
\<close>

section \<open>Objects\<close>

type_synonym addr = nat

text \<open>\<open>SecureBytes\<close>: the address of its buffer (\<open>None\<close> is Go's \<open>nil\<close> slice) and its flag.\<close>

record sb =
  sbuf :: "addr option"
  sdestroyed :: bool

text \<open>
  \<open>*SecureBytes\<close>: \<open>None\<close> is the nil pointer, \<open>Some i\<close> the \<open>i\<close>-th container ever made.
\<close>

type_synonym sbptr = "nat option"

text \<open>\<open>FakeTransport\<close> of \<open>transport/fake.go\<close>; \<open>TouchFn\<close> is only known to be set or not.\<close>

record fake =
  fsecrets :: "u8 \<rightharpoonup> bytes"
  fTouchFn :: bool
  fPresentFlag :: bool
  fSerialValue :: bytes
  fErrInject :: "gerror option"
  fTouches :: nat

section \<open>Requests to the outside\<close>

datatype event =
    EvGetrlimit
  | EvSetrlimit u64 u64
  | EvMlock nat
  | EvMunlock nat
  | EvRand nat
  | EvCtxErr nat
  | EvTouch                        \<comment> \<open>the touch announcement callback\<close>
  | EvTouchFn                      \<comment> \<open>\<open>FakeTransport.TouchFn\<close>\<close>
  | EvRespond u8 bytes             \<comment> \<open>a key asked to answer a challenge on a slot\<close>
  | EvLookPath string
  | EvRun string "string list"     \<comment> \<open>a process run: path and arguments\<close>

type_synonym history = "event list"

text \<open>Newest request first.\<close>

record world =
  wmem :: "bytes list"
  wsbs :: "sb list"
  wfakes :: "fake list"
  wraised :: bool
  wlog :: history

text \<open>The result of one process run, as \<open>runResult\<close> of \<open>transport/ykman.go\<close>: \<open>rrExecErr\<close> tells
  whether the error is an \<open>*exec.Error\<close>.\<close>

record runResult =
  rrStdout :: bytes
  rrStderr :: bytes
  rrErr :: "nat option"
  rrExecErr :: bool

record environ =
  x_unix :: bool
  x_getrlimit :: "history \<Rightarrow> (u64 \<times> u64) option"
  x_mlock :: "history \<Rightarrow> nat \<Rightarrow> nat option"
  x_munlock :: "history \<Rightarrow> nat \<Rightarrow> nat option"
  x_rand :: "history \<Rightarrow> nat + (nat \<Rightarrow> u8)"
  x_ctxErr :: "nat \<Rightarrow> history \<Rightarrow> nat option"
  x_touchFn :: "history \<Rightarrow> gerror option"
  x_lookPath :: "history \<Rightarrow> string \<Rightarrow> nat + string"
  x_run :: "history \<Rightarrow> string \<Rightarrow> string list \<Rightarrow> runResult"
  x_argon2 :: "bytes \<Rightarrow> bytes \<Rightarrow> u32 \<Rightarrow> u32 \<Rightarrow> u8 \<Rightarrow> nat \<Rightarrow> bytes"
  x_scrypt :: "bytes \<Rightarrow> bytes \<Rightarrow> int \<Rightarrow> nat \<Rightarrow> nat \<Rightarrow> nat \<Rightarrow> nat + bytes"
  x_seal :: "bytes \<Rightarrow> bytes \<Rightarrow> bytes \<Rightarrow> bytes \<Rightarrow> bytes"
  x_open :: "bytes \<Rightarrow> bytes \<Rightarrow> bytes \<Rightarrow> bytes \<Rightarrow> bytes option"

type_synonym 'a io = "(world, 'a) go"

section \<open>Primitive actions\<close>

definition logEvent :: "event \<Rightarrow> unit io" where
  "logEvent ev = modify (\<lambda>w. w\<lparr>wlog := ev # wlog w\<rparr>)"

text \<open>A fresh slice with the given contents.\<close>

definition alloc :: "bytes \<Rightarrow> addr io" where
  "alloc b = (\<lambda>w. (Inr (length (wmem w)), w\<lparr>wmem := wmem w @ [b]\<rparr>))"

definition load :: "addr \<Rightarrow> bytes io" where
  "load a = gets (\<lambda>w. wmem w ! a)"

definition store :: "addr \<Rightarrow> bytes \<Rightarrow> unit io" where
  "store a b = modify (\<lambda>w. w\<lparr>wmem := (wmem w)[a := b]\<rparr>)"

text \<open>
  \<open>zero\<close> of \<open>combine.go\<close> (and \<open>zeroBytes\<close> of \<open>ykman.go\<close>): the loop that overwrites every byte.
\<close>

definition zeroed :: "bytes \<Rightarrow> bytes" where
  "zeroed b = map (\<lambda>_. 0) b"

definition zero :: "addr \<Rightarrow> unit io" where
  "zero a = modify (\<lambda>w. w\<lparr>wmem := (wmem w)[a := zeroed (wmem w ! a)]\<rparr>)"

text \<open>\<open>ctx.Err()\<close> of a \<open>context.Context\<close>, and the check \<open>if err := ctx.Err(); err != nil\<close>.\<close>

definition ctxCheck :: "environ \<Rightarrow> nat \<Rightarrow> unit io" where
  "ctxCheck X ctx =
     (\<lambda>w. let r = x_ctxErr X ctx (wlog w); w = w\<lparr>wlog := EvCtxErr ctx # wlog w\<rparr>
          in (case r of None \<Rightarrow> (Inr (), w) | Some n \<Rightarrow> (Inl [External n], w)))"

section \<open>Well-formed worlds\<close>

text \<open>
  A live container owns a slice, a destroyed one owns none, and no slice has two owners.
\<close>

definition wfw :: "world \<Rightarrow> bool" where
  "wfw w \<longleftrightarrow>
     (\<forall>i < length (wsbs w). sdestroyed (wsbs w ! i) \<longleftrightarrow> sbuf (wsbs w ! i) = None) \<and>
     (\<forall>i < length (wsbs w). \<forall>a. sbuf (wsbs w ! i) = Some a \<longrightarrow> a < length (wmem w)) \<and>
     (\<forall>i < length (wsbs w). \<forall>j < length (wsbs w). \<forall>a.
        sbuf (wsbs w ! i) = Some a \<longrightarrow> sbuf (wsbs w ! j) = Some a \<longrightarrow> i = j)"

text \<open>What a container holds; \<open>None\<close> when it is destroyed.\<close>

definition payload :: "world \<Rightarrow> nat \<Rightarrow> bytes option" where
  "payload w i =
     (if i < length (wsbs w) then map_option (\<lambda>a. wmem w ! a) (sbuf (wsbs w ! i)) else None)"

definition owned :: "world \<Rightarrow> addr \<Rightarrow> bool" where
  "owned w a \<longleftrightarrow> (\<exists>i < length (wsbs w). sbuf (wsbs w ! i) = Some a)"

definition wiped :: "bytes \<Rightarrow> bool" where
  "wiped b \<longleftrightarrow> (\<forall>x \<in> set b. x = 0)"

lemma wiped_zeroed [simp]: "wiped (zeroed b)"
  by (simp add: wiped_def zeroed_def)

lemma length_zeroed [simp]: "length (zeroed b) = length b"
  by (simp add: zeroed_def)

text \<open>What identifies a \<open>FakeTransport\<close>: everything but its touch counter.\<close>

definition fakeCfg :: "world \<Rightarrow> fake list" where
  "fakeCfg w = map (\<lambda>f. f\<lparr>fTouches := 0\<rparr>) (wfakes w)"

text \<open>
  \<open>leaves w w' K D\<close>: what happened from \<open>w\<close> to \<open>w'\<close> left every slice and container that existed
  in \<open>w\<close> as it was; the containers created since and still live are those of \<open>K\<close>, with their
  payloads; no transport has been reconfigured; and every slice created since is wiped, or owned by one of them, or is one of the
  raw buffers \<open>D\<close> that are still to be wiped.
\<close>

definition leaves :: "world \<Rightarrow> world \<Rightarrow> (nat \<times> bytes) set \<Rightarrow> addr set \<Rightarrow> bool" where
  "leaves w w' K D \<longleftrightarrow>
     wfw w' \<and> length (wmem w) \<le> length (wmem w') \<and> length (wsbs w) \<le> length (wsbs w') \<and>
     (\<exists>es. wlog w' = es @ wlog w) \<and> fakeCfg w' = fakeCfg w \<and>
     (\<forall>a < length (wmem w). wmem w' ! a = wmem w ! a) \<and>
     (\<forall>i < length (wsbs w). wsbs w' ! i = wsbs w ! i) \<and>
     (\<forall>i a. length (wsbs w) \<le> i \<longrightarrow> i < length (wsbs w') \<longrightarrow> sbuf (wsbs w' ! i) = Some a \<longrightarrow>
        length (wmem w) \<le> a) \<and>
     K = {(i, v). length (wsbs w) \<le> i \<and> payload w' i = Some v} \<and>
     (\<forall>a. length (wmem w) \<le> a \<longrightarrow> a < length (wmem w') \<longrightarrow>
        wiped (wmem w' ! a) \<or> owned w' a \<or> a \<in> D) \<and>
     (\<forall>a \<in> D. length (wmem w) \<le> a \<and> a < length (wmem w') \<and> \<not> owned w' a)"

lemma leaves_refl [simp]: "wfw w \<Longrightarrow> leaves w w {} {}"
  by (auto simp: leaves_def payload_def)

lemma leaves_wf: "leaves w w' K D \<Longrightarrow> wfw w'"
  by (simp add: leaves_def)

lemma leaves_lengths:
  "leaves w w' K D \<Longrightarrow> length (wmem w) \<le> length (wmem w')"
  "leaves w w' K D \<Longrightarrow> length (wsbs w) \<le> length (wsbs w')"
  by (simp_all add: leaves_def)

lemma leaves_log: "leaves w w' K D \<Longrightarrow> \<exists>es. wlog w' = es @ wlog w"
  by (simp add: leaves_def)

lemma leaves_fakes: "leaves w w' K D \<Longrightarrow> fakeCfg w' = fakeCfg w"
  by (simp add: leaves_def)

lemma leaves_old_mem: "leaves w w' K D \<Longrightarrow> a < length (wmem w) \<Longrightarrow> wmem w' ! a = wmem w ! a"
  by (simp add: leaves_def)

lemma leaves_old_sb: "leaves w w' K D \<Longrightarrow> i < length (wsbs w) \<Longrightarrow> wsbs w' ! i = wsbs w ! i"
  by (simp add: leaves_def)

lemma leaves_newbuf:
  "leaves w w' K D \<Longrightarrow> length (wsbs w) \<le> i \<Longrightarrow> i < length (wsbs w') \<Longrightarrow>
   sbuf (wsbs w' ! i) = Some a \<Longrightarrow> length (wmem w) \<le> a"
  unfolding leaves_def by blast

lemma leaves_K: "leaves w w' K D \<Longrightarrow> (i, v) \<in> K \<longleftrightarrow> length (wsbs w) \<le> i \<and> payload w' i = Some v"
  by (simp add: leaves_def)

lemma leaves_mem:
  "leaves w w' K D \<Longrightarrow> length (wmem w) \<le> a \<Longrightarrow> a < length (wmem w') \<Longrightarrow>
   wiped (wmem w' ! a) \<or> owned w' a \<or> a \<in> D"
  unfolding leaves_def by blast

lemma leaves_dirty:
  "leaves w w' K D \<Longrightarrow> a \<in> D \<Longrightarrow>
   length (wmem w) \<le> a \<and> a < length (wmem w') \<and> \<not> owned w' a"
  unfolding leaves_def by blast

lemma leavesI:
  assumes "wfw w'" and "length (wmem w) \<le> length (wmem w')" and "length (wsbs w) \<le> length (wsbs w')"
    and "\<exists>es. wlog w' = es @ wlog w" and "fakeCfg w' = fakeCfg w"
    and "\<And>a. a < length (wmem w) \<Longrightarrow> wmem w' ! a = wmem w ! a"
    and "\<And>i. i < length (wsbs w) \<Longrightarrow> wsbs w' ! i = wsbs w ! i"
    and "\<And>i a. length (wsbs w) \<le> i \<Longrightarrow> i < length (wsbs w') \<Longrightarrow> sbuf (wsbs w' ! i) = Some a \<Longrightarrow>
      length (wmem w) \<le> a"
    and "\<And>i v. (i, v) \<in> K \<longleftrightarrow> length (wsbs w) \<le> i \<and> payload w' i = Some v"
    and "\<And>a. length (wmem w) \<le> a \<Longrightarrow> a < length (wmem w') \<Longrightarrow>
      wiped (wmem w' ! a) \<or> owned w' a \<or> a \<in> D"
    and "\<And>a. a \<in> D \<Longrightarrow> length (wmem w) \<le> a \<and> a < length (wmem w') \<and> \<not> owned w' a"
  shows "leaves w w' K D"
  using assms unfolding leaves_def by fast

lemma payload_Some_less: "payload w i = Some v \<Longrightarrow> i < length (wsbs w)"
  by (auto simp: payload_def split: if_splits)

text \<open>Containers that existed before keep their payload.\<close>

lemma leaves_payload:
  assumes "wfw w" and "leaves w w' K D" and "i < length (wsbs w)"
  shows "payload w' i = payload w i"
proof (cases "sbuf (wsbs w ! i)")
  case None
  with assms show ?thesis by (simp add: payload_def leaves_def)
next
  case (Some a)
  with assms have "a < length (wmem w)" by (auto simp: wfw_def)
  with Some assms show ?thesis by (auto simp: payload_def leaves_def)
qed

lemma leaves_payload_Some:
  "wfw w \<Longrightarrow> leaves w w' K D \<Longrightarrow> payload w i = Some v \<Longrightarrow> payload w' i = Some v"
  using leaves_payload [of w w' K D i] payload_Some_less [of w i v] by simp

lemma leaves_new_payload: "leaves w w' K D \<Longrightarrow> (i, v) \<in> K \<Longrightarrow> payload w' i = Some v"
  by (simp add: leaves_def)

lemma owned_iff_old:
  assumes "leaves w w' K D" and "a < length (wmem w)"
  shows "owned w' a \<longleftrightarrow> owned w a"
proof
  assume "owned w a"
  then obtain i where i: "i < length (wsbs w)" "sbuf (wsbs w ! i) = Some a"
    by (auto simp: owned_def)
  with leaves_old_sb [OF assms(1) i(1)] leaves_lengths(2) [OF assms(1)]
  show "owned w' a" by (auto simp: owned_def intro!: exI [of _ i])
next
  assume "owned w' a"
  then obtain i where i: "i < length (wsbs w')" "sbuf (wsbs w' ! i) = Some a"
    by (auto simp: owned_def)
  have "i < length (wsbs w)"
    using leaves_newbuf [OF assms(1) _ i] assms(2) by (meson leD not_less)
  with i leaves_old_sb [OF assms(1) this] show "owned w a" by (auto simp: owned_def)
qed

text \<open>Consecutive pieces of code: what is left adds up.\<close>

lemma leaves_trans:
  assumes w: "wfw w" and 1: "leaves w w1 K D" and 2: "leaves w1 w2 L E"
  shows "leaves w w2 (K \<union> L) (D \<union> E)"
proof (rule leavesI)
  have w1: "wfw w1" using 1 by (rule leaves_wf)
  note len = leaves_lengths [OF 1] leaves_lengths [OF 2]
  show "wfw w2" using 2 by (rule leaves_wf)
  show "length (wmem w) \<le> length (wmem w2)" "length (wsbs w) \<le> length (wsbs w2)"
    using len by simp_all
  show "\<exists>es. wlog w2 = es @ wlog w"
    using leaves_log [OF 1] leaves_log [OF 2] by auto
  show "fakeCfg w2 = fakeCfg w" using leaves_fakes [OF 1] leaves_fakes [OF 2] by simp
  show "wmem w2 ! a = wmem w ! a" if "a < length (wmem w)" for a
    using that len leaves_old_mem [OF 1, of a] leaves_old_mem [OF 2, of a] by simp
  show "wsbs w2 ! i = wsbs w ! i" if "i < length (wsbs w)" for i
    using that len leaves_old_sb [OF 1, of i] leaves_old_sb [OF 2, of i] by simp
  show "length (wmem w) \<le> a"
    if "length (wsbs w) \<le> i" "i < length (wsbs w2)" "sbuf (wsbs w2 ! i) = Some a" for i a
    using that len leaves_old_sb [OF 2, of i] leaves_newbuf [OF 1, of i a]
      leaves_newbuf [OF 2, of i a]
    by (cases "i < length (wsbs w1)") auto
  show "(i, v) \<in> K \<union> L \<longleftrightarrow> length (wsbs w) \<le> i \<and> payload w2 i = Some v" for i v
    using len leaves_K [OF 1, of i v] leaves_K [OF 2, of i v] leaves_payload [OF w1 2, of i]
      payload_Some_less [of w1 i v]
    by (cases "i < length (wsbs w1)") auto
  show "wiped (wmem w2 ! a) \<or> owned w2 a \<or> a \<in> D \<union> E"
    if "length (wmem w) \<le> a" "a < length (wmem w2)" for a
    using that leaves_mem [OF 1, of a] leaves_mem [OF 2, of a] leaves_old_mem [OF 2, of a]
      owned_iff_old [OF 2, of a]
    by (cases "a < length (wmem w1)") auto
  show "length (wmem w) \<le> a \<and> a < length (wmem w2) \<and> \<not> owned w2 a" if "a \<in> D \<union> E" for a
    using that len leaves_dirty [OF 1, of a] leaves_dirty [OF 2, of a]
      owned_iff_old [OF 2, of a]
    by auto
qed

end
