(* ===== verification/Fixtures.thy ===== *)
theory Fixtures
  imports Crypto_Std World
begin

text \<open>
  A concrete outside and a concrete state, on which the properties of the development are
  applied: every hypothesis of a property is discharged here for some input. The environment
  answers every request without fault; its sealing appends a truncated HMAC-SHA256 tag (it
  authenticates and does not hide, which is enough for the laws the model relies on).
\<close>

definition demoTag :: "bytes \<Rightarrow> bytes \<Rightarrow> bytes \<Rightarrow> bytes \<Rightarrow> bytes" where
  "demoTag k n p a = take 16 (hmac sha256 k (n @ a @ p))"

definition demoRun :: "string list \<Rightarrow> runResult" where
  "demoRun args =
     \<lparr>rrStdout =
        (if args = [''--version''] then ascii ''YubiKey Manager (ykman) version: 5.2.1''
         else if args = [''list'', ''--serials''] then ascii ''12345678''
         else ascii ''  00112233445566778899AABBCCDDEEFF00112233''),
      rrStderr = [], rrErr = None, rrExecErr = False\<rparr>"

definition demoX :: environ where
  "demoX =
     \<lparr>x_unix = True, x_getrlimit = (\<lambda>_. Some (65536, 8388608)),
      x_mlock = (\<lambda>_ _. None), x_munlock = (\<lambda>_ _. None),
      x_rand = (\<lambda>h. Inr (\<lambda>i. word_of_nat (17 * length h + i))),
      x_ctxErr = (\<lambda>_ _. None), x_touchFn = (\<lambda>_. None),
      x_lookPath = (\<lambda>_ p. Inr (''/usr/bin/'' @ p)), x_run = (\<lambda>_ _ args. demoRun args),
      x_argon2 = (\<lambda>pw salt t m th n. take n (hmac sha256 pw salt)),
      x_scrypt = (\<lambda>pw salt N r p n. Inr (take n (hmac sha256 pw salt))),
      x_seal = (\<lambda>k n p a. p @ demoTag k n p a),
      x_open = (\<lambda>k n c a.
        let p = take (length c - 16) c in
        if length c \<ge> 16 \<and> drop (length c - 16) c = demoTag k n p a then Some p else None)\<rparr>"

text \<open>The same outside, on a machine that refuses to lock memory.\<close>

definition lockedX :: environ where
  "lockedX = demoX\<lparr>x_mlock := (\<lambda>_ _. Some 12)\<rparr>"

definition demoPassword :: bytes where "demoPassword = ascii ''correct horse''"
definition demoDEK :: bytes where "demoDEK = map word_of_nat [0..<32]"
definition demoCode :: bytes where "demoCode = map (\<lambda>i. word_of_nat (200 - i)) [0..<32]"

text \<open>
  Containers 0, 1 and 2 hold the password, the data key and the recovery code, container 3 has
  been destroyed; one fake key has a secret on slot 2.
\<close>

definition demoFake :: fake where
  "demoFake = \<lparr>fsecrets = [2 \<mapsto> ascii ''a key of twenty byte''], fTouchFn = False, fPresentFlag = True,
     fSerialValue = ascii ''42'', fErrInject = None, fTouches = 0\<rparr>"

definition demoW :: world where
  "demoW =
     \<lparr>wmem = [demoPassword, demoDEK, demoCode, [0, 0, 0, 0], [7, 7, 7]],
      wsbs = [\<lparr>sbuf = Some 0, sdestroyed = False\<rparr>, \<lparr>sbuf = Some 1, sdestroyed = False\<rparr>,
              \<lparr>sbuf = Some 2, sdestroyed = False\<rparr>, \<lparr>sbuf = None, sdestroyed = True\<rparr>],
      wfakes = [demoFake], wraised = False, wlog = []\<rparr>"

lemma demoW_wfw: "wfw demoW"
  by (auto simp: wfw_def demoW_def less_Suc_eq numeral_eq_Suc)

lemma demo_lengths [simp]:
  "length demoPassword = 13" "length demoDEK = 32" "length demoCode = 32"
  by (simp_all add: demoPassword_def demoDEK_def demoCode_def)

lemma demoX_aead:
  "x_open demoX k n (x_seal demoX k n p a) a = Some p"
  "length (x_seal demoX k n p a) = length p + 16"
  by (simp_all add: demoX_def demoTag_def)

end
