(* ===== verification/Secure_Bytes.thy ===== *)
theory Secure_Bytes
  imports Fixtures
begin

text \<open>
  Package \<open>securebytes\<close>: construction (\<open>New\<close>, \<open>NewZero\<close>, \<open>Clone\<close>), borrowed access (\<open>Use\<close>,
  \<open>Len\<close>), destruction (\<open>Destroy\<close>, the finalizer), the memory-lock bridges and the one-time
  raise of the process limit. The lemmas give each operation's effect on the memory in
  terms of \<open>leaves\<close>. One operation runs at a time; theory \<open>Atomic\<close>
  shows that the mutex makes this sound.
\<close>

section \<open>Memory locking\<close>

text \<open>
  \<open>raiseMemlockLimit\<close> (unix): the soft limit is lifted to the hard limit, best effort.
  On other platforms it is a no-op.
\<close>

definition raiseMemlockLimit :: "environ \<Rightarrow> unit io" where
  "raiseMemlockLimit X =
     (\<lambda>w. if \<not> x_unix X then (Inr (), w)
          else
            let r = x_getrlimit X (wlog w); w = w\<lparr>wlog := EvGetrlimit # wlog w\<rparr> in
            case r of
              None \<Rightarrow> (Inr (), w)
            | Some (cur, mx) \<Rightarrow>
                if cur \<ge> mx then (Inr (), w)
                else (Inr (), w\<lparr>wlog := EvSetrlimit mx mx # wlog w\<rparr>))"

text \<open>\<open>raiseOnce.Do(raiseMemlockLimit)\<close>\<close>

definition raiseOnce :: "environ \<Rightarrow> unit io" where
  "raiseOnce X =
     (\<lambda>w. if wraised w then (Inr (), w) else raiseMemlockLimit X (w\<lparr>wraised := True\<rparr>))"

text \<open>\<open>mlock\<close> and \<open>munlock\<close> of both platform files; a zero-length region is never passed on.\<close>

definition mlock :: "environ \<Rightarrow> addr \<Rightarrow> unit io" where
  "mlock X a =
     (\<lambda>w. let n = length (wmem w ! a) in
          if \<not> x_unix X then (Inr (), w)
          else if n = 0 then (Inr (), w)
          else
            let r = x_mlock X (wlog w) n; w = w\<lparr>wlog := EvMlock n # wlog w\<rparr> in
            (case r of None \<Rightarrow> (Inr (), w) | Some c \<Rightarrow> (Inl [External c], w)))"

definition munlock :: "environ \<Rightarrow> addr \<Rightarrow> unit io" where
  "munlock X a =
     (\<lambda>w. let n = length (wmem w ! a) in
          if \<not> x_unix X then (Inr (), w)
          else if n = 0 then (Inr (), w)
          else
            let r = x_munlock X (wlog w) n; w = w\<lparr>wlog := EvMunlock n # wlog w\<rparr> in
            (case r of None \<Rightarrow> (Inr (), w) | Some c \<Rightarrow> (Inl [External c], w)))"

section \<open>Operations\<close>

text \<open>\<open>&SecureBytes{buf: buf}\<close>\<close>

definition newSB :: "addr \<Rightarrow> sbptr io" where
  "newSB buf = (\<lambda>w. (Inr (Some (length (wsbs w))),
     w\<lparr>wsbs := wsbs w @ [\<lparr>sbuf = Some buf, sdestroyed = False\<rparr>]\<rparr>))"

definition sb_New :: "environ \<Rightarrow> addr \<Rightarrow> sbptr io" where
  "sb_New X b =
     bind (raiseOnce X) (\<lambda>_.
     bind (load b) (\<lambda>bs.
     bind (alloc bs) (\<lambda>buf.
     bind (onError (zero buf) (mlock X buf)) (\<lambda>_.
     bind (zero b) (\<lambda>_.
     newSB buf)))))"

definition sb_NewZero :: "environ \<Rightarrow> int \<Rightarrow> sbptr io" where
  "sb_NewZero X sz =
     (if sz < 0 then throw [ErrNegativeSize]
      else
        bind (raiseOnce X) (\<lambda>_.
        bind (alloc (replicate (nat sz) 0)) (\<lambda>buf.
        bind (mlock X buf) (\<lambda>_.
        newSB buf))))"

text \<open>
  The object behind a pointer. An index that was never handed out denotes no Go object; it is
  read as a destroyed container.
\<close>

definition sbAt :: "world \<Rightarrow> nat \<Rightarrow> sb" where
  "sbAt w i = (if i < length (wsbs w) then wsbs w ! i else \<lparr>sbuf = None, sdestroyed = True\<rparr>)"

text \<open>
  \<open>Use(fn)\<close>: a nil receiver panics, a destroyed one is refused, otherwise \<open>fn\<close> gets the
  address of the container's own buffer. What \<open>fn\<close> leaves in captured variables is the
  action's result.
\<close>

definition sb_Use :: "sbptr \<Rightarrow> (addr \<Rightarrow> 'a io) \<Rightarrow> 'a io" where
  "sb_Use p f =
     (\<lambda>w. case p of
            None \<Rightarrow> (Inl [GoPanic], w)
          | Some i \<Rightarrow>
              if sdestroyed (sbAt w i) then (Inl [ErrDestroyed], w)
              else f (the (sbuf (sbAt w i))) w)"

definition sb_Len :: "sbptr \<Rightarrow> nat io" where
  "sb_Len p =
     (\<lambda>w. case p of
            None \<Rightarrow> (Inl [GoPanic], w)
          | Some i \<Rightarrow>
              if sdestroyed (sbAt w i) then (Inr 0, w)
              else (Inr (length (wmem w ! the (sbuf (sbAt w i)))), w))"

text \<open>\<open>Destroy\<close>: the container is marked destroyed whether or not \<open>munlock\<close> fails.\<close>

definition sb_Destroy :: "environ \<Rightarrow> sbptr \<Rightarrow> unit io" where
  "sb_Destroy X p =
     (\<lambda>w. case p of
            None \<Rightarrow> (Inl [GoPanic], w)
          | Some i \<Rightarrow>
              if sdestroyed (sbAt w i) then (Inr (), w)
              else
                let a = the (sbuf (sbAt w i)) in
                (case bind (zero a) (\<lambda>_. munlock X a) w of
                   (r, w) \<Rightarrow>
                     (r, w\<lparr>wsbs := (wsbs w)[i := \<lparr>sbuf = None, sdestroyed = True\<rparr>]\<rparr>)))"

definition sb_Clone :: "environ \<Rightarrow> sbptr \<Rightarrow> sbptr io" where
  "sb_Clone X p =
     sb_Use p (\<lambda>a.
       bind (load a) (\<lambda>b.
       bind (alloc b) (\<lambda>buf.
       sb_New X buf)))"

text \<open>The finalizer: \<open>_ = sb.Destroy()\<close>.\<close>

definition sb_finalize :: "environ \<Rightarrow> sbptr \<Rightarrow> unit io" where
  "sb_finalize X p = (\<lambda>w. (Inr (), snd (sb_Destroy X p w)))"

text \<open>Rendering is the same literal whatever the container holds.\<close>

definition sb_String :: "sbptr \<Rightarrow> string io" where
  "sb_String p = ret ''[redacted]''"

definition sb_LogValue :: "sbptr \<Rightarrow> string io" where
  "sb_LogValue p = ret ''[redacted]''"

definition sb_MarshalJSON :: "sbptr \<Rightarrow> string io" where
  "sb_MarshalJSON p = ret (CHR 0x22 # ''[redacted]'' @ [CHR 0x22])"

section \<open>The effect of the primitive actions\<close>

text \<open>
  Each lemma extends what has been left since an earlier world \<open>w\<close> by one action.
\<close>

lemma payload_cong:
  "wsbs w' = wsbs w \<Longrightarrow> (\<And>a. owned w a \<Longrightarrow> wmem w' ! a = wmem w ! a) \<Longrightarrow> payload w' i = payload w i"
  by (cases "i < length (wsbs w)"; cases "sbuf (wsbs w ! i)") (auto simp: payload_def owned_def)

lemma owned_cong: "wsbs w' = wsbs w \<Longrightarrow> owned w' a = owned w a"
  by (simp add: owned_def)

lemma owned_less: "wfw w \<Longrightarrow> owned w a \<Longrightarrow> a < length (wmem w)"
  by (auto simp: owned_def wfw_def)

lemma wfw_cong: "wfw w \<Longrightarrow> wsbs w' = wsbs w \<Longrightarrow> length (wmem w) \<le> length (wmem w') \<Longrightarrow> wfw w'"
  by (auto simp: wfw_def intro: order_less_le_trans)

text \<open>Only the fields memory, containers and log matter.\<close>

lemma leaves_same:
  assumes "leaves w w1 K D" and "wmem w2 = wmem w1" and "wsbs w2 = wsbs w1"
    and "\<exists>es. wlog w2 = es @ wlog w1" and "fakeCfg w2 = fakeCfg w1"
  shows "leaves w w2 K D"
proof -
  have "payload w2 i = payload w1 i" "owned w2 a = owned w1 a" for i a
    using assms by (simp_all add: payload_def owned_def)
  moreover have "wfw w2" using assms(1,2,3) leaves_wf wfw_cong by force
  moreover have "\<exists>es. wlog w2 = es @ wlog w"
    using assms(4) leaves_log [OF assms(1)] by auto
  ultimately show ?thesis using assms unfolding leaves_def by simp
qed

lemma leaves_alloc:
  assumes "leaves w w1 K D"
  shows "leaves w (w1\<lparr>wmem := wmem w1 @ [b]\<rparr>) K (insert (length (wmem w1)) D)"
    (is "leaves w ?w2 K _")
proof (rule leavesI)
  note wf1 = leaves_wf [OF assms] and len = leaves_lengths [OF assms]
  have own: "owned ?w2 a = owned w1 a" for a by (simp add: owned_def)
  have pay: "payload ?w2 i = payload w1 i" for i
    by (rule payload_cong) (auto dest: owned_less [OF wf1] simp: nth_append)
  show "wfw ?w2" by (rule wfw_cong [OF wf1]) auto
  show "length (wmem w) \<le> length (wmem ?w2)" "length (wsbs w) \<le> length (wsbs ?w2)"
    using len by simp_all
  show "\<exists>es. wlog ?w2 = es @ wlog w" using leaves_log [OF assms] by simp
  show "fakeCfg ?w2 = fakeCfg w" using leaves_fakes [OF assms] by (simp add: fakeCfg_def)
  show "wmem ?w2 ! a = wmem w ! a" if "a < length (wmem w)" for a
    using that len leaves_old_mem [OF assms] by (simp add: nth_append)
  show "wsbs ?w2 ! i = wsbs w ! i" if "i < length (wsbs w)" for i
    using that leaves_old_sb [OF assms] by simp
  show "length (wmem w) \<le> a" if "length (wsbs w) \<le> i" "i < length (wsbs ?w2)"
    "sbuf (wsbs ?w2 ! i) = Some a" for i a
    using that leaves_newbuf [OF assms, of i a] by simp
  show "(i, v) \<in> K \<longleftrightarrow> length (wsbs w) \<le> i \<and> payload ?w2 i = Some v" for i v
    using leaves_K [OF assms] pay by simp
  show "wiped (wmem ?w2 ! a) \<or> owned ?w2 a \<or> a \<in> insert (length (wmem w1)) D"
    if "length (wmem w) \<le> a" "a < length (wmem ?w2)" for a
    using that leaves_mem [OF assms, of a] own by (auto simp: nth_append)
  show "length (wmem w) \<le> a \<and> a < length (wmem ?w2) \<and> \<not> owned ?w2 a"
    if "a \<in> insert (length (wmem w1)) D" for a
    using that len own owned_less [OF wf1, of a] leaves_dirty [OF assms, of a] by auto
qed

text \<open>Overwriting a raw buffer; wiping it takes it off the list.\<close>

lemma leaves_store:
  assumes "leaves w w1 K D" and a: "length (wmem w) \<le> a" "a < length (wmem w1)" "\<not> owned w1 a"
    and b: "wiped b \<or> a \<in> D"
  shows "leaves w (w1\<lparr>wmem := (wmem w1)[a := b]\<rparr>) K (if wiped b then D - {a} else D)"
    (is "leaves w ?w2 K ?D")
proof (rule leavesI)
  note wf1 = leaves_wf [OF assms(1)] and len = leaves_lengths [OF assms(1)]
  have own: "owned ?w2 c = owned w1 c" for c by (simp add: owned_def)
  have pay: "payload ?w2 i = payload w1 i" for i
    by (rule payload_cong) (use a in \<open>auto simp: nth_list_update\<close>)
  show "wfw ?w2" by (rule wfw_cong [OF wf1]) auto
  show "length (wmem w) \<le> length (wmem ?w2)" "length (wsbs w) \<le> length (wsbs ?w2)"
    using len by simp_all
  show "\<exists>es. wlog ?w2 = es @ wlog w" using leaves_log [OF assms(1)] by simp
  show "fakeCfg ?w2 = fakeCfg w" using leaves_fakes [OF assms(1)] by (simp add: fakeCfg_def)
  show "wmem ?w2 ! c = wmem w ! c" if "c < length (wmem w)" for c
    using that a leaves_old_mem [OF assms(1) that] by (simp add: nth_list_update)
  show "wsbs ?w2 ! i = wsbs w ! i" if "i < length (wsbs w)" for i
    using that leaves_old_sb [OF assms(1)] by simp
  show "length (wmem w) \<le> c" if "length (wsbs w) \<le> i" "i < length (wsbs ?w2)"
    "sbuf (wsbs ?w2 ! i) = Some c" for i c
    using that leaves_newbuf [OF assms(1), of i c] by simp
  show "(i, v) \<in> K \<longleftrightarrow> length (wsbs w) \<le> i \<and> payload ?w2 i = Some v" for i v
    using leaves_K [OF assms(1)] pay by simp
  show "wiped (wmem ?w2 ! c) \<or> owned ?w2 c \<or> c \<in> ?D"
    if "length (wmem w) \<le> c" "c < length (wmem ?w2)" for c
    using that a b leaves_mem [OF assms(1), of c] own [of c] by (cases "c = a") auto
  show "length (wmem w) \<le> c \<and> c < length (wmem ?w2) \<and> \<not> owned ?w2 c" if "c \<in> ?D" for c
    using that own leaves_dirty [OF assms(1), of c] by (auto split: if_splits)
qed

lemma leaves_zero_new:
  "leaves w w1 K D \<Longrightarrow> length (wmem w) \<le> a \<Longrightarrow> a < length (wmem w1) \<Longrightarrow> \<not> owned w1 a \<Longrightarrow>
   leaves w (snd (zero a w1)) K (D - {a})"
  using leaves_store [of w w1 K D a "zeroed (wmem w1 ! a)"] by (simp add: zero_def modify_apply)

lemma leaves_zero:
  "leaves w w1 K D \<Longrightarrow> a \<in> D \<Longrightarrow> leaves w (snd (zero a w1)) K (D - {a})"
  by (rule leaves_zero_new) (auto dest: leaves_dirty)

text \<open>A raw buffer becomes the storage of a container.\<close>

lemma leaves_newSB:
  assumes "wfw w" and "leaves w w1 K D" and a: "a \<in> D"
  shows "leaves w (w1\<lparr>wsbs := wsbs w1 @ [\<lparr>sbuf = Some a, sdestroyed = False\<rparr>]\<rparr>)
    (insert (length (wsbs w1), wmem w1 ! a) K) (D - {a})"
    (is "leaves w ?w2 ?K _")
proof (rule leavesI)
  note wf1 = leaves_wf [OF assms(2)] and len = leaves_lengths [OF assms(2)]
    and da = leaves_dirty [OF assms(2) a]
  have own: "owned ?w2 c \<longleftrightarrow> owned w1 c \<or> c = a" for c
    by (simp add: owned_def Ex_less_Suc nth_append cong: conj_cong) auto
  have pay: "payload ?w2 i = (if i = length (wsbs w1) then Some (wmem w1 ! a) else payload w1 i)" for i
    by (auto simp: payload_def nth_append less_Suc_eq)
  show "wfw ?w2" using wf1 da by (auto simp: wfw_def nth_append less_Suc_eq owned_def)
  show "length (wmem w) \<le> length (wmem ?w2)" "length (wsbs w) \<le> length (wsbs ?w2)"
    using len by simp_all
  show "\<exists>es. wlog ?w2 = es @ wlog w" using leaves_log [OF assms(2)] by simp
  show "fakeCfg ?w2 = fakeCfg w" using leaves_fakes [OF assms(2)] by (simp add: fakeCfg_def)
  show "wmem ?w2 ! c = wmem w ! c" if "c < length (wmem w)" for c
    using leaves_old_mem [OF assms(2) that] by simp
  show "wsbs ?w2 ! i = wsbs w ! i" if "i < length (wsbs w)" for i
    using that len leaves_old_sb [OF assms(2)] by (simp add: nth_append)
  show "length (wmem w) \<le> c" if "length (wsbs w) \<le> i" "i < length (wsbs ?w2)"
    "sbuf (wsbs ?w2 ! i) = Some c" for i c
    using that da leaves_newbuf [OF assms(2), of i c]
    by (auto simp: nth_append less_Suc_eq split: if_splits)
  show "(i, v) \<in> ?K \<longleftrightarrow> length (wsbs w) \<le> i \<and> payload ?w2 i = Some v" for i v
    using len leaves_K [OF assms(2), of i v] pay payload_Some_less [of w1 "length (wsbs w1)" v]
    by auto
  show "wiped (wmem ?w2 ! c) \<or> owned ?w2 c \<or> c \<in> D - {a}"
    if "length (wmem w) \<le> c" "c < length (wmem ?w2)" for c
    using that own leaves_mem [OF assms(2), of c] by auto
  show "length (wmem w) \<le> c \<and> c < length (wmem ?w2) \<and> \<not> owned ?w2 c" if "c \<in> D - {a}" for c
    using that own leaves_dirty [OF assms(2), of c] by auto
qed

lemma wfw_destroyed:
  assumes "wfw w"
  shows "wfw (w\<lparr>wsbs := (wsbs w)[i := \<lparr>sbuf = None, sdestroyed = True\<rparr>]\<rparr>)"
proof (cases "i < length (wsbs w)")
  case True
  have *: "sbuf ((wsbs w)[i := \<lparr>sbuf = None, sdestroyed = True\<rparr>] ! j) =
      (if j = i then None else sbuf (wsbs w ! j))"
    "sdestroyed ((wsbs w)[i := \<lparr>sbuf = None, sdestroyed = True\<rparr>] ! j) =
      (j = i \<or> sdestroyed (wsbs w ! j))" for j
    using True by (auto simp: nth_list_update)
  show ?thesis using assms by (simp add: wfw_def *)
next
  case False
  with assms show ?thesis by (simp add: list_update_beyond)
qed

text \<open>A container created since, wiped and marked destroyed.\<close>

lemma leaves_destroy:
  assumes "leaves w w1 K D" and K: "(i, v) \<in> K" and buf: "sbuf (wsbs w1 ! i) = Some a"
  shows "leaves w (w1\<lparr>wmem := (wmem w1)[a := zeroed (wmem w1 ! a)],
      wsbs := (wsbs w1)[i := \<lparr>sbuf = None, sdestroyed = True\<rparr>]\<rparr>) (K - {(i, v)}) D"
    (is "leaves w ?w2 ?K _")
proof (rule leavesI)
  note wf1 = leaves_wf [OF assms(1)] and len = leaves_lengths [OF assms(1)]
  have i: "length (wsbs w) \<le> i" "payload w1 i = Some v" "i < length (wsbs w1)"
    using K leaves_K [OF assms(1)] payload_Some_less by auto
  have a: "length (wmem w) \<le> a" "a < length (wmem w1)"
    using leaves_newbuf [OF assms(1) i(1,3) buf] wf1 i(3) buf by (auto simp: wfw_def)
  have uniq: "j = i" if "j < length (wsbs w1)" "sbuf (wsbs w1 ! j) = Some a" for j
    using that wf1 i(3) buf by (auto simp: wfw_def)
  have own: "owned ?w2 c \<longleftrightarrow> owned w1 c \<and> c \<noteq> a" for c
  proof
    assume "owned ?w2 c"
    then obtain j where j: "j < length (wsbs w1)" "sbuf (wsbs ?w2 ! j) = Some c"
      by (auto simp: owned_def)
    then have "j \<noteq> i" using i(3) by auto
    with j uniq [of j] show "owned w1 c \<and> c \<noteq> a" by (auto simp: owned_def)
  next
    assume "owned w1 c \<and> c \<noteq> a"
    then obtain j where j: "j < length (wsbs w1)" "sbuf (wsbs w1 ! j) = Some c" "c \<noteq> a"
      by (auto simp: owned_def)
    then have "j \<noteq> i" using buf by auto
    with j show "owned ?w2 c" by (auto simp: owned_def intro!: exI [of _ j])
  qed
  have pay: "payload ?w2 j = (if j = i then None else payload w1 j)" for j
  proof (cases "j = i \<or> \<not> j < length (wsbs w1)")
    case True
    then show ?thesis using i(3) by (auto simp: payload_def)
  next
    case False
    with uniq [of j] have "sbuf (wsbs w1 ! j) \<noteq> Some a" by blast
    with False show ?thesis by (cases "sbuf (wsbs w1 ! j)") (auto simp: payload_def)
  qed
  show "wfw ?w2" using wfw_destroyed [OF wf1, of i] by (simp add: wfw_def)
  show "length (wmem w) \<le> length (wmem ?w2)" "length (wsbs w) \<le> length (wsbs ?w2)"
    using len by simp_all
  show "\<exists>es. wlog ?w2 = es @ wlog w" using leaves_log [OF assms(1)] by simp
  show "fakeCfg ?w2 = fakeCfg w" using leaves_fakes [OF assms(1)] by (simp add: fakeCfg_def)
  show "wmem ?w2 ! c = wmem w ! c" if "c < length (wmem w)" for c
    using that a leaves_old_mem [OF assms(1) that] by (simp add: nth_list_update)
  show "wsbs ?w2 ! j = wsbs w ! j" if "j < length (wsbs w)" for j
    using that i leaves_old_sb [OF assms(1)] by (simp add: nth_list_update)
  show "length (wmem w) \<le> c" if "length (wsbs w) \<le> j" "j < length (wsbs ?w2)"
    "sbuf (wsbs ?w2 ! j) = Some c" for j c
    using that i(3) leaves_newbuf [OF assms(1), of j c] by (cases "j = i") auto
  show "(j, u) \<in> ?K \<longleftrightarrow> length (wsbs w) \<le> j \<and> payload ?w2 j = Some u" for j u
    using leaves_K [OF assms(1), of j u] pay i by auto
  show "wiped (wmem ?w2 ! c) \<or> owned ?w2 c \<or> c \<in> D"
    if "length (wmem w) \<le> c" "c < length (wmem ?w2)" for c
    using that a own [of c] leaves_mem [OF assms(1), of c] by (cases "c = a") auto
  show "length (wmem w) \<le> c \<and> c < length (wmem ?w2) \<and> \<not> owned ?w2 c" if "c \<in> D" for c
    using that own [of c] leaves_dirty [OF assms(1), of c] by simp
qed

section \<open>The effect of the operations\<close>

text \<open>
  The errors the operating system, the random source and the contexts can give: none of them
  is a sentinel of the module.
\<close>

definition faults :: "environ \<Rightarrow> gerror set" where
  "faults X = {[External c] | c. (\<exists>h n. x_mlock X h n = Some c) \<or> (\<exists>h. x_rand X h = Inl c) \<or>
     (\<exists>t h. x_ctxErr X t h = Some c)}"

lemma faults_External: "e \<in> faults X \<Longrightarrow> \<exists>c. e = [External c]"
  by (auto simp: faults_def)

lemma raiseOnce_run:
  assumes "raiseOnce X w = (r, w')"
  shows "r = Inr () \<and> wmem w' = wmem w \<and> wsbs w' = wsbs w \<and> (\<exists>es. wlog w' = es @ wlog w) \<and> wfakes w' = wfakes w"
  using assms by (auto simp: raiseOnce_def raiseMemlockLimit_def Let_def split: if_splits option.splits)

lemma mlock_run:
  assumes "mlock X a w = (r, w')"
  shows "(\<forall>e. r = Inl e \<longrightarrow> e \<in> faults X) \<and> wmem w' = wmem w \<and> wsbs w' = wsbs w \<and>
    (\<exists>es. wlog w' = es @ wlog w) \<and> wfakes w' = wfakes w"
  using assms by (auto simp: mlock_def Let_def faults_def split: if_splits option.splits)

lemma munlock_run:
  assumes "munlock X a w = (r, w')"
  shows "wmem w' = wmem w \<and> wsbs w' = wsbs w \<and> (\<exists>es. wlog w' = es @ wlog w) \<and> wfakes w' = wfakes w"
  using assms by (auto simp: munlock_def Let_def split: if_splits option.splits)

lemma raiseOnce_leaves:
  "leaves w w1 K D \<Longrightarrow> raiseOnce X w1 = (r, w2) \<Longrightarrow> leaves w w2 K D"
  by (drule raiseOnce_run) (auto simp: fakeCfg_def elim: leaves_same)

lemma mlock_leaves:
  "leaves w w1 K D \<Longrightarrow> mlock X a w1 = (r, w2) \<Longrightarrow> leaves w w2 K D"
  by (drule mlock_run) (auto simp: fakeCfg_def elim: leaves_same)

lemma ctxCheck_leaves:
  "leaves w w1 K D \<Longrightarrow> ctxCheck X c w1 = (r, w2) \<Longrightarrow>
   leaves w w2 K D \<and> wmem w2 = wmem w1 \<and> wsbs w2 = wsbs w1 \<and> (\<forall>e. r = Inl e \<longrightarrow> e \<in> faults X)"
  by (auto simp: ctxCheck_def Let_def faults_def fakeCfg_def intro: leaves_same split: option.splits)

text \<open>
  \<open>New\<close> on a raw buffer: on success a fresh container holds the buffer's contents and the
  buffer is wiped; on a lock failure the buffer is left as it was and the copy is wiped.
\<close>

lemma sb_New_leaves:
  assumes w: "wfw w" and 1: "leaves w w1 K D" and b: "b \<in> D" and run: "sb_New X b w1 = (r, w2)"
  shows "case r of
      Inl e \<Rightarrow> e \<in> faults X \<and> leaves w w2 K D \<and> wmem w2 ! b = wmem w1 ! b
    | Inr p \<Rightarrow> p = Some (length (wsbs w1)) \<and>
        leaves w w2 (insert (length (wsbs w1), wmem w1 ! b) K) (D - {b}) \<and>
        b < length (wmem w2) \<and> \<not> owned w2 b"
proof -
  obtain s u where su: "raiseOnce X w1 = (s, u)" by fastforce
  note ur = raiseOnce_run [OF su]
  then have u: "raiseOnce X w1 = (Inr (), u)" using su by simp
  from run have run: "bind (load b) (\<lambda>bs. bind (alloc bs) (\<lambda>buf.
      bind (onError (zero buf) (mlock X buf)) (\<lambda>_. bind (zero b) (\<lambda>_. newSB buf)))) u = (r, w2)"
    unfolding sb_New_def by (simp add: bind_Inr [of "raiseOnce X", OF u])
  have lu: "leaves w u K D" by (rule raiseOnce_leaves [OF 1 u])
  let ?buf = "length (wmem u)"
  let ?v = "u\<lparr>wmem := wmem u @ [wmem u ! b]\<rparr>"
  have lv: "leaves w ?v K (insert ?buf D)" by (rule leaves_alloc [OF lu])
  have bu: "b < ?buf" using leaves_dirty [OF lu b] by simp
  obtain q x where m: "mlock X ?buf ?v = (q, x)" by fastforce
  have lx: "leaves w x K (insert ?buf D)" by (rule mlock_leaves [OF lv m])
  note mr = mlock_run [OF m]
  from run have run': "bind (onError (zero ?buf) (mlock X ?buf)) (\<lambda>_. bind (zero b) (\<lambda>_. newSB ?buf)) ?v = (r, w2)"
    by (simp add: bind_Inr load_def gets_apply alloc_def)
  show ?thesis
  proof (cases q)
    case (Inl e)
    with run' m have r: "r = Inl e" "w2 = snd (zero ?buf x)"
      using faults_External [of e X] mr by (auto simp: bind_def onError_def)
    have "leaves w w2 K D"
      using leaves_zero [OF lx, of ?buf] r bu leaves_dirty [OF lu, of ?buf] by force
    moreover have "wmem w2 ! b = wmem w1 ! b"
      using r mr bu ur by (auto simp: zero_def modify_apply nth_append)
    ultimately show ?thesis using r mr Inl by simp
  next
    case (Inr z)
    let ?y = "snd (zero b x)"
    have ly: "leaves w ?y K (insert ?buf D - {b})"
      by (rule leaves_zero [OF lx]) (use b in simp)
    have y: "wsbs ?y = wsbs w1" "wmem ?y ! ?buf = wmem w1 ! b"
      using mr ur bu by (auto simp: zero_def modify_apply nth_append)
    from run' m Inr have r: "r = Inr (Some (length (wsbs w1)))"
      "w2 = ?y\<lparr>wsbs := wsbs ?y @ [\<lparr>sbuf = Some ?buf, sdestroyed = False\<rparr>]\<rparr>"
      using y by (auto simp: bind_def onError_def zero_def modify_apply newSB_def)
    have "?buf \<noteq> b" "?buf \<notin> D" using bu leaves_dirty [OF lu, of ?buf] by auto
    then have "insert ?buf D - {b} - {?buf} = D - {b}" by auto
    moreover have "b < length (wmem w2) \<and> \<not> owned w2 b"
    proof -
      have "\<not> owned x b" "b < length (wmem x)" using leaves_dirty [OF lx, of b] b by auto
      with r \<open>?buf \<noteq> b\<close> show ?thesis
        by (auto simp: owned_def zero_def modify_apply nth_append less_Suc_eq)
    qed
    ultimately show ?thesis
      using leaves_newSB [OF w ly, of ?buf] r y \<open>?buf \<noteq> b\<close> by simp
  qed
qed

text \<open>\<open>Destroy\<close> of a container created since: it is gone and its storage is wiped.\<close>

lemma sb_Destroy_leaves:
  assumes 1: "leaves w w1 K D" and K: "(i, v) \<in> K"
  shows "leaves w (snd (sb_Destroy X (Some i) w1)) (K - {(i, v)}) D"
proof -
  note wf1 = leaves_wf [OF 1]
  have i: "payload w1 i = Some v" "i < length (wsbs w1)"
    using K leaves_K [OF 1] payload_Some_less by auto
  then obtain a where a: "sbuf (wsbs w1 ! i) = Some a"
    by (auto simp: payload_def split: if_splits)
  with wf1 i have nd: "\<not> sdestroyed (wsbs w1 ! i)" by (auto simp: wfw_def)
  let ?z = "snd (zero a w1)"
  obtain q x where m: "munlock X a ?z = (q, x)" by fastforce
  note mr = munlock_run [OF m]
  have run: "snd (sb_Destroy X (Some i) w1) =
      x\<lparr>wsbs := (wsbs x)[i := \<lparr>sbuf = None, sdestroyed = True\<rparr>]\<rparr>"
    using i(2) nd a m by (simp add: sb_Destroy_def sbAt_def bind_def zero_def modify_apply)
  show ?thesis
    unfolding run
    by (rule leaves_same [OF leaves_destroy [OF 1 K a]])
      (use mr in \<open>auto simp: zero_def modify_apply fakeCfg_def\<close>)
qed

lemma sb_Destroy_wfw: "wfw w \<Longrightarrow> wfw (snd (sb_Destroy X p w))"
proof (cases p)
  case (Some i)
  assume w: "wfw w"
  let ?a = "the (sbuf (sbAt w i))"
  obtain q x where m: "munlock X ?a (snd (zero ?a w)) = (q, x)" by fastforce
  have "wfw x" using munlock_run [OF m] by (intro wfw_cong [OF w]) (auto simp: zero_def modify_apply)
  then have "wfw (x\<lparr>wsbs := (wsbs x)[i := \<lparr>sbuf = None, sdestroyed = True\<rparr>]\<rparr>)"
    by (rule wfw_destroyed)
  with w Some m show ?thesis
    by (auto simp: sb_Destroy_def bind_def zero_def modify_apply split: prod.splits)
qed (simp add: sb_Destroy_def)


section \<open>Borrowed access\<close>

text \<open>What \<open>Use\<close> hands to its callback, or the error it gives instead.\<close>

definition contents :: "world \<Rightarrow> sbptr \<Rightarrow> gerror + bytes" where
  "contents w p =
     (case p of
        None \<Rightarrow> Inl [GoPanic]
      | Some i \<Rightarrow> (case payload w i of None \<Rightarrow> Inl [ErrDestroyed] | Some v \<Rightarrow> Inr v))"

lemma sbAt_payload:
  assumes "wfw w"
  shows "sdestroyed (sbAt w i) \<longleftrightarrow> payload w i = None"
    and "payload w i = Some v \<Longrightarrow> \<exists>a. sbuf (sbAt w i) = Some a \<and> a < length (wmem w) \<and>
      owned w a \<and> wmem w ! a = v"
proof -
  show "sdestroyed (sbAt w i) \<longleftrightarrow> payload w i = None"
    using assms by (simp add: sbAt_def payload_def wfw_def)
  assume "payload w i = Some v"
  then obtain a where "i < length (wsbs w)" "sbuf (wsbs w ! i) = Some a" "wmem w ! a = v"
    by (auto simp: payload_def split: if_splits)
  with assms show "\<exists>a. sbuf (sbAt w i) = Some a \<and> a < length (wmem w) \<and> owned w a \<and> wmem w ! a = v"
    by (auto simp: sbAt_def wfw_def owned_def)
qed

lemma sb_Use_error: "wfw w \<Longrightarrow> contents w p = Inl e \<Longrightarrow> sb_Use p f w = (Inl e, w)"
  by (auto simp: contents_def sb_Use_def sbAt_payload split: option.splits)

lemma sb_Use_ok:
  assumes "wfw w" and "contents w p = Inr v"
  obtains i a where "p = Some i" and "payload w i = Some v" and "sbuf (sbAt w i) = Some a"
    and "a < length (wmem w)" and "owned w a" and "wmem w ! a = v" and "\<And>f. sb_Use p f w = f a w"
proof -
  from assms(2) obtain i where i: "p = Some i" "payload w i = Some v"
    by (auto simp: contents_def split: option.splits)
  with sbAt_payload [OF assms(1), of i] show thesis
    by (auto simp: sb_Use_def intro!: that [of i])
qed

text \<open>Reading a container's contents, the common use.\<close>

definition sb_Read :: "sbptr \<Rightarrow> (bytes \<Rightarrow> 'a io) \<Rightarrow> 'a io" where
  "sb_Read p f = sb_Use p (\<lambda>a. bind (load a) f)"

lemma sb_Read_run:
  "wfw w \<Longrightarrow> sb_Read p f w = (case contents w p of Inl e \<Rightarrow> (Inl e, w) | Inr v \<Rightarrow> f v w)"
  by (cases "contents w p")
    (auto simp: sb_Read_def sb_Use_error bind_def load_def gets_apply elim!: sb_Use_ok)

lemma sb_Len_run:
  "wfw w \<Longrightarrow> p \<noteq> None \<Longrightarrow>
   sb_Len p w = (Inr (case contents w p of Inl _ \<Rightarrow> 0 | Inr v \<Rightarrow> length v), w)"
  using sbAt_payload [of w "the p"] by (auto simp: sb_Len_def contents_def split: option.splits)

lemma contents_leaves:
  "wfw w \<Longrightarrow> leaves w w' K D \<Longrightarrow> contents w p = Inr v \<Longrightarrow> contents w' p = Inr v"
  by (auto simp: contents_def leaves_payload_Some split: option.splits)

lemma contents_new: "leaves w w' K D \<Longrightarrow> (i, v) \<in> K \<Longrightarrow> contents w' (Some i) = Inr v"
  by (simp add: contents_def leaves_new_payload)

section \<open>Zeroed containers, filled in place\<close>

lemma leaves_drop_wiped:
  "leaves w w1 K D \<Longrightarrow> wiped (wmem w1 ! a) \<Longrightarrow> leaves w w1 K (D - {a})"
  unfolding leaves_def by auto

lemma sb_NewZero_leaves:
  assumes w: "wfw w" and 1: "leaves w w1 K D" and run: "sb_NewZero X (int n) w1 = (r, w2)"
  shows "case r of
      Inl e \<Rightarrow> e \<in> faults X \<and> leaves w w2 K D
    | Inr p \<Rightarrow> p = Some (length (wsbs w1)) \<and>
        leaves w w2 (insert (length (wsbs w1), replicate n 0) K) D"
proof -
  obtain s u where su: "raiseOnce X w1 = (s, u)" by fastforce
  note ur = raiseOnce_run [OF su]
  then have u: "raiseOnce X w1 = (Inr (), u)" using su by simp
  have lu: "leaves w u K D" by (rule raiseOnce_leaves [OF 1 su])
  let ?buf = "length (wmem u)"
  let ?v = "u\<lparr>wmem := wmem u @ [replicate n 0]\<rparr>"
  have lv: "leaves w ?v K (insert ?buf D)" by (rule leaves_alloc [OF lu])
  obtain q x where m: "mlock X ?buf ?v = (q, x)" by fastforce
  have lx: "leaves w x K (insert ?buf D)" by (rule mlock_leaves [OF lv m])
  note mr = mlock_run [OF m]
  from run m have run': "bind (mlock X ?buf) (\<lambda>_. newSB ?buf) ?v = (r, w2)"
    by (simp add: sb_NewZero_def bind_Inr [of "raiseOnce X", OF u] alloc_def bind_Inr)
  have D: "insert ?buf D - {?buf} = D" using leaves_dirty [OF lu, of ?buf] by auto
  show ?thesis
  proof (cases q)
    case (Inl e)
    with run' m have "r = Inl e" "w2 = x" by (auto simp: bind_def)
    moreover have "wiped (wmem x ! ?buf)" using mr by (simp add: wiped_def)
    ultimately show ?thesis using mr Inl leaves_drop_wiped [OF lx, of ?buf] D by auto
  next
    case (Inr z)
    with run' m mr have "r = Inr (Some (length (wsbs w1)))"
      "w2 = x\<lparr>wsbs := wsbs x @ [\<lparr>sbuf = Some ?buf, sdestroyed = False\<rparr>]\<rparr>" "length (wsbs x) = length (wsbs w1)"
      using ur by (auto simp: bind_def newSB_def)
    then show ?thesis
      using leaves_newSB [OF w lx, of ?buf] D mr by simp
  qed
qed

lemma leaves_fill:
  assumes "leaves w w1 K D" and K: "(i, v) \<in> K" and buf: "sbuf (wsbs w1 ! i) = Some a"
  shows "leaves w (w1\<lparr>wmem := (wmem w1)[a := b]\<rparr>) (insert (i, b) (K - {(i, v)})) D"
    (is "leaves w ?w2 ?K _")
proof (rule leavesI)
  note wf1 = leaves_wf [OF assms(1)] and len = leaves_lengths [OF assms(1)]
  have i: "length (wsbs w) \<le> i" "payload w1 i = Some v" "i < length (wsbs w1)"
    using K leaves_K [OF assms(1)] payload_Some_less by auto
  have a: "length (wmem w) \<le> a" "a < length (wmem w1)"
    using leaves_newbuf [OF assms(1) i(1,3) buf] wf1 i(3) buf by (auto simp: wfw_def)
  have uniq: "j = i" if "j < length (wsbs w1)" "sbuf (wsbs w1 ! j) = Some a" for j
    using that wf1 i(3) buf by (auto simp: wfw_def)
  have own: "owned ?w2 c = owned w1 c" for c by (simp add: owned_def)
  have oa: "owned w1 a" using i(3) buf by (auto simp: owned_def)
  have pay: "payload ?w2 j = (if j = i then Some b else payload w1 j)" for j
  proof (cases "j = i \<or> \<not> j < length (wsbs w1)")
    case True
    then show ?thesis using i(3) a buf by (auto simp: payload_def)
  next
    case False
    with uniq [of j] have "sbuf (wsbs w1 ! j) \<noteq> Some a" by blast
    with False show ?thesis by (cases "sbuf (wsbs w1 ! j)") (auto simp: payload_def)
  qed
  show "wfw ?w2" by (rule wfw_cong [OF wf1]) auto
  show "length (wmem w) \<le> length (wmem ?w2)" "length (wsbs w) \<le> length (wsbs ?w2)"
    using len by simp_all
  show "\<exists>es. wlog ?w2 = es @ wlog w" using leaves_log [OF assms(1)] by simp
  show "fakeCfg ?w2 = fakeCfg w" using leaves_fakes [OF assms(1)] by (simp add: fakeCfg_def)
  show "wmem ?w2 ! c = wmem w ! c" if "c < length (wmem w)" for c
    using that a leaves_old_mem [OF assms(1) that] by (simp add: nth_list_update)
  show "wsbs ?w2 ! j = wsbs w ! j" if "j < length (wsbs w)" for j
    using that leaves_old_sb [OF assms(1)] by simp
  show "length (wmem w) \<le> c" if "length (wsbs w) \<le> j" "j < length (wsbs ?w2)"
    "sbuf (wsbs ?w2 ! j) = Some c" for j c
    using that leaves_newbuf [OF assms(1), of j c] by simp
  show "(j, u) \<in> ?K \<longleftrightarrow> length (wsbs w) \<le> j \<and> payload ?w2 j = Some u" for j u
    using leaves_K [OF assms(1), of j u] pay i by auto
  show "wiped (wmem ?w2 ! c) \<or> owned ?w2 c \<or> c \<in> D"
    if "length (wmem w) \<le> c" "c < length (wmem ?w2)" for c
    using that oa own [of c] leaves_mem [OF assms(1), of c] by (cases "c = a") auto
  show "length (wmem w) \<le> c \<and> c < length (wmem ?w2) \<and> \<not> owned ?w2 c" if "c \<in> D" for c
    using that own [of c] leaves_dirty [OF assms(1), of c] by simp
qed

section \<open>Properties\<close>

text \<open>The fixtures' containers and faults.\<close>

lemma demoW_contents [simp]:
  "contents demoW (Some 0) = Inr demoPassword"
  "contents demoW (Some (Suc 0)) = Inr demoDEK"
  "contents demoW (Some 2) = Inr demoCode"
  "contents demoW (Some 3) = Inl [ErrDestroyed]"
  by (simp_all add: contents_def payload_def demoW_def)

lemma demoX_faults [simp]: "faults demoX = {}"
  by (simp add: faults_def demoX_def)

lemma lockedX_faults: "faults lockedX = {[External 12]}"
  by (auto simp: faults_def lockedX_def demoX_def)

lemma mlock_world:
  "\<exists>r es. mlock X a w = (r, w\<lparr>wlog := es\<rparr>) \<and> (\<forall>e. r = Inl e \<longrightarrow> e \<in> faults X)"
proof (cases "x_unix X \<and> length (wmem w ! a) \<noteq> 0")
  case True
  then show ?thesis
    by (intro exI [of _ "fst (mlock X a w)"] exI [of _ "EvMlock (length (wmem w ! a)) # wlog w"])
      (auto simp: mlock_def Let_def faults_def split: option.splits)
next
  case False
  then show ?thesis
    by (intro exI [of _ "Inr ()"] exI [of _ "wlog w"]) (auto simp: mlock_def Let_def)
qed

lemma raiseOnce_world: "\<exists>es. raiseOnce X w = (Inr (), w\<lparr>wraised := True, wlog := es\<rparr>)"
  by (intro exI [of _ "wlog (snd (raiseOnce X w))"])
    (cases w, auto simp: raiseOnce_def raiseMemlockLimit_def Let_def split: option.splits)

lemma owned_iff: "owned w a \<longleftrightarrow> Some a \<in> sbuf ` set (wsbs w)"
  unfolding owned_def image_iff by (metis in_set_conv_nth)

text \<open>The storage and the containers after \<open>New\<close> and after \<open>Destroy\<close>.\<close>

lemma sb_New_run:
  fixes X :: environ and a :: addr and w :: world
  shows
  "case sb_New X a w of
      (Inl e, w') \<Rightarrow> e \<in> faults X \<and> wsbs w' = wsbs w \<and>
        wmem w' = wmem w @ [zeroed (wmem w ! a)]
    | (Inr p, w') \<Rightarrow> p = Some (length (wsbs w)) \<and>
        wsbs w' = wsbs w @ [\<lparr>sbuf = Some (length (wmem w)), sdestroyed = False\<rparr>] \<and>
        (a < length (wmem w) \<longrightarrow> wmem w' = (wmem w)[a := zeroed (wmem w ! a)] @ [wmem w ! a])"
proof -
  obtain es where u: "raiseOnce X w = (Inr (), w\<lparr>wraised := True, wlog := es\<rparr>)"
    using raiseOnce_world by blast
  let ?u = "w\<lparr>wraised := True, wlog := es\<rparr>" and ?n = "length (wmem w)"
  let ?v = "?u\<lparr>wmem := wmem w @ [wmem w ! a]\<rparr>"
  obtain r fs where m: "mlock X ?n ?v = (r, ?v\<lparr>wlog := fs\<rparr>)" and r: "\<forall>e. r = Inl e \<longrightarrow> e \<in> faults X"
    using mlock_world by blast
  have run: "sb_New X a w = bind (onError (zero ?n) (mlock X ?n)) (\<lambda>_. bind (zero a) (\<lambda>_. newSB ?n)) ?v"
    by (simp add: sb_New_def bind_Inr [of "raiseOnce X", OF u] bind_Inr load_def gets_apply alloc_def)
  show ?thesis
  proof (cases r)
    case (Inl e)
    then show ?thesis
      unfolding run using m r faults_External [of e X]
      by (auto simp: bind_def onError_def zero_def modify_apply)
  next
    case (Inr z)
    have "?v\<lparr>wlog := fs\<rparr> = w\<lparr>wraised := True, wlog := fs, wmem := wmem w @ [wmem w ! a]\<rparr>" by simp
    with Inr m show ?thesis
      unfolding run
      by (auto simp: bind_def onError_def zero_def modify_apply newSB_def nth_append list_update_append)
  qed
qed

lemma sb_Destroy_run:
  assumes w: "wfw w" and i: "i < length (wsbs w)" and buf: "sbuf (wsbs w ! i) = Some a"
  shows "let w' = snd (sb_Destroy X (Some i) w) in
    wmem w' = (wmem w)[a := zeroed (wmem w ! a)] \<and>
    wsbs w' = (wsbs w)[i := \<lparr>sbuf = None, sdestroyed = True\<rparr>]"
proof -
  have a: "a < length (wmem w)" "\<not> sdestroyed (wsbs w ! i)"
    using w buf i by (auto simp: wfw_def)
  obtain q x where m: "munlock X a (snd (zero a w)) = (q, x)" by fastforce
  have "snd (sb_Destroy X (Some i) w) = x\<lparr>wsbs := (wsbs x)[i := \<lparr>sbuf = None, sdestroyed = True\<rparr>]\<rparr>"
    using i a buf m by (simp add: sb_Destroy_def sbAt_def bind_def zero_def modify_apply)
  then show ?thesis using munlock_run [OF m] a by (simp add: zero_def modify_apply)
qed

lemma sb_Destroy_skip:
  "wfw w \<Longrightarrow> p = None \<or> (\<exists>i. p = Some i \<and> sbuf (sbAt w i) = None) \<Longrightarrow> snd (sb_Destroy X p w) = w"
  by (auto simp: sb_Destroy_def sbAt_def wfw_def split: option.splits)

text \<open>
  C18. \<open>New\<close> moves the secret: on success the caller's slice is wiped and the only new slice is
  the container's, which holds the bytes; if the memory cannot be locked, the caller's slice is as
  it was, there is no container, and the copy that was made is wiped. No other slice or container
  changes.
\<close>

theorem New_moves_secret:
  assumes a: "a < length (wmem w)" and "wfw w" and "\<not> owned w a"
  shows "case sb_New X a w of
      (Inl e, w') \<Rightarrow> e \<in> faults X \<and> wsbs w' = wsbs w \<and>
        wmem w' = wmem w @ [zeroed (wmem w ! a)]
    | (Inr p, w') \<Rightarrow> p = Some (length (wsbs w)) \<and> contents w' p = Inr (wmem w ! a) \<and>
        wmem w' = (wmem w)[a := zeroed (wmem w ! a)] @ [wmem w ! a] \<and>
        (\<forall>i < length (wsbs w). contents w' (Some i) = contents w (Some i))"
proof -
  have other: "\<forall>i < length (wsbs w). sbuf (wsbs w ! i) \<noteq> Some a \<and> sbuf (wsbs w ! i) \<noteq> Some (length (wmem w)) \<and>
      (\<forall>c. sbuf (wsbs w ! i) = Some c \<longrightarrow> c < length (wmem w))"
    using assms by (auto simp: owned_def wfw_def)
  with sb_New_run [where X = X and a = a and w = w] a show ?thesis
    by (auto simp: contents_def payload_def nth_append nth_list_update split: prod.splits sum.splits option.splits)
qed

theorem New_moves_secret_witness:
  "(case sb_New demoX 4 demoW of (Inr p, w') \<Rightarrow> contents w' p = Inr [7, 7, 7] \<and> wmem w' ! 4 = [0, 0, 0]
    | _ \<Rightarrow> False) \<and>
   (case sb_New lockedX 4 demoW of (Inl e, w') \<Rightarrow> wmem w' ! 4 = [7, 7, 7] \<and> wmem w' ! 5 = [0, 0, 0]
    | _ \<Rightarrow> False)"
proof -
  have o: "4 < length (wmem demoW)" "\<not> owned demoW 4" "wmem demoW ! 4 = [7, 7, 7]" "length (wmem demoW) = 5"
    by (simp_all add: owned_iff demoW_def)
  have "isl (fst (sb_New lockedX 4 demoW))"
    by (simp add: sb_New_def go_simps bind_def raiseOnce_def raiseMemlockLimit_def demoW_def lockedX_def
        demoX_def load_def alloc_def onError_def mlock_def Let_def)
  with New_moves_secret [OF o(1) demoW_wfw o(2), of demoX] New_moves_secret [OF o(1) demoW_wfw o(2), of lockedX] o
  show ?thesis
    by (auto simp: zeroed_def nth_append split: prod.splits sum.splits)
qed

text \<open>
  C17. \<open>Destroy\<close> ends a secret: the container's buffer holds only zeros afterwards, also when
  \<open>munlock\<close> fails, nothing else changes, and from then on \<open>Use\<close> is refused without running its
  callback, \<open>Len\<close> is 0 and another \<open>Destroy\<close> does nothing.
\<close>

theorem Destroy_wipes:
  assumes w: "wfw w" and v: "payload w i = Some v" and buf: "sbuf (wsbs w ! i) = Some a"
  shows "let w' = snd (sb_Destroy X (Some i) w) in
    wmem w' = (wmem w)[a := replicate (length v) 0] \<and>
    (\<forall>p. contents w' p = (if p = Some i then Inl [ErrDestroyed] else contents w p)) \<and>
    sb_Use (Some i) f w' = (Inl [ErrDestroyed], w') \<and> sb_Len (Some i) w' = (Inr 0, w') \<and>
    sb_Destroy X (Some i) w' = (Inr (), w')"
proof -
  have i: "i < length (wsbs w)" using v payload_Some_less by auto
  have a: "a < length (wmem w)" "wmem w ! a = v" "\<not> sdestroyed (wsbs w ! i)"
    using w v buf i by (auto simp: wfw_def payload_def)
  have uniq: "j = i" if "j < length (wsbs w)" "sbuf (wsbs w ! j) = Some a" for j
    using that w i buf by (auto simp: wfw_def)
  define w' where "w' = snd (sb_Destroy X (Some i) w)"
  have mem: "wmem w' = (wmem w)[a := replicate (length v) 0]"
    and sbs: "wsbs w' = (wsbs w)[i := \<lparr>sbuf = None, sdestroyed = True\<rparr>]"
    using sb_Destroy_run [OF w i buf, of X] a
    by (simp_all add: w'_def Let_def zeroed_def map_replicate_const)
  have pay: "payload w' j = (if j = i then None else payload w j)" for j
  proof (cases "j = i \<or> \<not> j < length (wsbs w)")
    case True
    then show ?thesis using i by (auto simp: payload_def sbs)
  next
    case False
    with uniq [of j] have "sbuf (wsbs w ! j) \<noteq> Some a" by blast
    with False show ?thesis by (cases "sbuf (wsbs w ! j)") (auto simp: payload_def sbs mem)
  qed
  have "sbAt w' i = \<lparr>sbuf = None, sdestroyed = True\<rparr>" using i by (simp add: sbAt_def sbs)
  then show ?thesis
    unfolding w'_def [symmetric] Let_def
    by (auto simp: mem contents_def pay sb_Use_def sb_Len_def sb_Destroy_def split: option.splits)
qed

theorem Destroy_wipes_witness:
  "let w' = snd (sb_Destroy demoX (Some 0) demoW) in
    wmem w' ! 0 = replicate 13 0 \<and> contents w' (Some 0) = Inl [ErrDestroyed] \<and>
    contents w' (Some 1) = Inr demoDEK"
proof -
  have d: "payload demoW 0 = Some demoPassword" "sbuf (wsbs demoW ! 0) = Some 0" "wmem demoW \<noteq> []"
    by (simp_all add: payload_def demoW_def)
  show ?thesis
    using Destroy_wipes [OF demoW_wfw d(1,2), of demoX "\<lambda>_. ret ()"] d(3)
    by (simp add: Let_def)
qed

lemma sb_Clone_leaves:
  assumes w: "wfw w" and c: "contents w p = Inr v"
  shows "case sb_Clone X p w of
      (Inl e, w') \<Rightarrow> e \<in> faults X \<and> (\<exists>a. leaves w w' {} {a} \<and> wmem w' ! a = v)
    | (Inr q, w') \<Rightarrow> \<exists>j. q = Some j \<and> leaves w w' {(j, v)} {}"
proof -
  obtain a where a: "wmem w ! a = v" "\<And>f. (sb_Use p f :: sbptr io) w = f a w"
    by (rule sb_Use_ok [OF w c]) blast
  let ?n = "length (wmem w)" and ?w1 = "w\<lparr>wmem := wmem w @ [v]\<rparr>"
  have l: "leaves w ?w1 {} {?n}" using leaves_alloc [OF leaves_refl [OF w]] by simp
  have run: "sb_Clone X p w = sb_New X ?n ?w1"
    unfolding sb_Clone_def a(2) by (simp add: a(1) bind_Inr load_def gets_apply alloc_def)
  obtain r w2 where r: "sb_New X ?n ?w1 = (r, w2)" by fastforce
  from sb_New_leaves [OF w l _ r] show ?thesis
    unfolding run by (auto simp: r split: sum.splits)
qed

text \<open>
  C29. \<open>Clone\<close> gives an independent container with the same bytes and leaves everything else as it
  was; but when the operating system refuses to lock the new memory, exactly one slice outside
  every container, the unlocked intermediate copy, still holds the secret.
\<close>

theorem Clone_copies:
  assumes w: "wfw w" and c: "contents w p = Inr v"
  shows "case sb_Clone X p w of
      (Inl e, w') \<Rightarrow> e \<in> faults X \<and> (\<exists>a. leaves w w' {} {a} \<and> wmem w' ! a = v)
    | (Inr q, w') \<Rightarrow> \<exists>j. q = Some j \<and> leaves w w' {(j, v)} {}"
  by (rule sb_Clone_leaves [OF assms])

theorem Clone_copies_witness:
  "(case sb_Clone demoX (Some 1) demoW of (Inr q, w') \<Rightarrow> contents w' q = Inr demoDEK | _ \<Rightarrow> False) \<and>
   (case sb_Clone lockedX (Some 1) demoW of
      (Inl e, w') \<Rightarrow> \<exists>a. wmem w' ! a = demoDEK \<and> \<not> owned w' a | _ \<Rightarrow> False)"
proof -
  have c: "contents demoW (Some 1) = Inr demoDEK" by simp
  have "isl (fst (sb_Clone lockedX (Some 1) demoW))"
    by (simp add: sb_Clone_def sb_Use_def sbAt_def sb_New_def go_simps bind_def raiseOnce_def
        raiseMemlockLimit_def demoW_def lockedX_def demoX_def load_def alloc_def onError_def mlock_def
        Let_def demoDEK_def)
  with Clone_copies [OF demoW_wfw c, of demoX] Clone_copies [OF demoW_wfw c, of lockedX]
  show ?thesis
    by (auto simp: contents_def dest: leaves_new_payload leaves_dirty split: prod.splits sum.splits)
qed

end
