(* ===== verification/Contracts.thy ===== *)
theory Contracts
  imports Secure_Bytes
begin

text \<open>
  Contracts of memory actions, in the form the components state them: what an action leaves
  behind when it fails and when it returns (\<open>act\<close>), with rules for sequencing and for the
  two clean-up idioms of the code, \<open>defer x.Destroy()\<close> and \<open>defer zero(raw)\<close>. \<open>computes\<close> is the
  contract of every routine that derives one secret.
\<close>

section \<open>Contracts of actions\<close>

text \<open>
  \<open>act c m w Err Ok\<close>: started in \<open>w\<close>, the action \<open>m\<close> touches nothing that existed in \<open>w\<close>. It either
  fails with an error satisfying \<open>Err\<close> and leaves no container and (if \<open>c\<close>) no raw buffer
  behind, or it returns \<open>x\<close> in a world \<open>w'\<close> and leaves containers \<open>K\<close> and raw buffers \<open>D\<close> with
  \<open>Ok x w' K D\<close>.
\<close>

definition act :: "bool \<Rightarrow> 'a io \<Rightarrow> world \<Rightarrow> (gerror \<Rightarrow> bool) \<Rightarrow>
    ('a \<Rightarrow> world \<Rightarrow> (nat \<times> bytes) set \<Rightarrow> addr set \<Rightarrow> bool) \<Rightarrow> bool" where
  "act c m w Err Ok \<longleftrightarrow>
     (case m w of
        (Inl e, w') \<Rightarrow> Err e \<and> (\<exists>D. leaves w w' {} D \<and> (c \<longrightarrow> D = {}))
      | (Inr x, w') \<Rightarrow> (\<exists>K D. Ok x w' K D \<and> leaves w w' K D))"

lemma act_errI:
  "m w = (Inl e, w') \<Longrightarrow> Err e \<Longrightarrow> leaves w w' {} D \<Longrightarrow> (c \<Longrightarrow> D = {}) \<Longrightarrow> act c m w Err Ok"
  by (auto simp: act_def)

lemma act_okI: "m w = (Inr x, w') \<Longrightarrow> Ok x w' K D \<Longrightarrow> leaves w w' K D \<Longrightarrow> act c m w Err Ok"
  by (auto simp: act_def)

lemma act_errD:
  "act c m w Err Ok \<Longrightarrow> m w = (Inl e, w') \<Longrightarrow> Err e \<and> (\<exists>D. leaves w w' {} D \<and> (c \<longrightarrow> D = {}))"
  by (simp add: act_def)

lemma act_okD:
  "act c m w Err Ok \<Longrightarrow> m w = (Inr x, w') \<Longrightarrow> \<exists>K D. Ok x w' K D \<and> leaves w w' K D"
  by (simp add: act_def)

lemma act_conseq:
  "act c m w Err Ok \<Longrightarrow> (\<And>e. Err e \<Longrightarrow> Err' e) \<Longrightarrow>
   (\<And>x w' K D. m w = (Inr x, w') \<Longrightarrow> leaves w w' K D \<Longrightarrow> Ok x w' K D \<Longrightarrow> Ok' x w' K D) \<Longrightarrow>
   (d \<Longrightarrow> c) \<Longrightarrow> act d m w Err' Ok'"
  unfolding act_def by (auto split: prod.splits sum.splits) blast

lemma act_ret: "wfw w \<Longrightarrow> Ok x w {} {} \<Longrightarrow> act c (ret x) w Err Ok"
  by (rule act_okI [where K = "{}" and D = "{}"]) (auto simp: ret_apply)

lemma act_throw: "wfw w \<Longrightarrow> Err e \<Longrightarrow> act c (throw e) w Err Ok"
  by (rule act_errI [where D = "{}"]) (auto simp: throw_apply)

lemma act_lift:
  assumes w: "wfw w" and "\<And>e. r = Inl e \<Longrightarrow> Err e" and "\<And>x. r = Inr x \<Longrightarrow> Ok x w {} {}"
  shows "act c (lift r) w Err Ok"
proof (cases r)
  case (Inl e)
  with assms show ?thesis
    by (intro act_errI [where D = "{}" and w' = w and e = e]) (simp_all add: lift_apply)
next
  case (Inr x)
  with assms show ?thesis
    by (intro act_okI [where K = "{}" and D = "{}" and w' = w and x = x]) (simp_all add: lift_apply)
qed

text \<open>A step that leaves nothing, then the rest.\<close>

lemma act_bind:
  assumes w: "wfw w" and m: "act c m w Err (\<lambda>x w1 K D. K = {} \<and> D = {} \<and> P x w1)"
    and f: "\<And>x w1. m w = (Inr x, w1) \<Longrightarrow> wfw w1 \<Longrightarrow> leaves w w1 {} {} \<Longrightarrow> P x w1 \<Longrightarrow> act c (f x) w1 Err Ok"
  shows "act c (bind m f) w Err Ok"
proof -
  obtain r w1 where r: "m w = (r, w1)" by fastforce
  show ?thesis
  proof (cases r)
    case (Inl e)
    with act_errD [OF m] r show ?thesis by (auto simp: bind_Inl intro: act_errI)
  next
    case (Inr x)
    with act_okD [OF m] r have 1: "leaves w w1 {} {}" and P: "P x w1" by auto
    note a = f [OF r [unfolded Inr] leaves_wf [OF 1] 1 P]
    obtain q w2 where q: "f x w1 = (q, w2)" by fastforce
    have b: "bind m f w = (q, w2)" using r q Inr by (simp add: bind_Inr)
    show ?thesis
    proof (cases q)
      case (Inl e)
      with act_errD [OF a] q obtain D where "Err e" "leaves w1 w2 {} D" "c \<longrightarrow> D = {}" by blast
      with b Inl leaves_trans [OF w 1, of w2 "{}" D] show ?thesis by (auto intro: act_errI)
    next
      case (Inr y)
      with act_okD [OF a] q obtain K D where "Ok y w2 K D" "leaves w1 w2 K D" by blast
      with b Inr leaves_trans [OF w 1, of w2 K D] show ?thesis by (auto intro: act_okI)
    qed
  qed
qed

text \<open>\<open>x := m(); defer x.Destroy(); f(x)\<close>\<close>

lemma act_scoped:
  assumes w: "wfw w"
    and m: "act c m w Err (\<lambda>p w1 K D. \<exists>i v. p = Some i \<and> K = {(i, v)} \<and> D = {} \<and> P v)"
    and f: "\<And>i v w1. wfw w1 \<Longrightarrow> leaves w w1 {(i, v)} {} \<Longrightarrow> P v \<Longrightarrow>
      act c (f (Some i)) w1 Err (\<lambda>x w2 K D. \<forall>w3. Ok x w3 K D)"
  shows "act c (bind m (\<lambda>p. deferring (sb_Destroy X p) (f p))) w Err Ok"
proof -
  let ?b = "bind m (\<lambda>p. deferring (sb_Destroy X p) (f p))"
  obtain r w1 where r: "m w = (r, w1)" by fastforce
  show ?thesis
  proof (cases r)
    case (Inl e)
    with act_errD [OF m] r show ?thesis by (auto simp: bind_Inl intro: act_errI)
  next
    case (Inr p)
    with act_okD [OF m] r obtain i v where p: "p = Some i" and 1: "leaves w w1 {(i, v)} {}" and P: "P v"
      by blast
    note a = f [OF leaves_wf [OF 1] 1 P]
    obtain q w2 where q: "f (Some i) w1 = (q, w2)" by fastforce
    have b: "?b w = (q, snd (sb_Destroy X (Some i) w2))"
      using r q Inr p by (simp add: bind_Inr deferring_apply)
    have iw: "i < length (wsbs w1)" using leaves_K [OF 1, of i v] payload_Some_less by auto
    show ?thesis
    proof (cases q)
      case (Inl e)
      with act_errD [OF a] q obtain D where e: "Err e" "c \<longrightarrow> D = {}" and 2: "leaves w1 w2 {} D" by blast
      have "leaves w w2 {(i, v)} D" using leaves_trans [OF w 1 2] by simp
      then have "leaves w (snd (sb_Destroy X (Some i) w2)) {} D"
        using sb_Destroy_leaves [of w w2 "{(i, v)}" D i v X] by simp
      with b Inl e show ?thesis by (auto intro: act_errI)
    next
      case (Inr y)
      with act_okD [OF a] q obtain K D where y: "\<forall>w3. Ok y w3 K D" and 2: "leaves w1 w2 K D" by blast
      have "(i, v) \<notin> K" using iw leaves_K [OF 2, of i v] by auto
      then have "insert (i, v) K - {(i, v)} = K" by auto
      moreover have "leaves w w2 (insert (i, v) K) D" using leaves_trans [OF w 1 2] by simp
      ultimately have "leaves w (snd (sb_Destroy X (Some i) w2)) K D"
        using sb_Destroy_leaves [of w w2 "insert (i, v) K" D i v X] by simp
      with b Inr y show ?thesis by (auto intro: act_okI)
    qed
  qed
qed

text \<open>\<open>a := m(); defer zero(a); f(a)\<close> for a raw buffer \<open>a\<close>\<close>

lemma act_scoped_raw:
  assumes w: "wfw w"
    and m: "act c m w Err (\<lambda>a w1 K D. K = {} \<and> D = {a} \<and> P (wmem w1 ! a))"
    and f: "\<And>a w1. wfw w1 \<Longrightarrow> leaves w w1 {} {a} \<Longrightarrow> a < length (wmem w1) \<Longrightarrow> P (wmem w1 ! a) \<Longrightarrow>
      act c (f a) w1 Err (\<lambda>x w2 K D. \<forall>w3. (\<forall>b. b \<noteq> a \<longrightarrow> wmem w3 ! b = wmem w2 ! b) \<longrightarrow> Ok x w3 K D)"
  shows "act c (bind m (\<lambda>a. deferring (zero a) (f a))) w Err Ok"
proof -
  let ?b = "bind m (\<lambda>a. deferring (zero a) (f a))"
  obtain r w1 where r: "m w = (r, w1)" by fastforce
  show ?thesis
  proof (cases r)
    case (Inl e)
    with act_errD [OF m] r show ?thesis by (auto simp: bind_Inl intro: act_errI)
  next
    case (Inr a)
    with act_okD [OF m] r have 1: "leaves w w1 {} {a}" and P: "P (wmem w1 ! a)" by auto
    have aw: "a < length (wmem w1)" using leaves_dirty [OF 1, of a] by simp
    note fa = f [OF leaves_wf [OF 1] 1 aw P]
    obtain q w2 where q: "f a w1 = (q, w2)" by fastforce
    have b: "?b w = (q, snd (zero a w2))" using r q Inr by (simp add: bind_Inr deferring_apply)
    show ?thesis
    proof (cases q)
      case (Inl e)
      with act_errD [OF fa] q obtain D where e: "Err e" "c \<longrightarrow> D = {}" and 2: "leaves w1 w2 {} D" by blast
      have "leaves w w2 {} (insert a D)" using leaves_trans [OF w 1 2] by simp
      then have "leaves w (snd (zero a w2)) {} (insert a D - {a})" by (rule leaves_zero) simp
      with b Inl e show ?thesis by (auto intro: act_errI)
    next
      case (Inr y)
      with act_okD [OF fa] q obtain K D where 2: "leaves w1 w2 K D"
        and y: "\<forall>w3. (\<forall>b. b \<noteq> a \<longrightarrow> wmem w3 ! b = wmem w2 ! b) \<longrightarrow> Ok y w3 K D" by blast
      have "Ok y (snd (zero a w2)) K D" using y by (simp add: zero_def modify_apply)
      moreover have "leaves w w2 K (insert a D)" using leaves_trans [OF w 1 2] by simp
      then have "leaves w (snd (zero a w2)) K (insert a D - {a})" by (rule leaves_zero) simp
      moreover have "a \<notin> D" using aw leaves_dirty [OF 2, of a] by auto
      ultimately show ?thesis using b Inr by (auto intro: act_okI)
    qed
  qed
qed

text \<open>Access to a live or destroyed container within a contract.\<close>

lemma act_Read:
  assumes w: "wfw w" and "\<And>e. contents w p = Inl e \<Longrightarrow> Err e"
    and "\<And>v. contents w p = Inr v \<Longrightarrow> act c (f v) w Err Ok"
  shows "act c (sb_Read p f) w Err Ok"
proof (cases "contents w p")
  case (Inl e)
  with assms show ?thesis
    by (intro act_errI [where D = "{}"]) (auto simp: sb_Read_run)
next
  case (Inr v)
  with assms(3) [OF Inr] show ?thesis by (simp add: act_def sb_Read_run [OF w])
qed

lemma act_ctxCheck:
  assumes w: "wfw w" and "\<And>e. e \<in> faults X \<Longrightarrow> Err e"
  shows "act c (ctxCheck X t) w Err (\<lambda>x w1 K D. K = {} \<and> D = {} \<and> wmem w1 = wmem w \<and> wsbs w1 = wsbs w)"
proof -
  obtain r w1 where r: "ctxCheck X t w = (r, w1)" by fastforce
  from ctxCheck_leaves [OF leaves_refl [OF w] r] assms r show ?thesis
    by (cases r) (auto intro: act_errI act_okI)
qed

lemma act_Len:
  assumes w: "wfw w" and "p = None \<Longrightarrow> Err [GoPanic]"
  shows "act c (sb_Len p) w Err (\<lambda>n w1 K D. K = {} \<and> D = {} \<and> w1 = w \<and>
    n = (case contents w p of Inl _ \<Rightarrow> 0 | Inr v \<Rightarrow> length v))"
proof (cases "p = None")
  case True
  with assms show ?thesis by (auto simp: sb_Len_def intro!: act_errI [where D = "{}"])
next
  case False
  with w show ?thesis by (auto simp: sb_Len_run intro!: act_okI)
qed

lemma act_load: "act c (f (wmem w ! a)) w Err Ok \<Longrightarrow> act c (bind (load a) f) w Err Ok"
  by (simp add: act_def bind_def load_def gets_apply)

subsection \<open>Actions that make one secret\<close>

text \<open>
  \<open>computes c E m spec w\<close>: the action returns a fresh container with the value of \<open>spec\<close>, or
  fails with the error of \<open>spec\<close> or with one of \<open>E\<close>; \<open>computesRaw\<close>: the same for a raw buffer.
\<close>

definition computes :: "bool \<Rightarrow> gerror set \<Rightarrow> sbptr io \<Rightarrow> gerror + bytes \<Rightarrow> world \<Rightarrow> bool" where
  "computes c E m spec w \<longleftrightarrow>
     act c m w (\<lambda>e. e \<in> E \<or> spec = Inl e)
       (\<lambda>p w' K D. \<exists>i v. p = Some i \<and> K = {(i, v)} \<and> D = {} \<and> spec = Inr v)"

definition computesRaw :: "bool \<Rightarrow> gerror set \<Rightarrow> addr io \<Rightarrow> gerror + bytes \<Rightarrow> world \<Rightarrow> bool" where
  "computesRaw c E m spec w \<longleftrightarrow>
     act c m w (\<lambda>e. e \<in> E \<or> spec = Inl e) (\<lambda>a w' K D. K = {} \<and> D = {a} \<and> spec = Inr (wmem w' ! a))"

lemma computes_errD:
  "computes c E m spec w \<Longrightarrow> m w = (Inl e, w') \<Longrightarrow>
   (e \<in> E \<or> spec = Inl e) \<and> (\<exists>D. leaves w w' {} D \<and> (c \<longrightarrow> D = {}))"
  unfolding computes_def by (drule act_errD)

lemma computes_okD:
  "computes c E m spec w \<Longrightarrow> m w = (Inr p, w') \<Longrightarrow>
   \<exists>i v. p = Some i \<and> spec = Inr v \<and> leaves w w' {(i, v)} {}"
  unfolding computes_def by (drule act_okD) auto

text \<open>The contract read at one run.\<close>

lemma computes_run:
  "computes True E m spec w \<longleftrightarrow>
   (case m w of
      (Inl e, w') \<Rightarrow> (e \<in> E \<or> spec = Inl e) \<and> leaves w w' {} {}
    | (Inr p, w') \<Rightarrow> \<exists>i v. p = Some i \<and> spec = Inr v \<and> leaves w w' {(i, v)} {})"
  by (auto simp: computes_def act_def split: prod.splits sum.splits)

lemma act_run:
  "act True m w Err (\<lambda>x w' K D. K = {} \<and> D = {} \<and> Ok x w') \<longleftrightarrow>
   (case m w of
      (Inl e, w') \<Rightarrow> Err e \<and> leaves w w' {} {}
    | (Inr x, w') \<Rightarrow> Ok x w' \<and> leaves w w' {} {})"
  by (auto simp: act_def split: prod.splits sum.splits)

lemma computes_mono: "computes c E m spec w \<Longrightarrow> E \<subseteq> F \<Longrightarrow> (d \<Longrightarrow> c) \<Longrightarrow> computes d F m spec w"
  unfolding computes_def by (erule act_conseq) auto

lemma computesRaw_alloc: "wfw w \<Longrightarrow> computesRaw c E (alloc b) (Inr b) w"
  unfolding computesRaw_def
  by (rule act_okI [OF _ _ leaves_alloc [OF leaves_refl]]) (auto simp: alloc_def)

text \<open>\<open>raw := m(); defer zero(raw); sbNew(raw)\<close>\<close>

lemma computes_New:
  assumes w: "wfw w" and m: "computesRaw c E m spec w"
  shows "computes c (E \<union> faults X) (bind m (\<lambda>a. deferring (zero a) (sb_New X a))) spec w"
proof -
  let ?b = "bind m (\<lambda>a. deferring (zero a) (sb_New X a))"
  obtain r u where r: "m w = (r, u)" by fastforce
  show ?thesis
  proof (cases r)
    case (Inl e)
    with act_errD [OF m [unfolded computesRaw_def]] r show ?thesis
      by (auto simp: bind_Inl computes_def intro: act_errI)
  next
    case (Inr a)
    with act_okD [OF m [unfolded computesRaw_def]] r
    have u: "leaves w u {} {a}" and spec: "spec = Inr (wmem u ! a)" by auto
    obtain q x where n: "sb_New X a u = (q, x)" by fastforce
    have run: "?b w = (q, snd (zero a x))"
      using r Inr n by (simp add: bind_Inr deferring_apply)
    show ?thesis
    proof (cases q)
      case (Inl e)
      with sb_New_leaves [OF w u _ n] have "e \<in> faults X" "leaves w x {} {a}" by auto
      with leaves_zero [of w x "{}" "{a}" a] show ?thesis
        unfolding computes_def by (intro act_errI [of ?b, OF run [unfolded Inl]]) auto
    next
      case (Inr p)
      let ?i = "length (wsbs u)"
      from Inr sb_New_leaves [OF w u _ n] have p: "p = Some ?i"
        and x: "leaves w x {(?i, wmem u ! a)} {}" and "a < length (wmem x)" "\<not> owned x a" by auto
      then have "leaves w (snd (zero a x)) {(?i, wmem u ! a)} {}"
        using leaves_zero_new [OF x, of a] leaves_dirty [OF u, of a] by simp
      then show ?thesis
        unfolding computes_def by (intro act_okI [of ?b, OF run [unfolded Inr]]) (auto simp: p spec)
    qed
  qed
qed


text \<open>\<open>p := m(); defer p.Destroy(); f(p)\<close> where \<open>m\<close> derives a secret\<close>

lemma act_computes:
  assumes w: "wfw w" and m: "computes c E m spec w" and E: "\<And>e. e \<in> E \<or> spec = Inl e \<Longrightarrow> Err e"
    and f: "\<And>i v w1. wfw w1 \<Longrightarrow> leaves w w1 {(i, v)} {} \<Longrightarrow> contents w1 (Some i) = Inr v \<Longrightarrow>
      spec = Inr v \<Longrightarrow> act c (f (Some i)) w1 Err (\<lambda>x w2 K D. \<forall>w3. Ok x w3 K D)"
  shows "act c (bind m (\<lambda>p. deferring (sb_Destroy X p) (f p))) w Err Ok"
  by (rule act_scoped [OF w, where P = "\<lambda>v. spec = Inr v"])
    (use E in \<open>auto intro!: act_conseq [OF m [unfolded computes_def]] f contents_new\<close>)

lemma computes_scoped:
  assumes w: "wfw w" and m: "computes c E m spec w"
    and f: "\<And>i v w1. wfw w1 \<Longrightarrow> leaves w w1 {(i, v)} {} \<Longrightarrow> contents w1 (Some i) = Inr v \<Longrightarrow>
      spec = Inr v \<Longrightarrow> computes c E (f (Some i)) (g v) w1"
  shows "computes c E (bind m (\<lambda>p. deferring (sb_Destroy X p) (f p)))
    (case spec of Inl e \<Rightarrow> Inl e | Inr v \<Rightarrow> g v) w"
  unfolding computes_def
proof (rule act_computes [OF w m])
  fix i v w1 assume "wfw w1" "leaves w w1 {(i, v)} {}" "contents w1 (Some i) = Inr v" "spec = Inr v"
  from f [OF this] \<open>spec = Inr v\<close>
  show "act c (f (Some i)) w1 (\<lambda>e. e \<in> E \<or> (case spec of Inl e \<Rightarrow> Inl e | Inr v \<Rightarrow> g v) = Inl e)
      (\<lambda>x w2 K D. \<forall>w3. \<exists>i u. x = Some i \<and> K = {(i, u)} \<and> D = {} \<and>
         (case spec of Inl e \<Rightarrow> Inl e | Inr v \<Rightarrow> g v) = Inr u)"
    by (simp add: computes_def)
qed auto

lemma computes_lift:
  assumes w: "wfw w" and f: "\<And>x. r = Inr x \<Longrightarrow> computes c E (f x) (g x) w"
  shows "computes c E (bind (lift r) f) (case r of Inl e \<Rightarrow> Inl e | Inr x \<Rightarrow> g x) w"
proof (cases r)
  case (Inl e)
  then have "bind (lift r) f w = (Inl e, w)" by (simp add: bind_def lift_apply)
  with Inl w show ?thesis unfolding computes_def by (auto intro!: act_errI)
next
  case (Inr x)
  with f [OF Inr] show ?thesis by (simp add: computes_def act_def bind_def lift_apply)
qed

lemma computes_throw: "wfw w \<Longrightarrow> computes c E (throw e) (Inl e) w"
  unfolding computes_def by (rule act_throw) auto

lemma computes_ctxCheck:
  assumes w: "wfw w" and E: "faults X \<subseteq> E"
    and f: "\<And>w1. wfw w1 \<Longrightarrow> leaves w w1 {} {} \<Longrightarrow> computes c E m spec w1"
  shows "computes c E (bind (ctxCheck X ctx) (\<lambda>_. m)) spec w"
  unfolding computes_def
  by (rule act_bind [OF w, where P = "\<lambda>_ _. True"],
      rule act_conseq [OF act_ctxCheck [OF w, where Err = "\<lambda>e. e \<in> E"]])
    (use E f in \<open>auto simp: computes_def\<close>)

lemma leaves_clean_trans:
  "wfw w \<Longrightarrow> leaves w w1 {} {} \<Longrightarrow> leaves w1 w2 K D \<Longrightarrow> leaves w w2 K D"
  using leaves_trans [of w w1 "{}" "{}" w2 K D] by simp

text \<open>A weaker contract; a run after another that left nothing but, perhaps, slices.\<close>

lemma act_weaken: "act True m w Err Ok \<Longrightarrow> act c m w Err Ok"
  by (auto simp: act_def split: prod.splits sum.splits)

lemma act_after:
  assumes w: "wfw w" "leaves w w1 {} D1" "c \<Longrightarrow> D1 = {}"
    and m: "act c m w1 (\<lambda>_. True) (\<lambda>p w' K D. \<exists>i v. p = Some i \<and> K = {(i, v)} \<and> (c \<longrightarrow> D = {}))"
  shows "act c (\<lambda>_. m w1) w (\<lambda>_. True) (\<lambda>p w' K D. \<exists>i v. p = Some i \<and> K = {(i, v)} \<and> (c \<longrightarrow> D = {}))"
proof (cases "m w1")
  case (Pair r w2)
  show ?thesis
  proof (cases r)
    case (Inl e)
    with m Pair obtain D where D: "leaves w1 w2 {} D" "c \<longrightarrow> D = {}" by (auto simp: act_def)
    then show ?thesis using Pair Inl leaves_trans [OF w(1,2) D(1)] w(3)
      by (intro act_errI [where D = "D1 \<union> D"]) auto
  next
    case (Inr p)
    with m Pair obtain i v D where D: "p = Some i" "leaves w1 w2 {(i, v)} D" "c \<longrightarrow> D = {}"
      by (auto simp: act_def)
    then show ?thesis using Pair Inr leaves_trans [OF w(1,2) D(2)] w(3)
      by (intro act_okI [where D = "D1 \<union> D"]) auto
  qed
qed

subsection \<open>Pointers\<close>

text \<open>A Go pointer is nil or points to an object that exists.\<close>

definition validPtr :: "world \<Rightarrow> sbptr \<Rightarrow> bool" where
  "validPtr w p \<longleftrightarrow> (\<forall>i. p = Some i \<longrightarrow> i < length (wsbs w))"

lemma validPtr_None [simp]: "validPtr w None"
  by (simp add: validPtr_def)

lemma validPtr_leaves: "leaves w w' K D \<Longrightarrow> validPtr w p \<Longrightarrow> validPtr w' p"
  using leaves_lengths(2) [of w w' K D] by (auto simp: validPtr_def)

lemma validPtr_new: "leaves w w' K D \<Longrightarrow> (i, v) \<in> K \<Longrightarrow> validPtr w' (Some i)"
  by (auto simp: validPtr_def leaves_K dest: payload_Some_less)

lemma contents_stable:
  "wfw w \<Longrightarrow> leaves w w' K D \<Longrightarrow> validPtr w p \<Longrightarrow> contents w' p = contents w p"
  by (auto simp: contents_def validPtr_def leaves_payload split: option.splits)

lemma contents_valid: "contents w p = Inr v \<Longrightarrow> validPtr w p"
  by (auto simp: contents_def validPtr_def dest: payload_Some_less split: option.splits)

lemma demoW_valid [simp]: "validPtr demoW (Some i) \<longleftrightarrow> i < 4"
  by (simp add: validPtr_def demoW_def numeral_eq_Suc)

end
