(* ===== verification/Combine.thy ===== *)
theory Combine
  imports Contracts Crypto_Std
begin

text \<open>
  \<open>combine.go\<close>: the input keying material \<open>buildIKM\<close>, HKDF-SHA256, the key-encryption key
  \<open>deriveKEK\<close>, and sealing and opening a data key with ChaCha20-Poly1305. The AEAD primitive is
  \<open>golang.org/x/crypto\<close> and stays a parameter.
\<close>

section \<open>Domain-separation labels\<close>

definition labelIKM :: bytes where "labelIKM = ascii ''tumbler/v1 ikm''"
definition labelKEK :: bytes where "labelKEK = ascii ''tumbler/v1 kek''"
definition labelChallenge :: bytes where "labelChallenge = ascii ''tumbler/v1 challenge''"

section \<open>buildIKM\<close>

text \<open>The secret factors of a slot; \<open>None\<close> is an absent one.\<close>

record ikmInputs =
  ikPassword :: sbptr
  ikYubiResp :: sbptr
  ikRecovery :: sbptr

definition noInputs :: ikmInputs where
  "noInputs = \<lparr>ikPassword = None, ikYubiResp = None, ikRecovery = None\<rparr>"

definition roles :: "ikmInputs \<Rightarrow> sbptr list" where
  "roles inp = [ikPassword inp, ikYubiResp inp, ikRecovery inp]"

text \<open>The size loop.\<close>

fun ikmSize :: "sbptr list \<Rightarrow> nat \<Rightarrow> nat io" where
  "ikmSize [] sz = ret sz"
| "ikmSize (r # rs) sz =
     (if r = None then ikmSize rs (sz + (1 + 2))
      else bind (sb_Len r) (\<lambda>n. ikmSize rs (sz + (1 + 2) + n)))"

text \<open>
  \<open>putAt\<close>: an assignment \<open>dst[n] = v\<close> or \<open>PutUint16(dst[n:], v)\<close>, which panics beyond the slice;
  \<open>copyAt\<close>: \<open>copy(dst[n:], s)\<close>, which copies as much as fits and returns how much.
\<close>

definition putAt :: "addr \<Rightarrow> nat \<Rightarrow> bytes \<Rightarrow> unit io" where
  "putAt dst n bs =
     bind (load dst) (\<lambda>old.
       if n + length bs > length old then throw [GoPanic]
       else store dst (take n old @ bs @ drop (n + length bs) old))"

definition copyAt :: "addr \<Rightarrow> nat \<Rightarrow> bytes \<Rightarrow> nat io" where
  "copyAt dst n s =
     bind (load dst) (\<lambda>old.
       let k = min (length old - n) (length s) in
       bind (store dst (take n old @ take k s @ drop (n + k) old)) (\<lambda>_. ret k))"

text \<open>The fill loop, with \<open>n\<close> the next position.\<close>

fun fillRoles :: "addr \<Rightarrow> sbptr list \<Rightarrow> nat \<Rightarrow> unit io" where
  "fillRoles dst [] n = ret ()"
| "fillRoles dst (r # rs) n =
     (if r = None then
        bind (putAt dst n [0]) (\<lambda>_.
        bind (putAt dst (n + 1) (putU16 0)) (\<lambda>_.
        fillRoles dst rs (n + 1 + 2)))
      else
        bind (putAt dst n [1]) (\<lambda>_.
        bind (sb_Read r (\<lambda>s.
          bind (putAt dst (n + 1) (putU16 (word_of_nat (length s)))) (\<lambda>_.
          copyAt dst (n + 1 + 2) s))) (\<lambda>k.
        fillRoles dst rs (n + 1 + 2 + k))))"

definition buildIKM :: "environ \<Rightarrow> ikmInputs \<Rightarrow> sbptr io" where
  "buildIKM X inp =
     bind (ikmSize (roles inp) (length labelIKM)) (\<lambda>sz.
     bind (sb_NewZero X (int sz)) (\<lambda>ikm.
     bind (onError (sb_Destroy X ikm)
       (sb_Use ikm (\<lambda>dst.
         bind (copyAt dst 0 labelIKM) (\<lambda>n. fillRoles dst (roles inp) n)))) (\<lambda>_.
     ret ikm)))"

section \<open>Keys\<close>

definition hkdfSHA256ExtractExpand :: "environ \<Rightarrow> bytes \<Rightarrow> bytes \<Rightarrow> bytes \<Rightarrow> nat \<Rightarrow> addr io" where
  "hkdfSHA256ExtractExpand X ikm salt info len =
     bind (alloc (hkdf_Extract ikm salt)) (\<lambda>prk.
     deferring (zero prk) (
       bind (load prk) (\<lambda>p.
       bind (lift (hkdf_Expand p info len)) (\<lambda>out.
       alloc out))))"

definition kekInfo :: "u8 \<Rightarrow> MethodType \<Rightarrow> bytes \<Rightarrow> bytes" where
  "kekInfo version mt slotID = labelKEK @ [version, mt] @ slotID"

definition deriveKEK :: "environ \<Rightarrow> ikmInputs \<Rightarrow> bytes \<Rightarrow> u8 \<Rightarrow> MethodType \<Rightarrow> bytes \<Rightarrow> sbptr io" where
  "deriveKEK X inp hkdfSalt version mt slotID =
     bind (buildIKM X inp) (\<lambda>ikm.
     deferring (sb_Destroy X ikm) (
       let info = kekInfo version mt slotID in
       sb_Read ikm (\<lambda>ikmBytes.
         bind (hkdfSHA256ExtractExpand X ikmBytes hkdfSalt info 32) (\<lambda>raw.
         deferring (zero raw) (sb_New X raw)))))"

section \<open>seal and open\<close>

text \<open>
  \<open>chacha20poly1305.New\<close> wants a 32-byte key; \<open>Seal\<close> and \<open>Open\<close> panic on a nonce that is not 12
  bytes long.
\<close>

abbreviation (input) errBadKey :: gerror where "errBadKey \<equiv> [External 1]"

definition aead_New :: "bytes \<Rightarrow> gerror + unit" where
  "aead_New key = (if length key \<noteq> 32 then Inl errBadKey else Inr ())"

definition seal :: "environ \<Rightarrow> sbptr \<Rightarrow> sbptr \<Rightarrow> bytes \<Rightarrow> bytes \<Rightarrow> bytes io" where
  "seal X kek dek nonce aad =
     sb_Read kek (\<lambda>key.
       bind (lift (aead_New key)) (\<lambda>_.
       sb_Read dek (\<lambda>pt.
         if length nonce \<noteq> 12 then throw [GoPanic] else ret (x_seal X key nonce pt aad))))"

definition open_slot :: "environ \<Rightarrow> sbptr \<Rightarrow> bytes \<Rightarrow> bytes \<Rightarrow> bytes \<Rightarrow> sbptr io" where
  "open_slot X kek nonce ciphertext aad =
     sb_Read kek (\<lambda>key.
       bind (lift (aead_New key)) (\<lambda>_.
       if length nonce \<noteq> 12 then throw [GoPanic]
       else
         case x_open X key nonce ciphertext aad of
           None \<Rightarrow> throw [ErrAuthFailed]
         | Some pt \<Rightarrow>
             bind (alloc pt) (\<lambda>a. deferring (zero a) (sb_New X a))))"


section \<open>What buildIKM computes\<close>

definition roleBytes :: "bytes option \<Rightarrow> bytes" where
  "roleBytes r =
     (case r of None \<Rightarrow> [0, 0, 0] | Some v \<Rightarrow> [1] @ putU16 (word_of_nat (length v)) @ v)"

text \<open>The IKM of the three roles.\<close>

definition ikmBytes :: "bytes option \<Rightarrow> bytes option \<Rightarrow> bytes option \<Rightarrow> bytes" where
  "ikmBytes password yubiResp recovery =
     labelIKM @ roleBytes password @ roleBytes yubiResp @ roleBytes recovery"

text \<open>A role's factor in a world: absent, a value, or the error of a destroyed container.\<close>

definition factor :: "world \<Rightarrow> sbptr \<Rightarrow> gerror + bytes option" where
  "factor w r = (if r = None then Inr None
     else case contents w r of Inl e \<Rightarrow> Inl e | Inr v \<Rightarrow> Inr (Some v))"

fun rolesSpec :: "world \<Rightarrow> sbptr list \<Rightarrow> gerror + bytes" where
  "rolesSpec w [] = Inr []"
| "rolesSpec w (r # rs) =
     (case factor w r of
        Inl e \<Rightarrow> Inl e
      | Inr f \<Rightarrow> (case rolesSpec w rs of Inl e \<Rightarrow> Inl e | Inr b \<Rightarrow> Inr (roleBytes f @ b)))"

definition ikmSpec :: "world \<Rightarrow> ikmInputs \<Rightarrow> gerror + bytes" where
  "ikmSpec w inp =
     (case rolesSpec w (roles inp) of Inl e \<Rightarrow> Inl e | Inr b \<Rightarrow> Inr (labelIKM @ b))"

definition roleLen :: "world \<Rightarrow> sbptr \<Rightarrow> nat" where
  "roleLen w r = (case factor w r of Inr (Some v) \<Rightarrow> 3 + length v | _ \<Rightarrow> 3)"

lemma contents_None [simp]: "contents w None = Inl [GoPanic]"
  by (simp add: contents_def)

lemma contents_Some_error: "contents w (Some i) = Inl e \<Longrightarrow> e = [ErrDestroyed]"
  by (auto simp: contents_def split: option.splits)

lemma ikmSize_run:
  "wfw w \<Longrightarrow> ikmSize rs sz w = (Inr (sz + sum_list (map (roleLen w) rs)), w)"
proof (induction rs arbitrary: sz)
  case (Cons r rs)
  then show ?case
    by (cases "contents w r")
      (auto simp: roleLen_def factor_def sb_Len_run bind_Inr)
qed (simp add: ret_apply)

lemma length_rolesSpec: "rolesSpec w rs = Inr b \<Longrightarrow> length b = sum_list (map (roleLen w) rs)"
  by (induction rs arbitrary: b)
    (auto simp: roleLen_def roleBytes_def split: sum.splits option.splits)

definition setMem :: "world \<Rightarrow> addr \<Rightarrow> bytes \<Rightarrow> world" where
  "setMem u a b = u\<lparr>wmem := (wmem u)[a := b]\<rparr>"

lemma setMem_simps [simp]:
  "setMem (setMem u a b) a c = setMem u a c"
  "length (wmem (setMem u a b)) = length (wmem u)"
  "wsbs (setMem u a b) = wsbs u"
  "a < length (wmem u) \<Longrightarrow> wmem (setMem u a b) ! a = b"
  by (simp_all add: setMem_def)

lemma wfw_setMem [simp]: "wfw (setMem u a b) = wfw u"
  by (simp add: wfw_def)

text \<open>The buffer \<open>dst\<close> of the container \<open>k\<close> being filled, apart from the roles' containers.\<close>

lemma contents_setMem:
  assumes "wfw u" and "sbuf (wsbs u ! k) = Some dst" and "k < length (wsbs u)" and "r \<noteq> Some k"
  shows "contents (setMem u dst b) r = contents u r"
proof (cases r)
  case (Some i)
  have "sbuf (wsbs u ! i) \<noteq> Some dst" if "i < length (wsbs u)"
    using that assms Some unfolding wfw_def by blast
  then have "payload (setMem u dst b) i = payload u i"
    by (cases "sbuf (wsbs u ! i)") (auto simp: payload_def setMem_def)
  with Some show ?thesis by (simp add: contents_def)
qed simp

lemma putAt_run:
  "dst < length (wmem u) \<Longrightarrow> wmem u ! dst = pre @ replicate k 0 \<Longrightarrow> n = length pre \<Longrightarrow> length bs \<le> k \<Longrightarrow>
   putAt dst n bs u = (Inr (), setMem u dst (pre @ bs @ replicate (k - length bs) 0))"
  by (simp add: putAt_def load_def gets_apply store_def modify_apply bind_Inr setMem_def)

lemma copyAt_run:
  "dst < length (wmem u) \<Longrightarrow> wmem u ! dst = pre @ replicate k 0 \<Longrightarrow> n = length pre \<Longrightarrow> length bs \<le> k \<Longrightarrow>
   copyAt dst n bs u = (Inr (length bs), setMem u dst (pre @ bs @ replicate (k - length bs) 0))"
  by (simp add: copyAt_def load_def gets_apply store_def modify_apply bind_Inr ret_apply setMem_def
      min_def Let_def)

text \<open>
  Started on a buffer with \<open>pre\<close> written and zeros of exactly the remaining size, the loop
  appends the roles, or stops with the error of the first destroyed factor.
\<close>

lemma fillRoles_run:
  assumes "wfw u" and "k < length (wsbs u)" and "sbuf (wsbs u ! k) = Some dst"
    and "Some k \<notin> set rs"
    and "wmem u ! dst = pre @ replicate (sum_list (map (roleLen u) rs)) 0"
  shows "\<exists>b. fillRoles dst rs (length pre) u =
      (case rolesSpec u rs of Inl e \<Rightarrow> Inl e | Inr _ \<Rightarrow> Inr (), setMem u dst b) \<and>
      (\<forall>bs. rolesSpec u rs = Inr bs \<longrightarrow> b = pre @ bs)"
  using assms
proof (induction rs arbitrary: u pre)
  case Nil
  then have "(wmem u)[dst := pre] = wmem u" using list_update_id [of "wmem u" dst] by simp
  then have "setMem u dst pre = u" by (simp add: setMem_def)
  then show ?case by (intro exI [of _ pre]) (simp add: ret_apply)
next
  case (Cons r rs)
  note wf = Cons.prems(1) and k = Cons.prems(2,3)
  have dst: "dst < length (wmem u)" using wf k by (auto simp: wfw_def)
  let ?K = "sum_list (map (roleLen u) (r # rs))" and ?rest = "sum_list (map (roleLen u) rs)"
  have cont: "contents (setMem u dst b) x = contents u x" if "x \<in> set (r # rs)" for x b
  proof -
    have "x \<noteq> Some k" using that Cons.prems(4) by metis
    then show ?thesis by (rule contents_setMem [OF wf k(2) k(1)])
  qed
  then have same: "factor (setMem u dst b) x = factor u x" if "x \<in> set (r # rs)" for x b
    using that by (simp add: factor_def)
  have spec: "rolesSpec (setMem u dst b) rs = rolesSpec u rs" for b
  proof -
    have "rolesSpec (setMem u dst b) xs = rolesSpec u xs" if "set xs \<subseteq> set (r # rs)" for xs
      using that by (induction xs) (simp_all add: same cong: sum.case_cong)
    then show ?thesis by auto
  qed
  have lens: "map (roleLen (setMem u dst b)) rs = map (roleLen u) rs" for b
    using same by (simp add: roleLen_def)
  have IH: "\<exists>b'. fillRoles dst rs (length pre') (setMem u dst (pre' @ replicate ?rest 0)) =
      (case rolesSpec u rs of Inl e \<Rightarrow> Inl e | Inr _ \<Rightarrow> Inr (), setMem u dst b') \<and>
      (\<forall>bs. rolesSpec u rs = Inr bs \<longrightarrow> b' = pre' @ bs)" for pre'
    using Cons.IH [of "setMem u dst (pre' @ replicate ?rest 0)" pre'] wf k Cons.prems(4) dst
    by (simp add: spec lens)
  show ?case
  proof (cases "factor u r")
    case (Inl e)
    then obtain i where r: "r = Some i" "contents u r = Inl e"
      by (cases r) (auto simp: factor_def split: sum.splits)
    have K: "?K = 3 + ?rest" using Inl by (simp add: roleLen_def)
    have p: "putAt dst (length pre) [1] u =
        (Inr (), setMem u dst (pre @ [1] @ replicate (?K - 1) 0))"
      using putAt_run [OF dst Cons.prems(5) refl, of "[1]"] K by simp
    have "fillRoles dst (r # rs) (length pre) u =
        (Inl e, setMem u dst (pre @ [1] @ replicate (?K - 1) 0))"
      using r cont [of r] wf by (simp add: bind_Inr [of "putAt dst (length pre) [1]", OF p]
          sb_Read_run bind_Inl)
    then show ?thesis using Inl by auto
  next
    case (Inr f)
    show ?thesis
    proof (cases f)
      case None
      then have rNone: "(r = None) = True"
        using Inr by (auto simp: factor_def split: sum.splits if_splits)
      have K: "?K = 3 + ?rest" using Inr None by (simp add: roleLen_def)
      let ?u1 = "setMem u dst (pre @ [0] @ replicate (?K - 1) 0)"
      let ?u2 = "setMem u dst ((pre @ [0, 0, 0]) @ replicate ?rest 0)"
      have p1: "putAt dst (length pre) [0] u = (Inr (), ?u1)"
        using putAt_run [OF dst Cons.prems(5) refl, of "[0]"] K by simp
      have p2: "putAt dst (length pre + 1) (putU16 0) ?u1 = (Inr (), ?u2)"
        using putAt_run [of dst ?u1 "pre @ [0]" "?K - 1" "length pre + 1" "putU16 0"] dst K
        by (simp add: putU16_def)
      obtain b where "fillRoles dst rs (length (pre @ [0, 0, 0])) ?u2 =
          (case rolesSpec u rs of Inl e \<Rightarrow> Inl e | Inr _ \<Rightarrow> Inr (), setMem u dst b)"
        "\<forall>bs. rolesSpec u rs = Inr bs \<longrightarrow> b = (pre @ [0, 0, 0]) @ bs"
        using IH [of "pre @ [0, 0, 0]"] by blast
      moreover have "fillRoles dst (r # rs) (length pre) u =
          fillRoles dst rs (length (pre @ [0, 0, 0])) ?u2"
        by (simp only: fillRoles.simps rNone if_True
            bind_Inr [of "putAt dst (length pre) [0]", OF p1]
            bind_Inr [of "putAt dst (length pre + 1) (putU16 0)", OF p2]) simp
      ultimately show ?thesis using Inr None
        by (intro exI [of _ b]) (auto simp: roleBytes_def split: sum.splits)
    next
      case (Some v)
      then obtain i where r: "r = Some i" "contents u r = Inr v"
        using Inr by (cases r) (auto simp: factor_def split: sum.splits)
      then have rNone: "(r = None) = False" by simp
      have K: "?K = 3 + length v + ?rest" using Inr Some by (simp add: roleLen_def)
      let ?l = "putU16 (word_of_nat (length v))"
      let ?u1 = "setMem u dst (pre @ [1] @ replicate (?K - 1) 0)"
      let ?u2 = "setMem u dst ((pre @ [1] @ ?l) @ replicate (length v + ?rest) 0)"
      let ?u3 = "setMem u dst ((pre @ [1] @ ?l @ v) @ replicate ?rest 0)"
      have p1: "putAt dst (length pre) [1] u = (Inr (), ?u1)"
        using putAt_run [OF dst Cons.prems(5) refl, of "[1]"] K by simp
      have p2: "putAt dst (length pre + 1) ?l ?u1 = (Inr (), ?u2)"
        using putAt_run [of dst ?u1 "pre @ [1]" "?K - 1" "length pre + 1" ?l] dst K by simp
      have p3: "copyAt dst (length pre + 1 + 2) v ?u2 = (Inr (length v), ?u3)"
        using copyAt_run [of dst ?u2 "pre @ [1] @ ?l" "length v + ?rest" "length pre + 1 + 2" v] dst
        by simp
      let ?g = "\<lambda>s. bind (putAt dst (length pre + 1) (putU16 (word_of_nat (length s))))
          (\<lambda>_. copyAt dst (length pre + 1 + 2) s)"
      have rd: "sb_Read r ?g ?u1 = (Inr (length v), ?u3)"
      proof -
        have "contents ?u1 r = Inr v" using r(2) cont [of r] by (simp del: append.simps)
        then show ?thesis using wf
          by (simp only: sb_Read_run wfw_setMem sum.case
              bind_Inr [of "putAt dst (length pre + 1) ?l", OF p2] p3)
      qed
      obtain b where "fillRoles dst rs (length (pre @ [1] @ ?l @ v)) ?u3 =
          (case rolesSpec u rs of Inl e \<Rightarrow> Inl e | Inr _ \<Rightarrow> Inr (), setMem u dst b)"
        "\<forall>bs. rolesSpec u rs = Inr bs \<longrightarrow> b = (pre @ [1] @ ?l @ v) @ bs"
        using IH [of "pre @ [1] @ ?l @ v"] by blast
      moreover have "fillRoles dst (r # rs) (length pre) u =
          fillRoles dst rs (length (pre @ [1] @ ?l @ v)) ?u3"
        by (simp only: fillRoles.simps bind_Inr [of "sb_Read r ?g", OF rd] if_False rNone
            bind_Inr [of "putAt dst (length pre) [1]", OF p1]) simp
      ultimately show ?thesis using Inr Some
        by (intro exI [of _ b]) (auto simp: roleBytes_def split: sum.splits)
    qed
  qed
qed


text \<open>The size computed first is the size written.\<close>

lemma factor_stable: "wfw w \<Longrightarrow> leaves w w' K D \<Longrightarrow> validPtr w p \<Longrightarrow> factor w' p = factor w p"
  by (simp add: factor_def contents_stable)

lemma rolesSpec_stable:
  "wfw w \<Longrightarrow> leaves w w' K D \<Longrightarrow> \<forall>p \<in> set rs. validPtr w p \<Longrightarrow> rolesSpec w' rs = rolesSpec w rs"
  by (induction rs) (simp_all add: factor_stable cong: sum.case_cong)

lemma rolesSpec_error: "rolesSpec w rs = Inl e \<Longrightarrow> e = [ErrDestroyed]"
  by (induction rs) (auto simp: factor_def dest: contents_Some_error split: sum.splits if_splits)

definition validInputs :: "world \<Rightarrow> ikmInputs \<Rightarrow> bool" where
  "validInputs w inp \<longleftrightarrow> (\<forall>p \<in> set (roles inp). validPtr w p)"

lemma buildIKM_computes:
  assumes w: "wfw w" and valid: "validInputs w inp"
  shows "computes True (faults X) (buildIKM X inp) (ikmSpec w inp) w"
proof -
  let ?rs = "roles inp" and ?L = "length labelIKM"
  let ?n = "sum_list (map (roleLen w) ?rs)"
  obtain r w1 where nz: "sb_NewZero X (int (?L + ?n)) w = (r, w1)" by fastforce
  note nzl = sb_NewZero_leaves [OF w leaves_refl [OF w] nz]
  let ?fill = "\<lambda>ikm. sb_Use ikm (\<lambda>dst. bind (copyAt dst 0 labelIKM) (\<lambda>n. fillRoles dst ?rs n))"
  let ?k = "\<lambda>ikm. bind (onError (sb_Destroy X ikm) (?fill ikm)) (\<lambda>_. ret ikm)"
  have run: "buildIKM X inp w = bind (sb_NewZero X (int (?L + ?n))) ?k w"
    unfolding buildIKM_def
    by (rule bind_Inr [of "ikmSize ?rs ?L", OF ikmSize_run [OF w, of ?rs ?L]])
  show ?thesis
  proof (cases r)
    case (Inl e)
    then have "buildIKM X inp w = (Inl e, w1)" using run nz by (simp add: bind_Inl)
    with nzl Inl show ?thesis unfolding computes_def by (auto intro: act_errI)
  next
    case (Inr p)
    let ?i = "length (wsbs w)"
    from Inr nzl have p: "p = Some ?i" and 1: "leaves w w1 {(?i, replicate (?L + ?n) 0)} {}"
      by auto
    note w1 = leaves_wf [OF 1]
    have "contents w1 p = Inr (replicate (?L + ?n) 0)" unfolding p by (rule contents_new [OF 1]) simp
    from sb_Use_ok [OF w1 this]
    obtain dst where dst: "sbuf (sbAt w1 ?i) = Some dst" "dst < length (wmem w1)"
      and mem: "wmem w1 ! dst = replicate (?L + ?n) 0" and pay: "payload w1 ?i \<noteq> None"
      and use: "\<And>f :: addr \<Rightarrow> unit io. sb_Use p f w1 = f dst w1"
      using p by (metis option.distinct(1) option.inject)
    have i: "?i < length (wsbs w1)" using pay by (auto simp: payload_def split: if_splits)
    with dst have buf: "sbuf (wsbs w1 ! ?i) = Some dst" by (simp add: sbAt_def)
    have fresh: "Some ?i \<notin> set ?rs" using valid by (auto simp: validInputs_def validPtr_def)
    have spec: "rolesSpec w1 ?rs = rolesSpec w ?rs" "map (roleLen w1) ?rs = map (roleLen w) ?rs"
      using valid rolesSpec_stable [OF w 1, of ?rs] factor_stable [OF w 1]
      by (simp_all add: validInputs_def roleLen_def)
    let ?u = "setMem w1 dst (labelIKM @ replicate ?n 0)"
    have cp: "copyAt dst 0 labelIKM w1 = (Inr ?L, ?u)"
      using copyAt_run [OF dst(2), of "[]" "?L + ?n" 0 labelIKM] mem by simp
    have same: "factor ?u x = factor w1 x" if "x \<in> set ?rs" for x
    proof -
      have "x \<noteq> Some ?i" using that fresh by metis
      then show ?thesis by (simp add: factor_def contents_setMem [OF w1 buf i])
    qed
    have "rolesSpec ?u xs = rolesSpec w1 xs" if "set xs \<subseteq> set ?rs" for xs
      using that by (induction xs) (simp_all add: same cong: sum.case_cong)
    moreover have "map (roleLen ?u) ?rs = map (roleLen w1) ?rs"
      by (rule map_cong [OF refl]) (simp only: roleLen_def same)
    ultimately have spec': "rolesSpec ?u ?rs = rolesSpec w ?rs"
      "map (roleLen ?u) ?rs = map (roleLen w) ?rs"
      using spec by simp_all
    obtain b where f: "fillRoles dst ?rs ?L ?u =
        (case rolesSpec w ?rs of Inl e \<Rightarrow> Inl e | Inr _ \<Rightarrow> Inr (), setMem ?u dst b)"
      and b: "\<And>bs. rolesSpec w ?rs = Inr bs \<Longrightarrow> b = labelIKM @ bs"
      using fillRoles_run [of ?u ?i dst ?rs labelIKM] w1 i buf fresh dst(2)
      unfolding spec' by auto
    let ?w2 = "setMem w1 dst b"
    have fill: "?fill p w1 = (case rolesSpec w ?rs of Inl e \<Rightarrow> Inl e | Inr _ \<Rightarrow> Inr (), ?w2)"
      unfolding use using f by (simp add: bind_Inr [of "copyAt dst 0 labelIKM", OF cp])
    have 2: "leaves w ?w2 {(?i, b)} {}"
      using leaves_fill [OF 1 _ buf, of "replicate (?L + ?n) 0" b] by (simp add: setMem_def)
    have top: "buildIKM X inp w = ?k p w1"
      unfolding run using nz Inr by (simp add: bind_Inr)
    show ?thesis
    proof (cases "rolesSpec w ?rs")
      case (Inl e)
      with rolesSpec_error have e: "e = [ErrDestroyed]" by blast
      have "buildIKM X inp w = (Inl e, snd (sb_Destroy X p ?w2))"
        unfolding top using fill Inl e by (simp add: bind_def onError_def)
      moreover have "leaves w (snd (sb_Destroy X p ?w2)) {} {}"
        using sb_Destroy_leaves [OF 2, of ?i b X] p by simp
      ultimately show ?thesis
        unfolding computes_def using Inl by (auto simp: ikmSpec_def intro!: act_errI)
    next
      case (Inr bs)
      have "buildIKM X inp w = (Inr p, ?w2)"
        unfolding top using fill Inr by (simp add: bind_def onError_def ret_def)
      with 2 b [OF Inr] Inr p show ?thesis
        unfolding computes_def by (auto simp: ikmSpec_def intro!: act_okI)
    qed
  qed
qed

section \<open>What deriveKEK computes\<close>

lemma hkdfSHA256ExtractExpand_computes:
  assumes w: "wfw w"
  shows "computesRaw True (faults X) (hkdfSHA256ExtractExpand X ikm salt info len)
    (hkdf_Expand (hkdf_Extract ikm salt) info len) w"
  unfolding computesRaw_def hkdfSHA256ExtractExpand_def
proof (rule act_scoped_raw [OF w, where P = "\<lambda>b. b = hkdf_Extract ikm salt"])
  let ?prk = "hkdf_Extract ikm salt"
  show "act True (alloc ?prk) w (\<lambda>e. e \<in> faults X \<or> hkdf_Expand ?prk info len = Inl e)
     (\<lambda>a w1 K D. K = {} \<and> D = {a} \<and> wmem w1 ! a = ?prk)"
    by (rule act_okI [OF _ _ leaves_alloc [OF leaves_refl [OF w]]]) (auto simp: alloc_def)
next
  fix a w1 assume w1: "wfw w1" "a < length (wmem w1)" and a: "wmem w1 ! a = hkdf_Extract ikm salt"
  show "act True (bind (load a) (\<lambda>p. bind (lift (hkdf_Expand p info len)) alloc)) w1
     (\<lambda>e. e \<in> faults X \<or> hkdf_Expand (hkdf_Extract ikm salt) info len = Inl e)
     (\<lambda>x w2 K D. \<forall>w3. (\<forall>b. b \<noteq> a \<longrightarrow> wmem w3 ! b = wmem w2 ! b) \<longrightarrow>
        K = {} \<and> D = {x} \<and> hkdf_Expand (hkdf_Extract ikm salt) info len = Inr (wmem w3 ! x))"
  proof (cases "hkdf_Expand (hkdf_Extract ikm salt) info len")
    case (Inl e)
    show ?thesis
      by (rule act_errI [where D = "{}" and w' = w1])
        (use w1 a Inl in \<open>auto simp: load_def bind_def gets_apply lift_apply\<close>)
  next
    case (Inr out)
    show ?thesis
      by (rule act_okI [OF _ _ leaves_alloc [OF leaves_refl [OF w1(1)], of out]])
        (use w1 a Inr in \<open>auto simp: load_def bind_def gets_apply lift_apply alloc_def\<close>)
  qed
qed


text \<open>The key-encryption key of some keying material, always 32 bytes long when SHA-256 is.\<close>

definition kekOf :: "bytes \<Rightarrow> bytes \<Rightarrow> bytes \<Rightarrow> bytes" where
  "kekOf ikm salt info = take 32 (hkdf_blocks (hkdf_Extract ikm salt) info 1 0 [])"

lemma kekOf_block:
  "kekOf ikm salt info = take 32 (hmac sha256 (hkdf_Extract ikm salt) (info @ [1]))"
  by (simp add: kekOf_def)

lemma hkdf_Expand_32: "hkdf_Expand (hkdf_Extract ikm salt) info 32 = Inr (kekOf ikm salt info)"
  by (simp add: hkdf_Expand_def kekOf_def)

definition kekSpec :: "world \<Rightarrow> ikmInputs \<Rightarrow> bytes \<Rightarrow> bytes \<Rightarrow> gerror + bytes" where
  "kekSpec w inp salt info =
     (case ikmSpec w inp of Inl e \<Rightarrow> Inl e | Inr ikm \<Rightarrow> Inr (kekOf ikm salt info))"

lemma deriveKEK_computes:
  assumes w: "wfw w" and valid: "validInputs w inp"
  shows "computes True (faults X) (deriveKEK X inp salt ver mt sid)
    (kekSpec w inp salt (kekInfo ver mt sid)) w"
  unfolding computes_def deriveKEK_def Let_def
proof (rule act_scoped [OF w, where P = "\<lambda>v. ikmSpec w inp = Inr v"])
  show "act True (buildIKM X inp) w
      (\<lambda>e. e \<in> faults X \<or> kekSpec w inp salt (kekInfo ver mt sid) = Inl e)
      (\<lambda>p w1 K D. \<exists>i v. p = Some i \<and> K = {(i, v)} \<and> D = {} \<and> ikmSpec w inp = Inr v)"
    by (rule act_conseq [OF buildIKM_computes [OF w valid, of X, unfolded computes_def]])
      (auto simp: kekSpec_def)
next
  fix i v w1 assume w1: "wfw w1" "leaves w w1 {(i, v)} {}" and v: "ikmSpec w inp = Inr v"
  have c: "contents w1 (Some i) = Inr v" by (rule contents_new [OF w1(2)]) simp
  have "computes True (faults X \<union> faults X)
      (bind (hkdfSHA256ExtractExpand X v salt (kekInfo ver mt sid) 32)
        (\<lambda>raw. deferring (zero raw) (sb_New X raw)))
      (Inr (kekOf v salt (kekInfo ver mt sid))) w1"
    using computes_New [OF w1(1) hkdfSHA256ExtractExpand_computes
        [OF w1(1), of X v salt "kekInfo ver mt sid" 32], of X]
    by (simp only: hkdf_Expand_32)
  then show "act True (sb_Read (Some i) (\<lambda>b.
      bind (hkdfSHA256ExtractExpand X b salt (kekInfo ver mt sid) 32)
        (\<lambda>raw. deferring (zero raw) (sb_New X raw)))) w1
      (\<lambda>e. e \<in> faults X \<or> kekSpec w inp salt (kekInfo ver mt sid) = Inl e)
      (\<lambda>x w2 K D. \<forall>w3. \<exists>i v. x = Some i \<and> K = {(i, v)} \<and> D = {} \<and>
         kekSpec w inp salt (kekInfo ver mt sid) = Inr v)"
    using w1 c v unfolding computes_def
    by (intro act_Read) (auto simp: kekSpec_def elim: act_conseq)
qed

section \<open>What seal and open compute\<close>

definition keyed :: "gerror + bytes \<Rightarrow> bytes \<Rightarrow> gerror + bytes" where
  "keyed key nonce =
     (case key of Inl e \<Rightarrow> Inl e
      | Inr k \<Rightarrow> if length k \<noteq> 32 then Inl errBadKey
                 else if length nonce \<noteq> 12 then Inl [GoPanic] else Inr k)"

lemma seal_run:
  assumes w: "wfw w" and key: "contents w kek = Inr k" "length k = 32"
    and dek: "contents w dek = Inr d" and nonce: "length nonce = 12"
  shows "seal X kek dek nonce aad w = (Inr (x_seal X k nonce d aad), w)"
  using assms by (simp add: seal_def sb_Read_run aead_New_def bind_def lift_apply ret_apply)

definition openSpec :: "environ \<Rightarrow> gerror + bytes \<Rightarrow> bytes \<Rightarrow> bytes \<Rightarrow> bytes \<Rightarrow> gerror + bytes" where
  "openSpec X key nonce ct aad =
     (case keyed key nonce of Inl e \<Rightarrow> Inl e
      | Inr k \<Rightarrow> (case x_open X k nonce ct aad of None \<Rightarrow> Inl [ErrAuthFailed] | Some pt \<Rightarrow> Inr pt))"

lemma open_slot_computes:
  assumes w: "wfw w"
  shows "computes True (faults X) (open_slot X kek nonce ct aad) (openSpec X (contents w kek) nonce ct aad) w"
  unfolding computes_def open_slot_def
proof (rule act_Read [OF w])
  fix v assume v: "contents w kek = Inr v"
  show "act True (bind (lift (aead_New v)) (\<lambda>_. if length nonce \<noteq> 12 then throw [GoPanic]
       else case x_open X v nonce ct aad of None \<Rightarrow> throw [ErrAuthFailed]
         | Some pt \<Rightarrow> bind (alloc pt) (\<lambda>a. deferring (zero a) (sb_New X a)))) w
     (\<lambda>e. e \<in> faults X \<or> openSpec X (contents w kek) nonce ct aad = Inl e)
     (\<lambda>p w' K D. \<exists>i v. p = Some i \<and> K = {(i, v)} \<and> D = {} \<and>
        openSpec X (contents w kek) nonce ct aad = Inr v)"
  proof (rule act_bind [OF w, where P = "\<lambda>_ w1. w1 = w \<and> length v = 32"])
    show "act True (lift (aead_New v)) w
       (\<lambda>e. e \<in> faults X \<or> openSpec X (contents w kek) nonce ct aad = Inl e)
       (\<lambda>x w1 K D. K = {} \<and> D = {} \<and> w1 = w \<and> length v = 32)"
      by (rule act_lift [OF w]) (auto simp: v aead_New_def openSpec_def keyed_def split: if_splits)
  next
    fix w1 assume P: "w1 = w \<and> length v = 32"
    have "act True (bind (alloc pt) (\<lambda>a. deferring (zero a) (sb_New X a))) w
        (\<lambda>e. e \<in> faults X) (\<lambda>p w' K D. \<exists>i. p = Some i \<and> K = {(i, pt)} \<and> D = {})" for pt
      using computes_New [OF w computesRaw_alloc [OF w, of True "{}" pt], of X]
      by (simp add: computes_def)
    then show "act True (if length nonce \<noteq> 12 then throw [GoPanic]
       else case x_open X v nonce ct aad of None \<Rightarrow> throw [ErrAuthFailed]
         | Some pt \<Rightarrow> bind (alloc pt) (\<lambda>a. deferring (zero a) (sb_New X a))) w1
       (\<lambda>e. e \<in> faults X \<or> openSpec X (contents w kek) nonce ct aad = Inl e)
       (\<lambda>p w' K D. \<exists>i v. p = Some i \<and> K = {(i, v)} \<and> D = {} \<and>
          openSpec X (contents w kek) nonce ct aad = Inr v)"
      using P v w
      by (auto simp: openSpec_def keyed_def intro!: act_throw elim: act_conseq split: option.splits)
  qed
qed (auto simp: openSpec_def keyed_def)

section \<open>Inputs and sealing, as the methods use them\<close>

lemma ikmSpec_factors:
  assumes "factor w (ikPassword inp) = Inr a" and "factor w (ikYubiResp inp) = Inr b"
    and "factor w (ikRecovery inp) = Inr c"
  shows "ikmSpec w inp = Inr (ikmBytes a b c)"
  using assms by (simp add: ikmSpec_def roles_def ikmBytes_def)

lemma factor_None [simp]: "factor w None = Inr None"
  by (simp add: factor_def)

lemma factor_Some: "contents w (Some i) = Inr v \<Longrightarrow> factor w (Some i) = Inr (Some v)"
  by (simp add: factor_def)

lemma ikmSpec_stable: "wfw w \<Longrightarrow> leaves w w' K D \<Longrightarrow> validInputs w inp \<Longrightarrow> ikmSpec w' inp = ikmSpec w inp"
  by (simp add: ikmSpec_def rolesSpec_stable validInputs_def)

lemma validInputs_leaves: "leaves w w' K D \<Longrightarrow> validInputs w inp \<Longrightarrow> validInputs w' inp"
  by (auto simp: validInputs_def intro: validPtr_leaves)

lemma length_kekOf [simp]: "length (kekOf ikm salt info) = 32"
  by (simp add: kekOf_block)

lemma seal_act:
  assumes w: "wfw w" and key: "contents w kek = Inr k" "length k = 32" and nonce: "length nonce = 12"
  shows "act c (seal X kek dek nonce aad) w (\<lambda>e. contents w dek = Inl e)
    (\<lambda>b w' K D. K = {} \<and> D = {} \<and> (\<exists>d. contents w dek = Inr d \<and> b = x_seal X k nonce d aad))"
proof (cases "contents w dek")
  case (Inl e)
  then have "seal X kek dek nonce aad w = (Inl e, w)"
    using w key by (simp add: seal_def sb_Read_run aead_New_def bind_def lift_apply)
  with Inl w show ?thesis by (auto intro!: act_errI)
next
  case (Inr d)
  have "seal X kek dek nonce aad w = (Inr (x_seal X k nonce d aad), w)"
    by (rule seal_run [OF w key Inr nonce])
  with Inr w show ?thesis by (auto intro!: act_okI)
qed

section \<open>The encodings are injective\<close>

definition factors :: "world \<Rightarrow> ikmInputs \<Rightarrow> gerror + bytes option \<times> bytes option \<times> bytes option" where
  "factors w inp =
     (case (factor w (ikPassword inp), factor w (ikYubiResp inp), factor w (ikRecovery inp)) of
        (Inr p, Inr y, Inr r) \<Rightarrow> Inr (p, y, r)
      | (Inl e, _, _) \<Rightarrow> Inl e | (_, Inl e, _) \<Rightarrow> Inl e | (_, _, Inl e) \<Rightarrow> Inl e)"

definition short :: "bytes option \<Rightarrow> bool" where
  "short r \<longleftrightarrow> (\<forall>v. r = Some v \<longrightarrow> length v < 65536)"

lemma putU16_inj: "putU16 v = putU16 w \<Longrightarrow> v = w"
  unfolding putU16_def by (metis getU16_putU16 list.inject)

lemma putU16_length_inj:
  assumes "putU16 (word_of_nat m) = putU16 (word_of_nat n)" and "m < 65536" and "n < 65536"
  shows "m = n"
proof -
  have "(word_of_nat m :: u16) = word_of_nat n" by (rule putU16_inj [OF assms(1)])
  then have "unat (word_of_nat m :: u16) = unat (word_of_nat n :: u16)" by simp
  with assms(2,3) show ?thesis by (simp add: unat_of_nat)
qed

lemma roleBytes_prefix_code:
  assumes "roleBytes r @ x = roleBytes r' @ y" and "short r" and "short r'"
  shows "r = r' \<and> x = y"
proof (cases r)
  case None
  with assms show ?thesis by (cases r') (auto simp: roleBytes_def)
next
  case (Some v)
  with assms obtain v' where v': "r' = Some v'"
    and eq: "putU16 (word_of_nat (length v)) @ v @ x = putU16 (word_of_nat (length v')) @ v' @ y"
    by (cases r') (auto simp: roleBytes_def)
  then have "putU16 (word_of_nat (length v)) = putU16 (word_of_nat (length v'))" and "v @ x = v' @ y"
    by (auto simp: append_eq_append_conv)
  with assms(2,3) Some v' have "length v = length v'" by (intro putU16_length_inj) (auto simp: short_def)
  with \<open>v @ x = v' @ y\<close> Some v' show ?thesis by simp
qed

lemma ikmBytes_inj:
  assumes "ikmBytes a b c = ikmBytes a' b' c'"
    and "short a" "short b" "short c" "short a'" "short b'" "short c'"
  shows "a = a' \<and> b = b' \<and> c = c'"
proof -
  note p = roleBytes_prefix_code
  from assms(1) have "roleBytes a @ (roleBytes b @ roleBytes c @ []) = roleBytes a' @ (roleBytes b' @ roleBytes c' @ [])"
    by (simp add: ikmBytes_def)
  from p [OF this assms(2,5)]
  have a: "a = a'" and bc: "roleBytes b @ (roleBytes c @ []) = roleBytes b' @ (roleBytes c' @ [])" by simp_all
  from p [OF bc assms(3,6)] have b: "b = b'" and c: "roleBytes c @ [] = roleBytes c' @ []" by simp_all
  from p [OF c assms(4,7)] a b show ?thesis by simp
qed

lemma labels_differ: "labelKEK @ x \<noteq> labelChallenge"
  by (simp add: labelKEK_def labelChallenge_def ascii_def)

section \<open>Properties\<close>

lemma demo_inputs:
  "validInputs demoW (noInputs\<lparr>ikRecovery := Some 2\<rparr>)"
  "ikmSpec demoW (noInputs\<lparr>ikRecovery := Some 2\<rparr>) = Inr (ikmBytes None None (Some demoCode))"
proof -
  show "validInputs demoW (noInputs\<lparr>ikRecovery := Some 2\<rparr>)"
    by (auto simp: validInputs_def roles_def noInputs_def validPtr_def demoW_def)
  show "ikmSpec demoW (noInputs\<lparr>ikRecovery := Some 2\<rparr>) = Inr (ikmBytes None None (Some demoCode))"
    by (rule ikmSpec_factors) (simp_all add: noInputs_def factor_Some)
qed

text \<open>
  C14. The input key material determines the factors: with factors shorter than 64 KiB, two
  runs of \<open>buildIKM\<close> that give the same bytes had the same password key, the same
  YubiKey response and the same recovery code, absent ones included. No factor can be left out,
  moved to another role or split differently without changing the key material.
\<close>

theorem ikm_injective:
  assumes "wfw w" and "validInputs w inp" and "buildIKM X inp w = (Inr k, w1)"
    and "wfw w'" and "validInputs w' inp'" and "buildIKM X' inp' w' = (Inr k', w1')"
    and same: "contents w1 k = contents w1' k'"
    and "factors w inp = Inr (p, y, r)" and "factors w' inp' = Inr (p', y', r')"
    and "\<forall>f \<in> {p, y, r, p', y', r'}. short f"
  shows "(p, y, r) = (p', y', r')"
proof -
  from computes_okD [OF buildIKM_computes [OF assms(1,2)] assms(3)]
  obtain b where "ikmSpec w inp = Inr b" "contents w1 k = Inr b" by (auto dest: contents_new)
  moreover from computes_okD [OF buildIKM_computes [OF assms(4,5)] assms(6)]
  obtain b' where "ikmSpec w' inp' = Inr b'" "contents w1' k' = Inr b'" by (auto dest: contents_new)
  moreover from assms(8) have "ikmSpec w inp = Inr (ikmBytes p y r)"
    by (intro ikmSpec_factors) (auto simp: factors_def split: sum.splits)
  moreover from assms(9) have "ikmSpec w' inp' = Inr (ikmBytes p' y' r')"
    by (intro ikmSpec_factors) (auto simp: factors_def split: sum.splits)
  ultimately have "ikmBytes p y r = ikmBytes p' y' r'" using same by simp
  from ikmBytes_inj [OF this] assms(10) show ?thesis by simp
qed

lemma demo_buildIKM:
  assumes "validInputs demoW inp" and "ikmSpec demoW inp = Inr b"
  obtains k w1 where "buildIKM demoX inp demoW = (Inr k, w1)"
proof -
  obtain r w1 where r: "buildIKM demoX inp demoW = (r, w1)" by fastforce
  with computes_errD [OF buildIKM_computes [OF demoW_wfw assms(1), of demoX]] assms(2)
  show thesis using that by (cases r) auto
qed

theorem ikm_injective_witness:
  "\<exists>k w1 k' w1'. buildIKM demoX (noInputs\<lparr>ikPassword := Some 2\<rparr>) demoW = (Inr k, w1) \<and>
     buildIKM demoX (noInputs\<lparr>ikRecovery := Some 2\<rparr>) demoW = (Inr k', w1') \<and>
     contents w1 k \<noteq> contents w1' k'"
proof -
  let ?p = "noInputs\<lparr>ikPassword := Some 2\<rparr>" and ?r = "noInputs\<lparr>ikRecovery := Some 2\<rparr>"
  have f: "factors demoW ?p = Inr (Some demoCode, None, None)" "factors demoW ?r = Inr (None, None, Some demoCode)"
    by (simp_all add: factors_def noInputs_def factor_Some)
  have s: "ikmSpec demoW ?p = Inr (ikmBytes (Some demoCode) None None)"
    by (rule ikmSpec_factors) (simp_all add: noInputs_def factor_Some)
  have v: "validInputs demoW ?p" by (auto simp: validInputs_def roles_def noInputs_def)
  obtain k w1 where k: "buildIKM demoX ?p demoW = (Inr k, w1)" by (rule demo_buildIKM [OF v s])
  obtain k' w1' where k': "buildIKM demoX ?r demoW = (Inr k', w1')" by (rule demo_buildIKM [OF demo_inputs])
  from ikm_injective [OF demoW_wfw v k demoW_wfw demo_inputs(1) k' _ f] k k'
  show ?thesis by (auto simp: short_def)
qed

text \<open>
  Keys are separated: the HKDF \<open>info\<close> of a key-encryption key determines the format version,
  the method type and the slot id, and never equals the label under which challenges are derived,
  so no two slots and no slot and challenge share a derivation context.
\<close>

lemma kekInfo_separates:
  "(kekInfo v t sid = kekInfo v' t' sid' \<longleftrightarrow> (v, t, sid) = (v', t', sid')) \<and>
   kekInfo v t sid \<noteq> labelChallenge"
  by (auto simp: kekInfo_def labels_differ)

text \<open>
  C13. \<open>deriveKEK\<close> refines its specification: whatever happens outside, it either gives exactly one
  new container holding HKDF-SHA256 of the combined factors under the slot's salt and context,
  or fails with a fault of the outside or because a factor is destroyed; and the combined key
  material and every intermediate buffer are wiped in both cases.
\<close>

theorem deriveKEK_refines:
  assumes "wfw w" and "validInputs w inp"
  shows "case deriveKEK X inp salt ver mt sid w of
      (Inl e, w') \<Rightarrow> (e \<in> faults X \<or> ikmSpec w inp = Inl e) \<and> leaves w w' {} {}
    | (Inr p, w') \<Rightarrow> \<exists>i ikm. p = Some i \<and> ikmSpec w inp = Inr ikm \<and>
        leaves w w' {(i, kekOf ikm salt (kekInfo ver mt sid))} {}"
  using deriveKEK_computes [OF assms, of X salt ver mt sid]
  unfolding computes_run by (auto simp: kekSpec_def split: sum.splits)

theorem deriveKEK_refines_witness:
  "\<exists>i w'. deriveKEK demoX (noInputs\<lparr>ikRecovery := Some 2\<rparr>) [1] 1 4 [2] demoW = (Inr (Some i), w') \<and>
     leaves demoW w' {(i, kekOf (ikmBytes None None (Some demoCode)) [1] (kekInfo 1 4 [2]))} {}"
  using deriveKEK_refines [OF demoW_wfw demo_inputs(1), of demoX "[1]" 1 4 "[2]"] demo_inputs(2)
  by (auto split: prod.splits sum.splits)

end
