(* ===== verification/Kdf_Params.thy ===== *)
theory Kdf_Params
  imports Types Codec
begin

text \<open>
  The parameter side of \<open>kdf.go\<close>: the two built-in password KDFs as records, their
  serialised parameters (\<open>MarshalParams\<close>) and \<open>parseKDF\<close>, which bounds them before any
  derivation is attempted. The derivations themselves are in theory \<open>Kdf\<close>.
\<close>

section \<open>The built-in KDFs\<close>

record Argon2idKDF =
  a_time :: u32
  a_memoryKiB :: u32
  a_threads :: u8

record ScryptKDF =
  s_logN :: u8
  s_r :: u32
  s_p :: u32

definition NewArgon2idKDF :: "u32 \<Rightarrow> u32 \<Rightarrow> u8 \<Rightarrow> Argon2idKDF" where
  "NewArgon2idKDF time memoryKiB threads =
     \<lparr>a_time = time, a_memoryKiB = memoryKiB, a_threads = threads\<rparr>"

definition NewScryptKDF :: "u8 \<Rightarrow> u32 \<Rightarrow> u32 \<Rightarrow> ScryptKDF" where
  "NewScryptKDF logN r p = \<lparr>s_logN = logN, s_r = r, s_p = p\<rparr>"

text \<open>The dynamic types the interface value returned by \<open>parseKDF\<close> can have.\<close>

datatype kdfval = KArgon2id Argon2idKDF | KScrypt ScryptKDF

text \<open>The methods of \<open>ScryptKDF\<close>; those of \<open>Argon2idKDF\<close> stand in the first equation of each function.\<close>

abbreviation (input) ScryptKDF_ID :: "ScryptKDF \<Rightarrow> KDFID" where
  "ScryptKDF_ID k \<equiv> KDFScrypt"

abbreviation (input) ScryptKDF_MarshalParams :: "ScryptKDF \<Rightarrow> bytes" where
  "ScryptKDF_MarshalParams k \<equiv> [s_logN k] @ putU32 (s_r k) @ putU32 (s_p k)"

fun kdf_ID :: "kdfval \<Rightarrow> KDFID" where
  "kdf_ID (KArgon2id k) = KDFArgon2id"
| "kdf_ID (KScrypt k) = ScryptKDF_ID k"

fun kdf_MarshalParams :: "kdfval \<Rightarrow> bytes" where
  "kdf_MarshalParams (KArgon2id k) = putU32 (a_time k) @ putU32 (a_memoryKiB k) @ [a_threads k]"
| "kdf_MarshalParams (KScrypt k) = ScryptKDF_MarshalParams k"

section \<open>parseKDF\<close>

abbreviation (input) maxKDFMemBytes :: u64 where "maxKDFMemBytes \<equiv> 2147483648"
abbreviation (input) maxArgonTimeParam :: u32 where "maxArgonTimeParam \<equiv> 32"
abbreviation (input) maxArgonThreadsParam :: u8 where "maxArgonThreadsParam \<equiv> 16"
abbreviation (input) minArgonMemKiB :: u32 where "minArgonMemKiB \<equiv> 8"
abbreviation (input) minScryptLogN :: u8 where "minScryptLogN \<equiv> 1"
abbreviation (input) maxScryptLogN :: u8 where "maxScryptLogN \<equiv> 22"
abbreviation (input) maxScryptR :: u32 where "maxScryptR \<equiv> 32"
abbreviation (input) maxScryptP :: u32 where "maxScryptP \<equiv> 16"

definition getU32_at :: "bytes \<Rightarrow> nat \<Rightarrow> u32" where
  "getU32_at b i = getU32 (b ! i) (b ! (i + 1)) (b ! (i + 2)) (b ! (i + 3))"

definition parseKDF :: "KDFID \<Rightarrow> bytes \<Rightarrow> gerror + kdfval option" where
  "parseKDF kid params =
     (if kid = KDFNone then
        (if length params \<noteq> 0 then Inl [ErrKDFParams] else Inr None)
      else if kid = KDFArgon2id then
        (if length params \<noteq> 9 then Inl [ErrKDFParams]
         else
           let t = getU32_at params 0; mem = getU32_at params 4; threads = params ! 8 in
           if t < 1 \<or> t > maxArgonTimeParam then Inl [ErrKDFParams]
           else if mem < minArgonMemKiB \<or> (ucast mem :: u64) * 1024 > maxKDFMemBytes
             then Inl [ErrKDFParams]
           else if threads < 1 \<or> threads > maxArgonThreadsParam then Inl [ErrKDFParams]
           else Inr (Some (KArgon2id (NewArgon2idKDF t mem threads))))
      else if kid = KDFScrypt then
        (if length params \<noteq> 9 then Inl [ErrKDFParams]
         else
           let logN = params ! 0; r = getU32_at params 1; p = getU32_at params 5 in
           if logN < minScryptLogN \<or> logN > maxScryptLogN then Inl [ErrKDFParams]
           else if r < 1 \<or> r > maxScryptR then Inl [ErrKDFParams]
           else if p < 1 \<or> p > maxScryptP then Inl [ErrKDFParams]
           else if (128 :: u64) * push_bit (unat logN) 1 * ucast r > maxKDFMemBytes
             then Inl [ErrKDFParams]
           else Inr (Some (KScrypt (NewScryptKDF logN r p))))
      else Inl [ErrUnsupportedKDF])"

section \<open>The bounds, in unbounded arithmetic\<close>

text \<open>The working memory of a derivation in bytes, and the admissible parameters.\<close>

fun kdf_memory :: "kdfval \<Rightarrow> nat" where
  "kdf_memory (KArgon2id k) = unat (a_memoryKiB k) * 1024"
| "kdf_memory (KScrypt k) = 128 * 2 ^ unat (s_logN k) * unat (s_r k)"

fun kdf_bounded :: "kdfval \<Rightarrow> bool" where
  "kdf_bounded (KArgon2id k) \<longleftrightarrow>
     1 \<le> unat (a_time k) \<and> unat (a_time k) \<le> 32 \<and> 8 \<le> unat (a_memoryKiB k) \<and>
     1 \<le> unat (a_threads k) \<and> unat (a_threads k) \<le> 16 \<and> kdf_memory (KArgon2id k) \<le> 2 ^ 31"
| "kdf_bounded (KScrypt k) \<longleftrightarrow>
     1 \<le> unat (s_logN k) \<and> unat (s_logN k) \<le> 22 \<and> 1 \<le> unat (s_r k) \<and> unat (s_r k) \<le> 32 \<and>
     1 \<le> unat (s_p k) \<and> unat (s_p k) \<le> 16 \<and> kdf_memory (KScrypt k) \<le> 2 ^ 31"

lemma Suc_0_le_unat [simp]: "Suc 0 \<le> unat w \<longleftrightarrow> w \<noteq> 0"
  by (simp add: Suc_le_eq unat_gt_0)

lemma unat_ucast_u32_u64 [simp]: "unat (ucast (x :: u32) :: u64) = unat x"
proof -
  have "unat x < 2 ^ 64" using unsigned_less [of x, where ?'a = nat] by simp
  then show ?thesis by (simp add: unsigned_ucast_eq take_bit_nat_eq_self)
qed

text \<open>The \<open>uint64\<close> products of the code do not wrap.\<close>

lemma argon_memory_no_wrap:
  fixes mem :: u32
  shows "unat ((ucast mem :: u64) * 1024) = unat mem * 1024"
proof -
  have "unat mem < 2 ^ 32" using unsigned_less [of mem, where ?'a = nat] by simp
  then have "unat mem * 1024 < 2 ^ 64" by simp
  then show ?thesis by (simp add: unat_word_ariths)
qed

lemma scrypt_memory_no_wrap:
  fixes r :: u32
  assumes n: "n \<le> 22" and r: "unat r \<le> 32"
  shows "unat ((128 :: u64) * push_bit n 1 * ucast r) = 128 * 2 ^ n * unat r"
proof -
  have p: "(2::nat) ^ n \<le> 2 ^ 22" using n by (rule power_increasing) simp
  then have le: "128 * 2 ^ n * unat r \<le> 128 * 2 ^ 22 * 32"
    using r by (intro mult_le_mono) auto
  have "unat (push_bit n (1 :: u64)) = 2 ^ n"
  proof -
    have "push_bit n (1 :: u64) = word_of_nat (2 ^ n)" by (simp add: push_bit_eq_mult)
    moreover have "(2::nat) ^ n < 2 ^ 64" using p by simp
    ultimately show ?thesis by (simp only: unat_of_nat) simp
  qed
  then show ?thesis using le p
    by (simp add: unat_word_ariths)
qed

lemma maxKDFMem_compare: "\<not> (v > maxKDFMemBytes) \<longleftrightarrow> unat v \<le> 2 ^ 31"
  by (simp add: not_less word_le_nat_alt)

lemma kdf_bounded_argon_iff:
  "kdf_bounded (KArgon2id (NewArgon2idKDF t mem th)) \<longleftrightarrow>
     \<not> (t < 1 \<or> t > maxArgonTimeParam) \<and>
     \<not> (mem < minArgonMemKiB \<or> (ucast mem :: u64) * 1024 > maxKDFMemBytes) \<and>
     \<not> (th < 1 \<or> th > maxArgonThreadsParam)"
  unfolding de_Morgan_disj maxKDFMem_compare argon_memory_no_wrap
  by (auto simp: NewArgon2idKDF_def not_less word_le_nat_alt)

lemma kdf_bounded_scrypt_iff:
  "kdf_bounded (KScrypt (NewScryptKDF n r p)) \<longleftrightarrow>
     \<not> (n < minScryptLogN \<or> n > maxScryptLogN) \<and> \<not> (r < 1 \<or> r > maxScryptR) \<and>
     \<not> (p < 1 \<or> p > maxScryptP) \<and>
     \<not> ((128 :: u64) * push_bit (unat n) 1 * ucast r > maxKDFMemBytes)"
proof (cases "unat n \<le> 22 \<and> unat r \<le> 32")
  case True
  then show ?thesis
    unfolding de_Morgan_disj maxKDFMem_compare
    using scrypt_memory_no_wrap [of "unat n" r]
    by (auto simp: NewScryptKDF_def not_less word_le_nat_alt)
next
  case False
  then show ?thesis
    by (auto simp: NewScryptKDF_def not_less word_le_nat_alt)
qed

section \<open>Correctness of parseKDF\<close>

lemma getU32_at_putU32 [simp]:
  "getU32_at (putU32 v @ xs) 0 = v"
  "getU32_at (a # putU32 v @ xs) (Suc 0) = v"
  by (simp_all add: getU32_at_def putU32_def numeral_2_eq_2 numeral_3_eq_3)

lemma getU32_at_putU32_second [simp]:
  "getU32_at (putU32 u @ putU32 v @ xs) 4 = v"
  "getU32_at (a # putU32 u @ putU32 v) 5 = v"
  by (simp_all add: getU32_at_def putU32_def)

lemma parseKDF_none: "parseKDF KDFNone params = (if params = [] then Inr None else Inl [ErrKDFParams])"
  by (simp add: parseKDF_def)

lemma parseKDF_MarshalParams:
  "parseKDF (kdf_ID k) (kdf_MarshalParams k) =
     (if kdf_bounded k then Inr (Some k) else Inl [ErrKDFParams])"
proof (cases k)
  case (KArgon2id a)
  obtain t m th where a: "a = NewArgon2idKDF t m th"
    by (cases a) (auto simp: NewArgon2idKDF_def)
  have "params ! 8 = th" if "params = putU32 t @ putU32 m @ [th]" for params
    using that by (simp add: putU32_def)
  then show ?thesis
    unfolding KArgon2id a kdf_bounded_argon_iff
    by (simp add: parseKDF_def Let_def NewArgon2idKDF_def)
next
  case (KScrypt s)
  obtain n r p where s: "s = NewScryptKDF n r p"
    by (cases s) (auto simp: NewScryptKDF_def)
  show ?thesis
    unfolding KScrypt s kdf_bounded_scrypt_iff
    by (simp add: parseKDF_def Let_def NewScryptKDF_def)
qed

text \<open>Nine bytes are the serialisation of what is read from them.\<close>

lemma nine_bytes_argon:
  "length b = 9 \<Longrightarrow> putU32 (getU32_at b 0) @ putU32 (getU32_at b 4) @ [b ! 8] = b"
  by (rule nth_equalityI) (auto simp: getU32_at_def nth_append nth_Cons' less_Suc_eq numeral_eq_Suc)

lemma nine_bytes_scrypt:
  "length b = 9 \<Longrightarrow> [b ! 0] @ putU32 (getU32_at b 1) @ putU32 (getU32_at b 5) = b"
  by (rule nth_equalityI) (auto simp: getU32_at_def nth_append nth_Cons' less_Suc_eq numeral_eq_Suc)

lemma parseKDF_Some:
  assumes "parseKDF kid params = Inr (Some k)"
  shows "kid = kdf_ID k \<and> params = kdf_MarshalParams k \<and> kdf_bounded k"
proof -
  from assms consider
      "kid = KDFArgon2id" "length params = 9"
      "k = KArgon2id (NewArgon2idKDF (getU32_at params 0) (getU32_at params 4) (params ! 8))"
    | "kid = KDFScrypt" "length params = 9"
      "k = KScrypt (NewScryptKDF (params ! 0) (getU32_at params 1) (getU32_at params 5))"
    by (auto simp: parseKDF_def Let_def split: if_splits)
  then have idp: "kid = kdf_ID k \<and> params = kdf_MarshalParams k"
    by cases (auto simp: NewArgon2idKDF_def NewScryptKDF_def nine_bytes_argon
        nine_bytes_scrypt [simplified])
  with assms have "kdf_bounded k"
    using parseKDF_MarshalParams [of k] by (auto split: if_splits)
  with idp show ?thesis by simp
qed

text \<open>What \<open>parseKDF\<close> accepts is exactly the serialisation of admissible parameters.\<close>

lemma parseKDF_Some_iff:
  "parseKDF kid params = Inr (Some k) \<longleftrightarrow>
     kid = kdf_ID k \<and> params = kdf_MarshalParams k \<and> kdf_bounded k"
  using parseKDF_Some [of kid params k] parseKDF_MarshalParams [of k] by auto

lemma parseKDF_None_iff: "parseKDF kid params = Inr None \<longleftrightarrow> kid = KDFNone \<and> params = []"
  by (auto simp: parseKDF_def Let_def split: if_splits)

lemma parseKDF_error:
  "parseKDF kid params = Inl e \<Longrightarrow> e = [ErrKDFParams] \<or> e = [ErrUnsupportedKDF]"
  by (auto simp: parseKDF_def Let_def split: if_splits)

lemma length_kdf_MarshalParams [simp]: "length (kdf_MarshalParams k) = 9"
  by (cases k) auto

lemma kdf_ID_not_none [simp]: "kdf_ID k \<noteq> KDFNone"
  by (cases k) auto

section \<open>Properties\<close>

text \<open>
  C19. A KDF is read from a slot exactly when the stored bytes are the encoding of its parameters
  and these are within the bounds: Argon2id with 1 to 32 passes, 1 to 16 threads and at least
  8 KiB, scrypt with cost exponent 1 to 22, block size 1 to 32 and parallelism 1 to 16, and in
  both cases at most 2 GiB of memory, computed without overflow. A file cannot demand more.
\<close>

theorem parseKDF_exact:
  "parseKDF kid params = Inr (Some k) \<longleftrightarrow>
     kid = kdf_ID k \<and> params = kdf_MarshalParams k \<and> kdf_bounded k"
  by (rule parseKDF_Some_iff)

end
