(* ===== verification/Wire.thy ===== *)
theory Wire
  imports Kdf_Params
begin

text \<open>
  The wire format of \<open>envelope.go\<close>: \<open>Slot\<close>, \<open>Envelope\<close>, \<open>marshalMeta\<close>, \<open>Marshal\<close>, \<open>parseSlot\<close>,
  \<open>validateSlotShape\<close> and \<open>ParseEnvelope\<close>. The lemmas characterise the accepted byte strings
  exactly: \<open>ParseEnvelope b = Inr e\<close> if and only if \<open>e\<close> is admissible (\<open>envOk\<close>) and \<open>b\<close> is its
  canonical encoding (\<open>envBytes\<close>).
\<close>

section \<open>Slots and envelopes\<close>

text \<open>
  The arrays \<open>[8]byte\<close>, \<open>[16]byte\<close> and \<open>[12]byte\<close> are byte lists whose length is fixed by Go's
  type (\<open>slotTyped\<close>); the unexported \<open>meta\<close> is \<open>None\<close> for Go's \<open>nil\<close>.
\<close>

record slot =
  sType :: MethodType
  sID :: bytes
  sFlags :: u8
  sAEADID :: AEADID
  sKDFID :: KDFID
  sYKSlot :: u8
  sKDFParams :: bytes
  sKDFSalt :: bytes
  sChalSalt :: bytes
  sHKDFSalt :: bytes
  sChallenge :: bytes
  sLabel :: bytes
  sNonce :: bytes
  sWrapped :: bytes
  smeta :: "bytes option"

record envelope =
  eversion :: u8
  epolicyHint :: Policy
  eslots :: "slot list"

definition magic :: bytes where
  "magic = [84, 77, 66, 76]"

abbreviation (input) maxEnvelopeLen :: nat where "maxEnvelopeLen \<equiv> 1048576"
abbreviation (input) maxSlotCount :: nat where "maxSlotCount \<equiv> 64"
abbreviation (input) headerLen :: nat where "headerLen \<equiv> 8"
abbreviation (input) slotFixedLen :: nat where "slotFixedLen \<equiv> 13"
abbreviation (input) maxChallengeLen :: nat where "maxChallengeLen \<equiv> 64"
abbreviation (input) maxLabelLen :: nat where "maxLabelLen \<equiv> 256"
abbreviation (input) maxSaltLen :: nat where "maxSaltLen \<equiv> 64"
abbreviation (input) maxKDFParamsLen :: nat where "maxKDFParamsLen \<equiv> 64"
abbreviation (input) maxWrappedLen :: nat where "maxWrappedLen \<equiv> 256"
abbreviation (input) hkdfSaltLen :: nat where "hkdfSaltLen \<equiv> 16"
abbreviation (input) nonceLen :: nat where "nonceLen \<equiv> 12"
abbreviation (input) slotIDLen :: nat where "slotIDLen \<equiv> 8"

definition Version :: "envelope \<Rightarrow> u8" where
  "Version e = eversion e"

definition SlotCount :: "envelope \<Rightarrow> nat" where
  "SlotCount e = length (eslots e)"

section \<open>Marshalling\<close>

text \<open>The append sequence of \<open>marshalMeta\<close>.\<close>

definition metaBytes :: "slot \<Rightarrow> bytes" where
  "metaBytes s =
     (let b = [];
          b = b @ [sType s];
          b = b @ sID s;
          b = b @ [sFlags s, sAEADID s, sKDFID s, sYKSlot s];
          b = appendU16Bytes b (sKDFParams s);
          b = appendU16Bytes b (sKDFSalt s);
          b = appendU16Bytes b (sChalSalt s);
          b = b @ sHKDFSalt s;
          b = appendU16Bytes b (sChallenge s);
          b = appendU16Bytes b (sLabel s);
          b = b @ sNonce s
      in b)"

definition marshalMeta :: "slot \<Rightarrow> gerror + bytes" where
  "marshalMeta s =
     (if \<not> MethodType_valid (sType s) then Inl [ErrMalformed]
      else if sAEADID s \<noteq> AEADChaCha20Poly1305 then Inl [ErrUnsupportedAEAD]
      else if length (sKDFParams s) > maxKDFParamsLen then Inl [ErrMalformed]
      else if length (sKDFSalt s) > maxSaltLen \<or> length (sChalSalt s) > maxSaltLen
        then Inl [ErrMalformed]
      else if length (sChallenge s) > maxChallengeLen then Inl [ErrMalformed]
      else if length (sLabel s) > maxLabelLen then Inl [ErrMalformed]
      else Inr (metaBytes s))"

text \<open>The loop of \<open>Marshal\<close>, with \<open>out\<close> the bytes written so far.\<close>

fun marshalSlots :: "bytes \<Rightarrow> slot list \<Rightarrow> gerror + bytes" where
  "marshalSlots out [] = Inr out"
| "marshalSlots out (s # ss) =
     (if length (sWrapped s) = 0 \<or> length (sWrapped s) > maxWrappedLen then Inl [ErrMalformed]
      else
        case (case smeta s of None \<Rightarrow> marshalMeta s | Some m \<Rightarrow> Inr m) of
          Inl e \<Rightarrow> Inl e
        | Inr meta \<Rightarrow>
            let body = meta @ sWrapped s;
                out = out @ putU32 (word_of_nat (length body)) @ body
            in if length out > maxEnvelopeLen then Inl [ErrMalformed] else marshalSlots out ss)"

definition Marshal :: "envelope \<Rightarrow> gerror + bytes" where
  "Marshal e =
     (if length (eslots e) = 0 then Inl [ErrMalformed]
      else if length (eslots e) > maxSlotCount then Inl [ErrMalformed]
      else
        let out = magic @ [eversion e, epolicyHint e];
            out = out @ putU16 (word_of_nat (length (eslots e)))
        in marshalSlots out (eslots e))"

section \<open>Parsing\<close>

definition validateSlotShape :: "slot \<Rightarrow> gerror + unit" where
  "validateSlotShape s =
     (if (sType s = MethodPassword \<or> sType s = MethodPasswordAndYubiKey) \<and> sKDFID s = KDFNone
        then Inl [ErrMalformed]
      else if (sType s = MethodYubiKey \<or> sType s = MethodRecovery) \<and> sKDFID s \<noteq> KDFNone
        then Inl [ErrMalformed]
      else case parseKDF (sKDFID s) (sKDFParams s) of Inl e \<Rightarrow> Inl e | Inr _ \<Rightarrow> Inr ())"

text \<open>The field-by-field decode of \<open>parseSlot\<close>, on the body's reader.\<close>

definition parseSlotFields :: "(reader, slot) go" where
  "parseSlotFields =
     bind reader_u8 (\<lambda>t.
     if \<not> MethodType_valid t then throw [ErrMalformed] else
     bind (reader_take (int slotIDLen)) (\<lambda>sid.
     bind reader_u8 (\<lambda>flags.
     bind reader_u8 (\<lambda>aeadID.
     if aeadID \<noteq> AEADChaCha20Poly1305 then throw [ErrUnsupportedAEAD] else
     bind reader_u8 (\<lambda>kdfID.
     bind reader_u8 (\<lambda>ykSlot.
     bind (reader_takeU16 maxKDFParamsLen) (\<lambda>kdfParams.
     bind (reader_takeU16 maxSaltLen) (\<lambda>kdfSalt.
     bind (reader_takeU16 maxSaltLen) (\<lambda>chalSalt.
     bind (reader_take (int hkdfSaltLen)) (\<lambda>hs.
     bind (reader_takeU16 maxChallengeLen) (\<lambda>challenge.
     bind (reader_takeU16 maxLabelLen) (\<lambda>label.
     bind (reader_take (int nonceLen)) (\<lambda>nn.
     ret \<lparr>sType = t, sID = sid, sFlags = flags, sAEADID = aeadID, sKDFID = kdfID,
          sYKSlot = ykSlot, sKDFParams = kdfParams, sKDFSalt = kdfSalt, sChalSalt = chalSalt,
          sHKDFSalt = hs, sChallenge = challenge, sLabel = label, sNonce = nn,
          sWrapped = [], smeta = None\<rparr>)))))))))))))"

definition parseSlot :: "(reader, slot) go" where
  "parseSlot =
     bind reader_u32 (\<lambda>bodyLen r.
       let n = unat bodyLen in
       if n < slotFixedLen \<or> n > maxEnvelopeLen then (Inl [ErrMalformed], r)
       else if roff r + n > length (rbuf r) then (Inl [ErrShortData], r)
       else
         let metaStart = roff r;
             body = \<lparr>rbuf = take (roff r + n) (rbuf r), roff = roff r\<rparr>
         in case parseSlotFields body of
              (Inl e, _) \<Rightarrow> (Inl e, r)
            | (Inr s, body) \<Rightarrow>
                let metaEnd = roff body;
                    s = s\<lparr>smeta := Some (take (metaEnd - metaStart) (drop metaStart (rbuf r)))\<rparr>;
                    wrapped = drop (roff body) (rbuf body)
                in if length wrapped < wrappedOverhead \<or> length wrapped > maxWrappedLen
                     then (Inl [ErrMalformed], r)
                   else
                     let s = s\<lparr>sWrapped := wrapped\<rparr> in
                     case validateSlotShape s of
                       Inl e \<Rightarrow> (Inl e, r)
                     | Inr _ \<Rightarrow> (Inr s, r\<lparr>roff := roff r + n\<rparr>))"

text \<open>The loop over the slots, with the slots parsed so far.\<close>

fun parseSlots :: "nat \<Rightarrow> slot list \<Rightarrow> (reader, slot list) go" where
  "parseSlots 0 slots = ret slots"
| "parseSlots (Suc n) slots = bind parseSlot (\<lambda>slot. parseSlots n (slots @ [slot]))"

definition ParseEnvelope :: "bytes \<Rightarrow> gerror + envelope" where
  "ParseEnvelope b =
     (if length b > maxEnvelopeLen then Inl [ErrMalformed]
      else if length b < headerLen then Inl [ErrShortData]
      else if b ! 0 \<noteq> magic ! 0 \<or> b ! 1 \<noteq> magic ! 1 \<or> b ! 2 \<noteq> magic ! 2 \<or> b ! 3 \<noteq> magic ! 3
        then Inl [ErrBadMagic]
      else if b ! 4 \<noteq> FormatVersion then Inl [ErrBadVersion]
      else
        let policy = b ! 5; slotCount = getU16 (b ! 6) (b ! 7) in
        if slotCount = 0 \<or> unat slotCount > maxSlotCount then Inl [ErrMalformed]
        else
          case parseSlots (unat slotCount) [] \<lparr>rbuf = b, roff = headerLen\<rparr> of
            (Inl e, _) \<Rightarrow> Inl e
          | (Inr slots, r) \<Rightarrow>
              if roff r \<noteq> length b then Inl [ErrMalformed]
              else Inr \<lparr>eversion = b ! 4, epolicyHint = policy, eslots = slots\<rparr>)"

section \<open>Admissible metadata\<close>

definition slotTyped :: "slot \<Rightarrow> bool" where
  "slotTyped s \<longleftrightarrow> length (sID s) = slotIDLen \<and> length (sHKDFSalt s) = hkdfSaltLen \<and>
     length (sNonce s) = nonceLen"

definition metaFieldsOk :: "slot \<Rightarrow> bool" where
  "metaFieldsOk s \<longleftrightarrow> MethodType_valid (sType s) \<and> sAEADID s = AEADChaCha20Poly1305 \<and>
     length (sKDFParams s) \<le> maxKDFParamsLen \<and> length (sKDFSalt s) \<le> maxSaltLen \<and>
     length (sChalSalt s) \<le> maxSaltLen \<and> length (sChallenge s) \<le> maxChallengeLen \<and>
     length (sLabel s) \<le> maxLabelLen"

lemma marshalMeta_Inr_iff: "marshalMeta s = Inr b \<longleftrightarrow> metaFieldsOk s \<and> b = metaBytes s"
  by (auto simp: marshalMeta_def metaFieldsOk_def not_less)

lemma marshalMeta_error:
  "marshalMeta s = Inl e \<Longrightarrow> e = [ErrMalformed] \<or> e = [ErrUnsupportedAEAD]"
  by (auto simp: marshalMeta_def split: if_splits)

lemma metaBytes_fields:
  "metaBytes s =
     [sType s] @ sID s @ [sFlags s] @ [sAEADID s] @ [sKDFID s] @ [sYKSlot s] @
     appendU16Bytes [] (sKDFParams s) @ appendU16Bytes [] (sKDFSalt s) @
     appendU16Bytes [] (sChalSalt s) @ sHKDFSalt s @ appendU16Bytes [] (sChallenge s) @
     appendU16Bytes [] (sLabel s) @ sNonce s"
  by (simp add: metaBytes_def Let_def appendU16Bytes_def)

lemma metaBytes_update [simp]:
  "metaBytes (s\<lparr>smeta := m\<rparr>) = metaBytes s" "metaBytes (s\<lparr>sWrapped := w\<rparr>) = metaBytes s"
  by (simp_all add: metaBytes_def)

lemma metaFieldsOk_update [simp]:
  "metaFieldsOk (s\<lparr>smeta := m\<rparr>) = metaFieldsOk s"
  "metaFieldsOk (s\<lparr>sWrapped := w\<rparr>) = metaFieldsOk s"
  by (simp_all add: metaFieldsOk_def)

lemma slotTyped_update [simp]:
  "slotTyped (s\<lparr>smeta := m\<rparr>) = slotTyped s" "slotTyped (s\<lparr>sWrapped := w\<rparr>) = slotTyped s"
  by (simp_all add: slotTyped_def)

lemma length_metaBytes:
  "slotTyped s \<Longrightarrow> length (metaBytes s) =
     51 + length (sKDFParams s) + length (sKDFSalt s) + length (sChalSalt s) +
     length (sChallenge s) + length (sLabel s)"
  by (simp add: metaBytes_fields slotTyped_def)

lemma length_metaBytes_bound:
  "slotTyped s \<Longrightarrow> metaFieldsOk s \<Longrightarrow> 51 \<le> length (metaBytes s) \<and> length (metaBytes s) \<le> 563"
  by (auto simp: length_metaBytes metaFieldsOk_def)

lemma decoder_parseSlotFields:
  "decoder parseSlotFields
     (\<lambda>s c. slotTyped s \<and> metaFieldsOk s \<and> sWrapped s = [] \<and> smeta s = None \<and> c = metaBytes s)"
  unfolding parseSlotFields_def
  apply (rule decoder_cong, (rule decoders)+)
  subgoal for x c by (cases x) (auto simp: metaBytes_fields slotTyped_def metaFieldsOk_def)
  done

interpretation fields: decoder parseSlotFields
  "\<lambda>s c. slotTyped s \<and> metaFieldsOk s \<and> sWrapped s = [] \<and> smeta s = None \<and> c = metaBytes s"
  by (rule decoder_parseSlotFields)

section \<open>Admissible slots and their encoding\<close>

text \<open>
  \<open>slotOk\<close>: what a slot has to satisfy to be read back; \<open>slotBytes\<close>: its encoding.
\<close>

definition slotOk :: "slot \<Rightarrow> bool" where
  "slotOk s \<longleftrightarrow> slotTyped s \<and> metaFieldsOk s \<and> smeta s = Some (metaBytes s) \<and>
     wrappedOverhead \<le> length (sWrapped s) \<and> length (sWrapped s) \<le> maxWrappedLen \<and>
     validateSlotShape s = Inr ()"

definition slotBody :: "slot \<Rightarrow> bytes" where
  "slotBody s = metaBytes s @ sWrapped s"

definition slotBytes :: "slot \<Rightarrow> bytes" where
  "slotBytes s = putU32 (word_of_nat (length (slotBody s))) @ slotBody s"

lemma slotOk_metaFieldsOk: "slotOk s \<Longrightarrow> slotTyped s \<and> metaFieldsOk s"
  by (simp add: slotOk_def)

lemma length_slotBody_bound:
  "slotOk s \<Longrightarrow> 67 \<le> length (slotBody s) \<and> length (slotBody s) \<le> 819"
  using length_metaBytes_bound [of s] by (auto simp: slotOk_def slotBody_def)

lemma length_slotBytes: "length (slotBytes s) = 4 + length (slotBody s)"
  by (simp add: slotBytes_def)

lemma unat_length_slotBody [simp]:
  "slotOk s \<Longrightarrow> unat (word_of_nat (length (slotBody s)) :: u32) = length (slotBody s)"
  using length_slotBody_bound [of s] by (simp add: unat_of_nat)

lemma validateSlotShape_update [simp]:
  "validateSlotShape (s\<lparr>smeta := m\<rparr>) = validateSlotShape s"
  "validateSlotShape (s\<lparr>sWrapped := w\<rparr>) = validateSlotShape s"
  by (simp_all add: validateSlotShape_def)

text \<open>The slot's body, read from a reader that ends with it.\<close>

lemma parseSlot_complete:
  assumes r: "at r (slotBytes s @ p)" and s: "slotOk s"
  shows "parseSlot r = (Inr s, adv r (length (slotBytes s)))"
proof -
  let ?n = "length (slotBody s)" and ?v = "word_of_nat (length (slotBody s)) :: u32"
  let ?s0 = "s\<lparr>sWrapped := [], smeta := None\<rparr>"
  have a: "at r (putU32 ?v @ (slotBody s @ p))" using r by (simp add: slotBytes_def)
  have v: "reader_u32 r = (Inr ?v, adv r 4)" using u32.complete [OF a] by simp
  have b: "at (adv r 4) (slotBody s @ p)" using at_adv [OF a] by simp
  let ?body = "\<lparr>rbuf = take (roff (adv r 4) + ?n) (rbuf (adv r 4)), roff = roff (adv r 4)\<rparr>"
  from b have body: "at ?body (metaBytes ?s0 @ sWrapped s)"
    by (auto simp: at_def slotBody_def drop_take)
  have "slotTyped ?s0 \<and> metaFieldsOk ?s0" using slotOk_metaFieldsOk [OF s] by simp
  then have f: "parseSlotFields ?body = (Inr ?s0, adv ?body (length (metaBytes s)))"
    using fields.complete [OF body, of ?s0] by simp
  have w: "drop (roff (adv ?body (length (metaBytes s)))) (rbuf (adv ?body (length (metaBytes s))))
      = sWrapped s"
    using at_adv [OF body] by (simp add: at_def)
  have m: "take (length (metaBytes s)) (drop (roff (adv r 4)) (rbuf (adv r 4))) = metaBytes s"
    using b by (simp add: at_def slotBody_def)
  have len: "\<not> length (rbuf (adv r 4)) < roff (adv r 4) + ?n"
    using at_length [OF b] by simp
  have meta: "smeta s = Some (metaBytes s)" and wl: "\<not> length (sWrapped s) < 16"
    "\<not> 256 < length (sWrapped s)" "validateSlotShape s = Inr ()"
    using s by (auto simp: slotOk_def)
  have same: "?s0\<lparr>smeta := Some (metaBytes s)\<rparr>\<lparr>sWrapped := sWrapped s\<rparr> = s"
    using meta by (cases s) simp
  have wlen: "length (slotBody s) - length (metaBytes s) = length (sWrapped s)"
    by (simp add: slotBody_def)
  show ?thesis
    using length_slotBody_bound [OF s] len s f w m wl same wlen
    by (simp add: parseSlot_def bind_Inr [of reader_u32, OF v] Let_def length_slotBytes) (simp add: adv_def)
qed

lemma parseSlot_sound:
  assumes r: "at r t" and d: "parseSlot r = (Inr s, r')"
  shows "\<exists>p. t = slotBytes s @ p \<and> slotOk s \<and> r' = adv r (length (slotBytes s))"
proof -
  from d obtain v u where v: "reader_u32 r = (Inr v, u)"
    unfolding parseSlot_def by (rule bind_Inr_cases)
  from u32.sound [OF r v] obtain p0 where p0: "t = putU32 v @ p0" "u = adv r 4" by auto
  from r p0 have u: "at u p0" using at_adv [of r "putU32 v" p0] by simp
  let ?n = "unat v"
  let ?body = "\<lparr>rbuf = take (roff u + ?n) (rbuf u), roff = roff u\<rparr>"
  from d v obtain s0 b where n: "13 \<le> ?n" and le: "roff u + ?n \<le> length (rbuf u)"
    and f: "parseSlotFields ?body = (Inr s0, b)"
    and w: "16 \<le> length (drop (roff b) (rbuf b))" "length (drop (roff b) (rbuf b)) \<le> 256"
    and s: "s = s0\<lparr>smeta := Some (take (roff b - roff u) (drop (roff u) (rbuf u))),
                  sWrapped := drop (roff b) (rbuf b)\<rparr>"
    and shape: "validateSlotShape s = Inr ()" and r': "r' = u\<lparr>roff := roff u + ?n\<rparr>"
    by (auto simp: parseSlot_def bind_Inr Let_def not_less split: if_splits prod.splits sum.splits)
  from le u have body: "at ?body (take ?n p0)" and len: "?n \<le> length p0"
    using at_length [OF u] by (auto simp: at_def drop_take)
  from fields.sound [OF body f] obtain q where q: "take ?n p0 = metaBytes s0 @ q"
    "slotTyped s0" "metaFieldsOk s0" "b = adv ?body (length (metaBytes s0))" by auto
  from body q have bq: "at b q" using at_adv by auto
  then have wr: "drop (roff b) (rbuf b) = q" by (simp add: at_def)
  have p0_split: "p0 = metaBytes s0 @ q @ drop ?n p0"
    using q(1) by (metis append.assoc append_take_drop_id)
  have meta: "take (roff b - roff u) (drop (roff u) (rbuf u)) = metaBytes s0"
    using u q(4) p0_split by (auto simp: at_def adv_def)
  have s': "smeta s = Some (metaBytes s)" "sWrapped s = q" "slotTyped s" "metaFieldsOk s"
    "metaBytes s = metaBytes s0"
    unfolding s meta wr using q by simp_all
  then have ok: "slotOk s" using w shape by (simp add: slotOk_def wr)
  have nlen: "?n = length (slotBody s)"
    using q(1) s' len by (simp add: slotBody_def) (metis length_append length_take min.absorb2)
  then have "word_of_nat (length (slotBody s)) = v" by (metis of_nat_unat ucast_id)
  then have "t = slotBytes s @ drop ?n p0"
    using p0(1) p0_split s' by (simp add: slotBytes_def slotBody_def)
  moreover have "r' = adv r (length (slotBytes s))"
    using r' p0(2) nlen by (simp add: adv_def length_slotBytes)
  ultimately show ?thesis using ok by blast
qed

lemma parseSlot_short:
  assumes r: "at r t" and s: "slotOk s" and p: "strict_prefix t (slotBytes s)"
  shows "\<exists>r'. parseSlot r = (Inl [ErrShortData], r')"
  using p unfolding slotBytes_def
proof (cases rule: strict_prefix_append_cases)
  case left
  from u32.short [OF r refl left] show ?thesis by (auto simp: parseSlot_def bind_Inl)
next
  case (right t')
  let ?v = "word_of_nat (length (slotBody s)) :: u32"
  from r right(1) have a: "at r (putU32 ?v @ t')" by simp
  have v: "reader_u32 r = (Inr ?v, adv r 4)" using u32.complete [OF a refl] by simp
  have "length t' < length (slotBody s)" by (rule strict_prefix_length [OF right(2)])
  then have "length (rbuf (adv r 4)) < roff (adv r 4) + length (slotBody s)"
    using at_length [OF at_adv [OF a]] by (simp add: adv_def)
  then show ?thesis using length_slotBody_bound [OF s] s
    by (simp add: parseSlot_def bind_Inr [of reader_u32, OF v] Let_def)
qed

interpretation slotr: decoder parseSlot "\<lambda>s c. slotOk s \<and> c = slotBytes s"
  by unfold_locales (auto simp: parseSlot_complete dest: parseSlot_sound parseSlot_short)

lemma decoder_parseSlots:
  "decoder (parseSlots n acc)
     (\<lambda>ss c. \<exists>xs. ss = acc @ xs \<and> length xs = n \<and> (\<forall>s \<in> set xs. slotOk s) \<and>
        c = concat (map slotBytes xs))"
proof (induction n arbitrary: acc)
  case 0
  show ?case by (rule decoder_cong, simp only: parseSlots.simps, rule decoders) auto
next
  case (Suc n)
  show ?case
  proof (rule decoder_cong, simp only: parseSlots.simps, rule decoder_bind)
    show "decoder parseSlot (\<lambda>s c. slotOk s \<and> c = slotBytes s)" ..
  next
    fix x show "decoder (parseSlots n (acc @ [x]))
      (\<lambda>ss c. \<exists>xs. ss = (acc @ [x]) @ xs \<and> length xs = n \<and> (\<forall>s \<in> set xs. slotOk s) \<and>
        c = concat (map slotBytes xs))"
      by (rule Suc.IH)
  next
    fix ss c
    show "(\<exists>x c1 c2. (slotOk x \<and> c1 = slotBytes x) \<and>
        (\<exists>xs. ss = (acc @ [x]) @ xs \<and> length xs = n \<and> (\<forall>s \<in> set xs. slotOk s) \<and>
          c2 = concat (map slotBytes xs)) \<and> c = c1 @ c2) \<longleftrightarrow>
      (\<exists>xs. ss = acc @ xs \<and> length xs = Suc n \<and> (\<forall>s \<in> set xs. slotOk s) \<and>
        c = concat (map slotBytes xs))"
      by (fastforce simp: length_Suc_conv)
  qed
qed


section \<open>The envelope\<close>

definition envOk :: "envelope \<Rightarrow> bool" where
  "envOk e \<longleftrightarrow> eversion e = FormatVersion \<and> 1 \<le> length (eslots e) \<and>
     length (eslots e) \<le> maxSlotCount \<and> (\<forall>s \<in> set (eslots e). slotOk s)"

definition envHeader :: "envelope \<Rightarrow> bytes" where
  "envHeader e = magic @ [eversion e, epolicyHint e] @ putU16 (word_of_nat (length (eslots e)))"

definition envBytes :: "envelope \<Rightarrow> bytes" where
  "envBytes e = envHeader e @ concat (map slotBytes (eslots e))"

lemma length_envHeader [simp]: "length (envHeader e) = 8"
  by (simp add: envHeader_def magic_def)

lemma length_slots_bounds:
  "\<forall>s \<in> set ss. slotOk s \<Longrightarrow> 71 * length ss \<le> length (concat (map slotBytes ss)) \<and>
     length (concat (map slotBytes ss)) \<le> 823 * length ss"
proof (induction ss)
  case (Cons s ss)
  then show ?case using length_slotBody_bound [of s] by (auto simp: length_slotBytes)
qed simp

lemma length_envBytes_slots:
  "envOk e \<Longrightarrow> 8 + 71 * length (eslots e) \<le> length (envBytes e) \<and>
     length (envBytes e) \<le> 8 + 823 * length (eslots e)"
  using length_slots_bounds [of "eslots e"] by (simp add: envBytes_def envOk_def)

lemma length_envBytes_bound: "envOk e \<Longrightarrow> length (envBytes e) \<le> 52680"
  using length_envBytes_slots [of e] by (simp add: envOk_def)

lemma unat_slotCount:
  "length ss \<le> 64 \<Longrightarrow> unat (word_of_nat (length ss) :: u16) = length ss"
  by (simp add: unat_of_nat)

lemma eight_bytes:
  assumes "8 \<le> length b"
  obtains b0 b1 b2 b3 b4 b5 b6 b7 bs where "b = b0 # b1 # b2 # b3 # b4 # b5 # b6 # b7 # bs"
  using assms by (auto simp: numeral_eq_Suc Suc_le_length_iff)

text \<open>The header checks passed: what remains is the loop over the slots.\<close>

lemma ParseEnvelope_header:
  assumes "length (magic @ [FormatVersion, p] @ putU16 v @ bs) \<le> maxEnvelopeLen"
    and "1 \<le> unat v" and "unat v \<le> 64"
  shows "ParseEnvelope (magic @ [FormatVersion, p] @ putU16 v @ bs) =
    (case parseSlots (unat v) [] \<lparr>rbuf = magic @ [FormatVersion, p] @ putU16 v @ bs, roff = 8\<rparr> of
       (Inl e, _) \<Rightarrow> Inl e
     | (Inr slots, r) \<Rightarrow>
         if roff r \<noteq> 8 + length bs then Inl [ErrMalformed]
         else Inr \<lparr>eversion = FormatVersion, epolicyHint = p, eslots = slots\<rparr>)"
proof -
  have "v \<noteq> 0" using assms(2) by auto
  with assms show ?thesis
    by (simp add: ParseEnvelope_def magic_def putU16_def Let_def split: prod.split sum.split)
qed

lemma parseSlots_envBytes:
  assumes "envOk e"
  shows "parseSlots (length (eslots e)) [] \<lparr>rbuf = envBytes e @ x, roff = 8\<rparr> =
    (Inr (eslots e), \<lparr>rbuf = envBytes e @ x, roff = length (envBytes e)\<rparr>)"
proof -
  have a: "at \<lparr>rbuf = envBytes e @ x, roff = 8\<rparr> (concat (map slotBytes (eslots e)) @ x)"
    by (simp add: at_def envBytes_def)
  have "\<forall>s \<in> set (eslots e). slotOk s" using assms by (simp add: envOk_def)
  then show ?thesis
    using decoder.complete [OF decoder_parseSlots [of "length (eslots e)" "[]"] a, of "eslots e"]
    by (simp add: adv_def envBytes_def)
qed

lemma envBytes_header:
  "envOk e \<Longrightarrow> envBytes e @ x = magic @ [FormatVersion, epolicyHint e] @
     putU16 (word_of_nat (length (eslots e))) @ concat (map slotBytes (eslots e)) @ x"
  by (simp add: envBytes_def envHeader_def envOk_def)

text \<open>An encoding is parsed back; trailing bytes are refused.\<close>

lemma ParseEnvelope_envBytes_append:
  assumes e: "envOk e" and l: "length (envBytes e @ x) \<le> maxEnvelopeLen"
  shows "ParseEnvelope (envBytes e @ x) = (if x = [] then Inr e else Inl [ErrMalformed])"
proof -
  have n: "1 \<le> length (eslots e)" "length (eslots e) \<le> 64" "eversion e = FormatVersion"
    using e by (auto simp: envOk_def)
  note u = unat_slotCount [OF n(2)]
  have same: "\<lparr>eversion = FormatVersion, epolicyHint = epolicyHint e, eslots = eslots e\<rparr> = e"
    using n(3) by (cases e) simp
  have len: "length (envBytes e) = 8 + length (concat (map slotBytes (eslots e)))"
    by (simp add: envBytes_def)
  have "ParseEnvelope (envBytes e @ x) =
    (case parseSlots (length (eslots e)) [] \<lparr>rbuf = envBytes e @ x, roff = 8\<rparr> of
       (Inl e, _) \<Rightarrow> Inl e
     | (Inr slots, r) \<Rightarrow>
         if roff r \<noteq> 8 + length (concat (map slotBytes (eslots e)) @ x) then Inl [ErrMalformed]
         else Inr \<lparr>eversion = FormatVersion, epolicyHint = epolicyHint e, eslots = slots\<rparr>)"
    using ParseEnvelope_header [of "epolicyHint e" "word_of_nat (length (eslots e))"
        "concat (map slotBytes (eslots e)) @ x"] l n u
    unfolding envBytes_header [OF e] by simp
  also have "\<dots> = (if x = [] then Inr e else Inl [ErrMalformed])"
    by (simp add: parseSlots_envBytes [OF e] same len)
  finally show ?thesis .
qed

lemma ParseEnvelope_envBytes: "envOk e \<Longrightarrow> ParseEnvelope (envBytes e) = Inr e"
  using ParseEnvelope_envBytes_append [of e "[]"] length_envBytes_bound [of e] by simp

lemma ParseEnvelope_sound:
  assumes "ParseEnvelope b = Inr e"
  shows "envOk e \<and> b = envBytes e"
proof -
  from assms have len: "8 \<le> length b" "length b \<le> 1048576"
    by (auto simp: ParseEnvelope_def split: if_splits)
  from len(1) obtain b0 b1 b2 b3 b4 p b6 b7 bs
    where b: "b = b0 # b1 # b2 # b3 # b4 # p # b6 # b7 # bs" by (rule eight_bytes)
  let ?v = "getU16 b6 b7"
  from assms b have hd: "[b0, b1, b2, b3] = magic" "b4 = 1" "1 \<le> unat ?v" "unat ?v \<le> 64"
    by (auto simp: ParseEnvelope_def Let_def magic_def not_less split: if_splits prod.splits sum.splits)
  then have b': "b = magic @ [1, p] @ putU16 ?v @ bs" using b by simp
  from assms obtain slots r where
    ps: "parseSlots (unat ?v) [] \<lparr>rbuf = b, roff = 8\<rparr> = (Inr slots, r)"
    and r: "roff r = 8 + length bs"
    and e: "e = \<lparr>eversion = 1, epolicyHint = p, eslots = slots\<rparr>"
    unfolding b' using ParseEnvelope_header [of p ?v bs] hd(3,4) len(2)
    unfolding b' by (auto split: if_splits prod.splits sum.splits)
  have "at \<lparr>rbuf = b, roff = 8\<rparr> bs" using b by (simp add: at_def)
  from decoder.sound [OF decoder_parseSlots this ps]
  obtain q where q: "bs = concat (map slotBytes slots) @ q" "length slots = unat ?v"
    "\<forall>s \<in> set slots. slotOk s" "r = adv \<lparr>rbuf = b, roff = 8\<rparr> (length (concat (map slotBytes slots)))"
    by auto
  from q r have "q = []" by (auto simp: adv_def)
  moreover have "word_of_nat (length slots) = ?v" using q(2) by (metis of_nat_unat ucast_id)
  ultimately show ?thesis
    using q hd e b' by (auto simp: envOk_def envBytes_def envHeader_def)
qed

text \<open>The accepted byte strings are exactly the encodings of the admissible envelopes.\<close>

lemma ParseEnvelope_Inr_iff: "ParseEnvelope b = Inr e \<longleftrightarrow> envOk e \<and> b = envBytes e"
  using ParseEnvelope_sound ParseEnvelope_envBytes by blast

lemma ParseEnvelope_trailing:
  assumes e: "envOk e" and x: "x \<noteq> []"
  shows "ParseEnvelope (envBytes e @ x) = Inl [ErrMalformed]"
proof (cases "length (envBytes e @ x) \<le> 1048576")
  case True
  with ParseEnvelope_envBytes_append [OF e] x show ?thesis by simp
next
  case False
  then show ?thesis by (simp add: ParseEnvelope_def)
qed

lemma strict_prefix_take: "n < length b \<Longrightarrow> strict_prefix (take n b) b"
  by (metis length_take less_irrefl min.absorb4 strict_prefixI take_is_prefix)

lemma ParseEnvelope_truncated:
  assumes e: "envOk e" and n: "n < length (envBytes e)"
  shows "ParseEnvelope (take n (envBytes e)) = Inl [ErrShortData]"
proof (cases "n < 8")
  case True
  with n length_envBytes_bound [OF e] show ?thesis by (simp add: ParseEnvelope_def)
next
  case False
  let ?c = "concat (map slotBytes (eslots e))"
  let ?v = "word_of_nat (length (eslots e)) :: u16"
  have l: "1 \<le> length (eslots e)" "length (eslots e) \<le> 64" using e by (auto simp: envOk_def)
  note u = unat_slotCount [OF l(2)]
  have t: "take n (envBytes e) =
      magic @ [FormatVersion, epolicyHint e] @ putU16 ?v @ take (n - 8) ?c"
    using False envBytes_header [OF e, of "[]"]
    by (simp add: magic_def putU16_def) (auto simp: take_Cons' numeral_eq_Suc)
  have sp: "strict_prefix (take (n - 8) ?c) ?c"
    using False n by (intro strict_prefix_take) (simp add: envBytes_def)
  have a: "at \<lparr>rbuf = take n (envBytes e), roff = 8\<rparr> (take (n - 8) ?c)"
    unfolding t by (simp add: at_def magic_def putU16_def)
  have "\<exists>xs. eslots e = [] @ xs \<and> length xs = length (eslots e) \<and> (\<forall>s \<in> set xs. slotOk s) \<and>
      ?c = concat (map slotBytes xs)" using e by (auto simp: envOk_def)
  from decoder.short [OF decoder_parseSlots a this sp]
  obtain r' where "parseSlots (length (eslots e)) [] \<lparr>rbuf = take n (envBytes e), roff = 8\<rparr>
      = (Inl [ErrShortData], r')" by blast
  then show ?thesis
    using ParseEnvelope_header [of "epolicyHint e" ?v "take (n - 8) ?c"] l u
      length_envBytes_bound [OF e] n
    unfolding t [symmetric] by simp
qed

section \<open>Marshal\<close>

text \<open>The AAD of a slot: its stored metadata, else its freshly serialised metadata.\<close>

definition slotMeta :: "slot \<Rightarrow> gerror + bytes" where
  "slotMeta s = (case smeta s of None \<Rightarrow> marshalMeta s | Some m \<Rightarrow> Inr m)"

text \<open>The slot with its metadata captured, as \<open>parseSlot\<close> returns it.\<close>

definition sealMeta :: "slot \<Rightarrow> slot" where
  "sealMeta s = (case slotMeta s of Inl e \<Rightarrow> s | Inr m \<Rightarrow> s\<lparr>smeta := Some m\<rparr>)"

lemma slotMeta_sealMeta [simp]: "slotMeta (sealMeta s) = slotMeta s"
  by (auto simp: sealMeta_def slotMeta_def split: sum.splits option.splits)

lemma sWrapped_sealMeta [simp]: "sWrapped (sealMeta s) = sWrapped s"
  by (simp add: sealMeta_def split: sum.splits)

lemma marshalSlots_sealMeta: "marshalSlots out (map sealMeta ss) = marshalSlots out ss"
  by (induction ss arbitrary: out)
    (simp_all add: slotMeta_def [symmetric] Let_def split: sum.splits)

text \<open>
  What \<open>Marshal\<close> itself requires of a slot built in memory: its field bounds and a wrapped
  key of 1 to 256 bytes, but not the shape that \<open>validateSlotShape\<close> checks at parse.
\<close>

definition marshalable :: "slot \<Rightarrow> bool" where
  "marshalable s \<longleftrightarrow> slotTyped s \<and> metaFieldsOk s \<and>
     (smeta s = None \<or> smeta s = Some (metaBytes s)) \<and>
     1 \<le> length (sWrapped s) \<and> length (sWrapped s) \<le> maxWrappedLen"

lemma slotOk_marshalable: "slotOk s \<Longrightarrow> marshalable s"
  by (auto simp: slotOk_def marshalable_def)

lemma marshalable_slotMeta: "marshalable s \<Longrightarrow> slotMeta s = Inr (metaBytes s)"
  by (auto simp: marshalable_def slotMeta_def marshalMeta_Inr_iff)

lemma marshalable_sealMeta: "marshalable s \<Longrightarrow> sealMeta s = s\<lparr>smeta := Some (metaBytes s)\<rparr>"
  by (simp add: sealMeta_def marshalable_slotMeta)

lemma slotBytes_sealMeta: "marshalable s \<Longrightarrow> slotBytes (sealMeta s) = slotBytes s"
  by (simp add: marshalable_sealMeta slotBytes_def slotBody_def)

lemma length_concat_marshalable:
  "\<forall>s \<in> set ss. marshalable s \<Longrightarrow> length (concat (map slotBytes ss)) \<le> 823 * length ss"
proof (induction ss)
  case (Cons s ss)
  then have "length (slotBytes s) \<le> 823"
    using length_metaBytes_bound [of s]
    by (auto simp: marshalable_def slotBytes_def slotBody_def)
  with Cons show ?case by simp
qed simp

lemma marshalSlots_ok:
  assumes "\<forall>s \<in> set ss. marshalable s"
    and "length out + length (concat (map slotBytes ss)) \<le> 1048576"
  shows "marshalSlots out ss = Inr (out @ concat (map slotBytes ss))"
  using assms
proof (induction ss arbitrary: out)
  case (Cons s ss)
  then have m: "slotMeta s = Inr (metaBytes s)" and w: "\<not> length (sWrapped s) = 0"
    "\<not> length (sWrapped s) > 256"
    by (auto simp: marshalable_slotMeta marshalable_def)
  have "length (out @ slotBytes s) \<le> 1048576" using Cons.prems by simp
  moreover have "marshalSlots (out @ slotBytes s) ss = Inr ((out @ slotBytes s) @ concat (map slotBytes ss))"
    using Cons.prems by (intro Cons.IH) auto
  ultimately show ?case using m w
    by (simp add: slotMeta_def [symmetric] Let_def slotBytes_def [of s] slotBody_def [of s])
qed simp

lemma Marshal_marshalable:
  assumes "1 \<le> length (eslots e)" and n: "length (eslots e) \<le> maxSlotCount"
    and ss: "\<forall>s \<in> set (eslots e). marshalable s"
  shows "Marshal e = Inr (envBytes e)"
proof -
  have "length (envHeader e) + length (concat (map slotBytes (eslots e))) \<le> 1048576"
    using length_concat_marshalable [OF ss] n by simp
  with ss have "marshalSlots (envHeader e) (eslots e) = Inr (envBytes e)"
    unfolding envBytes_def by (intro marshalSlots_ok)
  with assms show ?thesis by (auto simp: Marshal_def Let_def envHeader_def)
qed

lemma Marshal_ok: "envOk e \<Longrightarrow> Marshal e = Inr (envBytes e)"
  by (rule Marshal_marshalable) (auto simp: envOk_def slotOk_marshalable)

definition sealEnv :: "envelope \<Rightarrow> envelope" where
  "sealEnv e = e\<lparr>eslots := map sealMeta (eslots e)\<rparr>"

lemma sealEnv_simps [simp]:
  "eversion (sealEnv e) = eversion e" "eslots (sealEnv e) = map sealMeta (eslots e)"
  by (simp_all add: sealEnv_def)

lemma Marshal_sealEnv: "Marshal (sealEnv e) = Marshal e"
  by (simp add: Marshal_def sealEnv_def marshalSlots_sealMeta Let_def)

lemma envBytes_sealEnv:
  "\<forall>s \<in> set (eslots e). marshalable s \<Longrightarrow> envBytes (sealEnv e) = envBytes e"
  by (simp add: envBytes_def envHeader_def sealEnv_def slotBytes_sealMeta cong: map_cong)

lemma slotOk_sealMeta_iff:
  "marshalable s \<Longrightarrow>
   slotOk (sealMeta s) \<longleftrightarrow> wrappedOverhead \<le> length (sWrapped s) \<and> validateSlotShape s = Inr ()"
  by (auto simp: marshalable_sealMeta slotOk_def marshalable_def)

lemma marshalSlots_length:
  "marshalSlots out ss = Inr b \<Longrightarrow> length out \<le> 1048576 \<Longrightarrow> length b \<le> 1048576"
proof (induction ss arbitrary: out)
  case (Cons s ss)
  then show ?case by (auto simp: Let_def split: if_splits sum.splits)
qed auto

lemma Marshal_length: "Marshal e = Inr b \<Longrightarrow> length b \<le> 1048576"
  by (auto simp: Marshal_def Let_def magic_def split: if_splits dest!: marshalSlots_length)

section \<open>The errors of the parser\<close>

definition parseErrors :: "gerror set" where
  "parseErrors = {[ErrBadMagic], [ErrBadVersion], [ErrShortData], [ErrMalformed],
     [ErrUnsupportedAEAD], [ErrKDFParams], [ErrUnsupportedKDF]}"

lemma failsWith_readers [fails]:
  "[ErrShortData] \<in> E \<Longrightarrow> failsWith E reader_u8"
  "[ErrShortData] \<in> E \<Longrightarrow> failsWith E reader_u16"
  "[ErrShortData] \<in> E \<Longrightarrow> failsWith E reader_u32"
  "[ErrShortData] \<in> E \<Longrightarrow> failsWith E (reader_take n)"
  by (auto simp: failsWith_def reader_u8_def reader_u16_def reader_u32_def reader_take_def
      split: if_splits)

lemma validateSlotShape_error: "validateSlotShape s = Inl e \<Longrightarrow> e \<in> parseErrors"
  by (auto simp: validateSlotShape_def parseErrors_def dest!: parseKDF_error
      split: if_splits sum.splits)

lemma failsWith_parseSlotFields: "failsWith parseErrors parseSlotFields"
  unfolding parseSlotFields_def reader_takeU16_def
  by (intro fails) (simp_all add: parseErrors_def)

lemma failsWith_parseSlot: "failsWith parseErrors parseSlot"
  unfolding parseSlot_def
proof (rule failsWith_bind)
  show "failsWith parseErrors reader_u32" by (intro fails) (simp add: parseErrors_def)
qed (use failsWith_parseSlotFields in \<open>auto simp: failsWith_def Let_def parseErrors_def
      split: if_splits prod.splits sum.splits dest!: validateSlotShape_error\<close>)

lemma failsWith_parseSlots: "failsWith parseErrors (parseSlots n ss)"
  by (induction n arbitrary: ss) (auto intro!: fails failsWith_parseSlot)

lemma ParseEnvelope_error: "ParseEnvelope b = Inl e \<Longrightarrow> e \<in> parseErrors"
  using failsWith_parseSlots
  by (fastforce simp: ParseEnvelope_def Let_def failsWith_def parseErrors_def
      split: if_splits prod.splits sum.splits)

section \<open>The golden file of the repository\<close>

text \<open>\<open>testdata/golden_v1.tmbl\<close>: a password slot and a recovery slot.\<close>

definition goldenFile :: bytes where
  "goldenFile =
     [84, 77, 66, 76, 1, 1, 0, 2, 0, 0, 0, 131, 1, 16, 17, 18, 19, 20, 21, 22, 23, 0, 1, 2, 0,
      0, 9, 10, 0, 0, 0, 8, 0, 0, 0, 1, 0, 16, 0, 1, 2, 3, 4, 5, 6, 7, 8, 9, 10, 11, 12, 13,
      14, 15, 0, 0, 24, 25, 26, 27, 28, 29, 30, 31, 32, 33, 34, 35, 36, 37, 38, 39, 0, 0, 0, 7,
      112, 114, 105, 109, 97, 114, 121, 40, 41, 42, 43, 44, 45, 46, 47, 48, 49, 50, 51, 90,
      203, 39, 94, 91, 62, 230, 81, 214, 38, 203, 128, 191, 175, 187, 74, 75, 134, 73, 243,
      168, 53, 186, 81, 25, 24, 98, 6, 123, 254, 10, 22, 86, 88, 181, 36, 83, 130, 42, 95, 250,
      144, 19, 229, 211, 179, 95, 39, 0, 0, 0, 112, 4, 84, 85, 86, 87, 88, 89, 90, 91, 0, 1, 0,
      0, 0, 0, 0, 0, 0, 0, 92, 93, 94, 95, 96, 97, 98, 99, 100, 101, 102, 103, 104, 105, 106,
      107, 0, 0, 0, 13, 114, 101, 99, 111, 118, 101, 114, 121, 45, 99, 111, 100, 101, 108, 109,
      110, 111, 112, 113, 114, 115, 116, 117, 118, 119, 181, 28, 71, 10, 133, 127, 147, 61,
      188, 166, 109, 151, 159, 136, 175, 67, 7, 56, 94, 202, 139, 140, 10, 194, 75, 239, 82,
      183, 51, 32, 29, 36, 75, 48, 41, 221, 75, 63, 100, 235, 29, 208, 7, 216, 144, 158, 100, 50]"

definition goldenPassword :: slot where
  "goldenPassword =
     \<lparr>sType = 1, sID = [16, 17, 18, 19, 20, 21, 22, 23], sFlags = 0, sAEADID = 1, sKDFID =
      2, sYKSlot = 0, sKDFParams = [10, 0, 0, 0, 8, 0, 0, 0, 1], sKDFSalt = [0, 1, 2, 3, 4, 5, 6,
      7, 8, 9, 10, 11, 12, 13, 14, 15], sChalSalt = [], sHKDFSalt = [24, 25, 26, 27, 28, 29, 30,
      31, 32, 33, 34, 35, 36, 37, 38, 39], sChallenge = [], sLabel = [112, 114, 105, 109, 97, 114,
      121], sNonce = [40, 41, 42, 43, 44, 45, 46, 47, 48, 49, 50, 51], sWrapped = [90, 203, 39,
      94, 91, 62, 230, 81, 214, 38, 203, 128, 191, 175, 187, 74, 75, 134, 73, 243, 168, 53, 186,
      81, 25, 24, 98, 6, 123, 254, 10, 22, 86, 88, 181, 36, 83, 130, 42, 95, 250, 144, 19, 229,
      211, 179, 95, 39], smeta = Some [1, 16, 17, 18, 19, 20, 21, 22, 23, 0, 1, 2, 0, 0, 9, 10, 0,
      0, 0, 8, 0, 0, 0, 1, 0, 16, 0, 1, 2, 3, 4, 5, 6, 7, 8, 9, 10, 11, 12, 13, 14, 15, 0, 0, 24,
      25, 26, 27, 28, 29, 30, 31, 32, 33, 34, 35, 36, 37, 38, 39, 0, 0, 0, 7, 112, 114, 105, 109,
      97, 114, 121, 40, 41, 42, 43, 44, 45, 46, 47, 48, 49, 50, 51]\<rparr>"

definition goldenRecovery :: slot where
  "goldenRecovery =
     \<lparr>sType = 4, sID = [84, 85, 86, 87, 88, 89, 90, 91], sFlags = 0, sAEADID = 1, sKDFID =
      0, sYKSlot = 0, sKDFParams = [], sKDFSalt = [], sChalSalt = [], sHKDFSalt = [92, 93, 94, 95,
      96, 97, 98, 99, 100, 101, 102, 103, 104, 105, 106, 107], sChallenge = [], sLabel = [114,
      101, 99, 111, 118, 101, 114, 121, 45, 99, 111, 100, 101], sNonce = [108, 109, 110, 111, 112,
      113, 114, 115, 116, 117, 118, 119], sWrapped = [181, 28, 71, 10, 133, 127, 147, 61, 188,
      166, 109, 151, 159, 136, 175, 67, 7, 56, 94, 202, 139, 140, 10, 194, 75, 239, 82, 183, 51,
      32, 29, 36, 75, 48, 41, 221, 75, 63, 100, 235, 29, 208, 7, 216, 144, 158, 100, 50], smeta =
      Some [4, 84, 85, 86, 87, 88, 89, 90, 91, 0, 1, 0, 0, 0, 0, 0, 0, 0, 0, 92, 93, 94, 95, 96,
      97, 98, 99, 100, 101, 102, 103, 104, 105, 106, 107, 0, 0, 0, 13, 114, 101, 99, 111, 118,
      101, 114, 121, 45, 99, 111, 100, 101, 108, 109, 110, 111, 112, 113, 114, 115, 116, 117, 118,
      119]\<rparr>"

definition goldenEnvelope :: envelope where
  "goldenEnvelope =
     \<lparr>eversion = FormatVersion, epolicyHint = PolicyPasswordOnly,
      eslots = [goldenPassword, goldenRecovery]\<rparr>"

lemma goldenPassword_ok: "slotOk goldenPassword"
  by (simp add: slotOk_def slotTyped_def metaFieldsOk_def MethodType_valid_def validateSlotShape_def
      goldenPassword_def metaBytes_def appendU16Bytes_def putU16_def Let_def parseKDF_def
      getU32_at_def getU32_def)

lemma goldenRecovery_ok: "slotOk goldenRecovery"
  by (simp add: slotOk_def slotTyped_def metaFieldsOk_def MethodType_valid_def validateSlotShape_def
      goldenRecovery_def metaBytes_def appendU16Bytes_def putU16_def Let_def parseKDF_def)

lemma golden_bytes: "envBytes goldenEnvelope = goldenFile"
  by (simp add: envBytes_def envHeader_def goldenEnvelope_def goldenFile_def magic_def putU16_def
      slotBytes_def slotBody_def putU32_def goldenPassword_def goldenRecovery_def
      metaBytes_def appendU16Bytes_def Let_def)

lemma golden_parse: "ParseEnvelope goldenFile = Inr goldenEnvelope"
  using goldenPassword_ok goldenRecovery_ok
  by (simp add: ParseEnvelope_Inr_iff golden_bytes envOk_def) (simp add: goldenEnvelope_def)

section \<open>Properties\<close>


text \<open>
  C23. Parse, then marshal: a parsed envelope is written back to the very bytes it was read from.
\<close>

theorem ParseEnvelope_Marshal:
  assumes "ParseEnvelope b = Inr e"
  shows "Marshal e = Inr b"
  using ParseEnvelope_sound [OF assms] by (auto intro: Marshal_ok)

theorem ParseEnvelope_Marshal_witness: "Marshal goldenEnvelope = Inr goldenFile"
  by (rule ParseEnvelope_Marshal) (rule golden_parse)

text \<open>
  C24. Marshal, then parse: an envelope built in memory with 1 to 64 slots whose fields fit is
  always written, and what is written is read back as the same envelope with each slot's metadata
  captured if and only if every wrapped key has its 16 bytes of tag and every slot has the KDF its
  method needs: \<open>Marshal\<close> itself checks neither.
\<close>

theorem Marshal_ParseEnvelope:
  assumes "eversion e = FormatVersion" and "1 \<le> SlotCount e" and "SlotCount e \<le> maxSlotCount"
    and "\<forall>s \<in> set (eslots e). marshalable s"
  shows "\<exists>b. Marshal e = Inr b \<and>
    (ParseEnvelope b = Inr (sealEnv e) \<longleftrightarrow>
       (\<forall>s \<in> set (eslots e). wrappedOverhead \<le> length (sWrapped s) \<and> validateSlotShape s = Inr ()))"
proof (intro exI conjI)
  show "Marshal e = Inr (envBytes e)"
    using assms by (simp add: Marshal_marshalable SlotCount_def)
  show "ParseEnvelope (envBytes e) = Inr (sealEnv e) \<longleftrightarrow>
       (\<forall>s \<in> set (eslots e). wrappedOverhead \<le> length (sWrapped s) \<and> validateSlotShape s = Inr ())"
    using assms envBytes_sealEnv [of e]
    by (auto simp: ParseEnvelope_Inr_iff envOk_def slotOk_sealMeta_iff SlotCount_def)
qed

theorem Marshal_ParseEnvelope_witness:
  "\<exists>b. Marshal goldenEnvelope = Inr b \<and> ParseEnvelope b = Inr (sealEnv goldenEnvelope)"
proof -
  have "slotOk goldenPassword" "slotOk goldenRecovery"
    by (rule goldenPassword_ok, rule goldenRecovery_ok)
  then show ?thesis
    using Marshal_ParseEnvelope [of goldenEnvelope]
    by (auto simp: goldenEnvelope_def SlotCount_def slotOk_marshalable slotOk_def [of goldenPassword]
        slotOk_def [of goldenRecovery])
qed

text \<open>
  C25. Every truncation of an accepted file is refused with \<open>ErrShortData\<close>, and every accepted
  file followed by anything is refused with \<open>ErrMalformed\<close>: no accepted file is a prefix of
  another.
\<close>

theorem ParseEnvelope_cut_or_extended:
  assumes "ParseEnvelope b = Inr e"
  shows "(\<forall>n < length b. ParseEnvelope (take n b) = Inl [ErrShortData]) \<and>
    (\<forall>x. x \<noteq> [] \<longrightarrow> ParseEnvelope (b @ x) = Inl [ErrMalformed])"
  using ParseEnvelope_sound [OF assms] by (auto intro: ParseEnvelope_truncated ParseEnvelope_trailing)

theorem ParseEnvelope_cut_or_extended_witness:
  "ParseEnvelope (take 258 goldenFile) = Inl [ErrShortData] \<and>
   ParseEnvelope (goldenFile @ [0]) = Inl [ErrMalformed]"
proof -
  have "length goldenFile = 259" by (simp add: goldenFile_def)
  with ParseEnvelope_cut_or_extended [OF golden_parse] show ?thesis by simp
qed


text \<open>
  An accepted file has 1 to 64 slots and between 71 and 823 bytes for each of them after its
  8-byte header, whatever lengths it claims; what \<open>Marshal\<close> writes never exceeds 1 MiB.
\<close>

lemma wire_sizes:
  "(ParseEnvelope b = Inr e \<longrightarrow> 1 \<le> SlotCount e \<and> SlotCount e \<le> 64 \<and>
      8 + 71 * SlotCount e \<le> length b \<and> length b \<le> 8 + 823 * SlotCount e) \<and>
   (Marshal e = Inr b \<longrightarrow> length b \<le> maxEnvelopeLen)"
  using length_envBytes_slots [of e] Marshal_length [of e b]
  by (auto simp: ParseEnvelope_Inr_iff envOk_def SlotCount_def)

lemma wire_sizes_example: "79 \<le> length goldenFile \<and> length goldenFile \<le> 1654"
  using wire_sizes [of goldenFile goldenEnvelope] golden_parse
  by (simp add: goldenEnvelope_def SlotCount_def)

text \<open>
  C16. Every metadata field is authenticated: the associated data of two slots is equal only when
  their type, id, flags, algorithms, YubiKey slot, KDF parameters, three salts, challenge, label and
  nonce are all equal.
\<close>

theorem marshalMeta_injective:
  assumes "marshalMeta s = Inr m" and "marshalMeta t = Inr m" and "slotTyped s" and "slotTyped t"
  shows "s\<lparr>sWrapped := sWrapped t, smeta := smeta t\<rparr> = t"
proof -
  let ?s = "s\<lparr>sWrapped := [], smeta := None\<rparr>" and ?t = "t\<lparr>sWrapped := [], smeta := None\<rparr>"
  have "?s = ?t"
    by (rule fields.injective [of _ m]) (use assms in \<open>simp_all add: marshalMeta_Inr_iff\<close>)
  then show ?thesis by (cases s, cases t) simp
qed

theorem marshalMeta_injective_witness:
  "marshalMeta goldenPassword \<noteq> marshalMeta (goldenPassword\<lparr>sFlags := 1\<rparr>)"
proof
  have m: "marshalMeta goldenPassword = Inr (metaBytes goldenPassword)" "slotTyped goldenPassword"
    using goldenPassword_ok by (simp_all add: slotOk_def marshalMeta_Inr_iff)
  assume "marshalMeta goldenPassword = marshalMeta (goldenPassword\<lparr>sFlags := 1\<rparr>)"
  with m have "marshalMeta (goldenPassword\<lparr>sFlags := 1\<rparr>) = Inr (metaBytes goldenPassword)" by simp
  from marshalMeta_injective [OF m(1) this m(2)] m(2) show False
    by (simp add: slotTyped_def goldenPassword_def)
qed

end
