(* ===== verification/Method.thy ===== *)
theory Method
  imports Combine Wire
begin

text \<open>
  \<open>method.go\<close> and \<open>GenerateDEK\<close> of \<open>tumbler.go\<close>: the options, the random source, wrapping a data key
  into a sealed slot (\<open>wrapDEK\<close>) and unwrapping it (\<open>unwrapDEK\<close>); and the interface \<open>Method\<close> with
  the contract (\<open>method_contract\<close>) by which the envelope operations use it.
\<close>

section \<open>Options\<close>

text \<open>\<open>moTouchAnnounce\<close> tells whether a callback is set.\<close>

record methodOptions =
  moLabel :: bytes
  moTouchAnnounce :: bool

type_synonym Option = "methodOptions \<Rightarrow> methodOptions"

definition WithLabel :: "bytes \<Rightarrow> Option" where
  "WithLabel lbl = (\<lambda>o'. o'\<lparr>moLabel := lbl\<rparr>)"

definition WithTouchAnnounce :: "bool \<Rightarrow> Option" where
  "WithTouchAnnounce fn = (\<lambda>o'. o'\<lparr>moTouchAnnounce := fn\<rparr>)"

definition applyOptions :: "bytes \<Rightarrow> Option list \<Rightarrow> methodOptions" where
  "applyOptions defaultLabel opts =
     foldl (\<lambda>o' fn. fn o') \<lparr>moLabel = defaultLabel, moTouchAnnounce = False\<rparr> opts"

section \<open>Randomness\<close>

definition randRead :: "environ \<Rightarrow> nat \<Rightarrow> bytes io" where
  "randRead X n =
     (\<lambda>w. let r = x_rand X (wlog w); w = w\<lparr>wlog := EvRand n # wlog w\<rparr> in
          (case r of Inl c \<Rightarrow> (Inl [External c], w) | Inr f \<Rightarrow> (Inr (map f [0..<n]), w)))"

text \<open>\<open>randFill\<close> of a slice or array of \<open>n\<close> bytes.\<close>

definition randFill :: "environ \<Rightarrow> nat \<Rightarrow> bytes io" where
  "randFill X n = randRead X n"

text \<open>\<open>make\<close> panics on a negative length.\<close>

definition randBytes :: "environ \<Rightarrow> int \<Rightarrow> bytes io" where
  "randBytes X n = (if n < 0 then throw [GoPanic] else randFill X (nat n))"

section \<open>Data keys\<close>

definition GenerateDEK :: "environ \<Rightarrow> int \<Rightarrow> sbptr io" where
  "GenerateDEK X sz =
     (if sz \<le> 0 \<or> sz > int maxDEKLen then throw [ErrDEKSize]
      else
        bind (sb_NewZero X sz) (\<lambda>dek.
        bind (onError (sb_Destroy X dek)
          (sb_Use dek (\<lambda>b.
             bind (load b) (\<lambda>old.
             bind (randRead X (length old)) (\<lambda>bs. store b bs))))) (\<lambda>_.
        ret dek)))"

section \<open>Wrapping and unwrapping\<close>

record slotShape =
  shmt :: MethodType
  shkdfID :: KDFID
  shkdfParams :: bytes
  shkdfSalt :: bytes
  shchalSalt :: bytes
  shchallenge :: bytes
  shykSlot :: u8
  shlabel :: bytes

definition wrapDEK :: "environ \<Rightarrow> sbptr \<Rightarrow> ikmInputs \<Rightarrow> slotShape \<Rightarrow> slot io" where
  "wrapDEK X dek inp sh =
     bind (randFill X slotIDLen) (\<lambda>sid.
     bind (randFill X hkdfSaltLen) (\<lambda>hs.
     bind (randFill X nonceLen) (\<lambda>nonce.
     let s = \<lparr>sType = shmt sh, sID = sid, sFlags = 0, sAEADID = AEADChaCha20Poly1305,
              sKDFID = shkdfID sh, sYKSlot = shykSlot sh, sKDFParams = shkdfParams sh,
              sKDFSalt = shkdfSalt sh, sChalSalt = shchalSalt sh, sHKDFSalt = hs,
              sChallenge = shchallenge sh, sLabel = shlabel sh, sNonce = nonce,
              sWrapped = [], smeta = None\<rparr> in
     bind (lift (marshalMeta s)) (\<lambda>meta.
     bind (deriveKEK X inp (sHKDFSalt s) FormatVersion (sType s) (sID s)) (\<lambda>kek.
     deferring (sb_Destroy X kek) (
       bind (seal X kek dek (sNonce s) meta) (\<lambda>wrapped.
       ret (s\<lparr>sWrapped := wrapped, smeta := Some meta\<rparr>))))))))"

definition unwrapDEK :: "environ \<Rightarrow> slot \<Rightarrow> ikmInputs \<Rightarrow> sbptr io" where
  "unwrapDEK X s inp =
     bind (deriveKEK X inp (sHKDFSalt s) FormatVersion (sType s) (sID s)) (\<lambda>kek.
     deferring (sb_Destroy X kek) (
       bind (lift (case smeta s of None \<Rightarrow> marshalMeta s | Some m \<Rightarrow> Inr m)) (\<lambda>meta.
       open_slot X kek (sNonce s) (sWrapped s) meta)))"

section \<open>Contracts\<close>

lemma act_randFill:
  assumes w: "wfw w"
  shows "act c (randFill X n) w (\<lambda>e. e \<in> faults X) (\<lambda>b w1 K D. K = {} \<and> D = {} \<and> length b = n)"
proof (cases "x_rand X (wlog w)")
  case (Inl e)
  then have "randFill X n w = (Inl [External e], w\<lparr>wlog := EvRand n # wlog w\<rparr>)"
    by (simp add: randFill_def randRead_def)
  moreover have "leaves w (w\<lparr>wlog := EvRand n # wlog w\<rparr>) {} {}"
    by (rule leaves_same [OF leaves_refl [OF w]]) (simp_all add: fakeCfg_def)
  ultimately show ?thesis using Inl by (auto simp: faults_def intro!: act_errI)
next
  case (Inr f)
  then have "randFill X n w = (Inr (map f [0..<n]), w\<lparr>wlog := EvRand n # wlog w\<rparr>)"
    by (simp add: randFill_def randRead_def)
  moreover have "leaves w (w\<lparr>wlog := EvRand n # wlog w\<rparr>) {} {}"
    by (rule leaves_same [OF leaves_refl [OF w]]) (simp_all add: fakeCfg_def)
  ultimately show ?thesis by (auto intro!: act_okI)
qed

lemma act_randBytes:
  assumes w: "wfw w" and E: "n < 0 \<Longrightarrow> Err [GoPanic]" "\<And>e. e \<in> faults X \<Longrightarrow> Err e"
  shows "act c (randBytes X n) w Err (\<lambda>b w1 K D. K = {} \<and> D = {} \<and> length b = nat n)"
proof (cases "n < 0")
  case True
  then show ?thesis using E(1) w by (auto simp: randBytes_def intro: act_throw)
next
  case False
  then show ?thesis using E(2) by (auto simp: randBytes_def intro: act_conseq [OF act_randFill [OF w]])
qed

text \<open>A slot that seals the data key \<open>d\<close> under the keying material \<open>ikm\<close>.\<close>

definition slotKEK :: "bytes \<Rightarrow> slot \<Rightarrow> bytes" where
  "slotKEK ikm s = kekOf ikm (sHKDFSalt s) (kekInfo FormatVersion (sType s) (sID s))"

definition sealedWith :: "environ \<Rightarrow> bytes \<Rightarrow> bytes \<Rightarrow> slot \<Rightarrow> bool" where
  "sealedWith X ikm d s \<longleftrightarrow>
     slotTyped s \<and> sFlags s = 0 \<and> marshalMeta s = Inr (metaBytes s) \<and> smeta s = Some (metaBytes s) \<and>
     sWrapped s = x_seal X (slotKEK ikm s) (sNonce s) d (metaBytes s)"

definition shaped :: "slotShape \<Rightarrow> slot \<Rightarrow> bool" where
  "shaped sh s \<longleftrightarrow>
     sType s = shmt sh \<and> sKDFID s = shkdfID sh \<and> sKDFParams s = shkdfParams sh \<and>
     sKDFSalt s = shkdfSalt sh \<and> sChalSalt s = shchalSalt sh \<and> sChallenge s = shchallenge sh \<and>
     sYKSlot s = shykSlot sh \<and> sLabel s = shlabel sh"

text \<open>The errors of \<open>wrapDEK\<close> besides the faults: a field too long, or a destroyed key.\<close>

definition shapeFits :: "slotShape \<Rightarrow> bool" where
  "shapeFits sh \<longleftrightarrow> MethodType_valid (shmt sh) \<and> length (shkdfParams sh) \<le> maxKDFParamsLen \<and>
     length (shkdfSalt sh) \<le> maxSaltLen \<and> length (shchalSalt sh) \<le> maxSaltLen \<and>
     length (shchallenge sh) \<le> maxChallengeLen \<and> length (shlabel sh) \<le> maxLabelLen"

definition wrapErr :: "environ \<Rightarrow> world \<Rightarrow> sbptr \<Rightarrow> ikmInputs \<Rightarrow> slotShape \<Rightarrow> gerror \<Rightarrow> bool" where
  "wrapErr X w dek inp sh e \<longleftrightarrow>
     e \<in> faults X \<or> e = [ErrMalformed] \<and> \<not> shapeFits sh \<or> ikmSpec w inp = Inl e \<or> contents w dek = Inl e"

lemma metaBytes_sealed [simp]: "metaBytes (s\<lparr>sWrapped := x, smeta := m\<rparr>) = metaBytes s"
  by (simp add: metaBytes_def)

lemma marshalMeta_sealed [simp]: "marshalMeta (s\<lparr>sWrapped := x, smeta := m\<rparr>) = marshalMeta s"
  by (simp add: marshalMeta_def)

lemma marshalMeta_Inr: "marshalMeta s = Inr m \<Longrightarrow> m = metaBytes s"
  by (auto simp: marshalMeta_def split: if_splits)

lemma wrapDEK_act:
  assumes w: "wfw w" and valid: "validInputs w inp" "validPtr w dek"
  shows "act True (wrapDEK X dek inp sh) w (wrapErr X w dek inp sh)
    (\<lambda>s w' K D. K = {} \<and> D = {} \<and> shaped sh s \<and>
       (\<exists>ikm d. ikmSpec w inp = Inr ikm \<and> contents w dek = Inr d \<and> sealedWith X ikm d s))"
  (is "act _ _ _ ?E ?Ok")
proof -
  have rnd: "act True (randFill X n) u ?E (\<lambda>b w1 K D. K = {} \<and> D = {} \<and> length b = n)"
    if "wfw u" for u n
    by (rule act_conseq [OF act_randFill [OF that]]) (auto simp: wrapErr_def)
  have tail: "act True (bind (lift (marshalMeta s)) (\<lambda>meta.
     bind (deriveKEK X inp (sHKDFSalt s) FormatVersion (sType s) (sID s)) (\<lambda>kek.
     deferring (sb_Destroy X kek) (bind (seal X kek dek (sNonce s) meta) (\<lambda>wrapped.
       ret (s\<lparr>sWrapped := wrapped, smeta := Some meta\<rparr>)))))) u ?E ?Ok"
    if u: "wfw u" and wu: "leaves w u {} {}" and s: "slotTyped s" "sFlags s = 0"
      "sAEADID s = AEADChaCha20Poly1305" "shaped sh s" for s u
  proof (rule act_bind [OF u, where P = "\<lambda>m u'. u' = u \<and> marshalMeta s = Inr m"])
    show "act True (lift (marshalMeta s)) u ?E (\<lambda>m u' K D. K = {} \<and> D = {} \<and> u' = u \<and> marshalMeta s = Inr m)"
      by (rule act_lift [OF u]) (use s in \<open>auto simp: wrapErr_def marshalMeta_def shapeFits_def shaped_def split: if_splits\<close>)
  next
    fix meta u' assume "u' = u \<and> marshalMeta s = Inr meta"
    then have u': "u' = u" and m: "meta = metaBytes s" "marshalMeta s = Inr (metaBytes s)"
      using marshalMeta_Inr by auto
    let ?info = "kekInfo FormatVersion (sType s) (sID s)"
    have vu: "validInputs u inp" using validInputs_leaves [OF wu valid(1)] .
    show "act True (bind (deriveKEK X inp (sHKDFSalt s) FormatVersion (sType s) (sID s)) (\<lambda>kek.
       deferring (sb_Destroy X kek) (bind (seal X kek dek (sNonce s) meta) (\<lambda>wrapped.
         ret (s\<lparr>sWrapped := wrapped, smeta := Some meta\<rparr>))))) u' ?E ?Ok"
      unfolding u'
    proof (rule act_scoped [OF u, where P = "\<lambda>v. kekSpec w inp (sHKDFSalt s) ?info = Inr v"])
      show "act True (deriveKEK X inp (sHKDFSalt s) FormatVersion (sType s) (sID s)) u ?E
          (\<lambda>p w1 K D. \<exists>i v. p = Some i \<and> K = {(i, v)} \<and> D = {} \<and>
             kekSpec w inp (sHKDFSalt s) ?info = Inr v)"
        by (rule act_conseq [OF deriveKEK_computes [OF u vu, of X, unfolded computes_def]])
          (auto simp: wrapErr_def kekSpec_def ikmSpec_stable [OF w wu valid(1)] split: sum.splits)
    next
      fix i v w1 assume w1: "wfw w1" "leaves u w1 {(i, v)} {}"
        and v: "kekSpec w inp (sHKDFSalt s) ?info = Inr v"
      from v obtain ikm where ikm: "ikmSpec w inp = Inr ikm" "v = slotKEK ikm s"
        by (auto simp: kekSpec_def slotKEK_def split: sum.splits)
      have c: "contents w1 (Some i) = Inr v" by (rule contents_new [OF w1(2)]) simp
      have d: "contents w1 dek = contents w dek"
        using contents_stable [OF u w1(2)] contents_stable [OF w wu] valid(2)
          validPtr_leaves [OF wu valid(2)] by simp
      have n: "length (sNonce s) = 12" using s by (simp add: slotTyped_def)
      have len: "length v = 32" using ikm by (simp add: slotKEK_def)
      show "act True (bind (seal X (Some i) dek (sNonce s) meta) (\<lambda>wrapped.
          ret (s\<lparr>sWrapped := wrapped, smeta := Some meta\<rparr>))) w1 ?E (\<lambda>x w2 K D. \<forall>w3. ?Ok x w3 K D)"
      proof (rule act_bind [OF w1(1), where P = "\<lambda>b w2. \<exists>d. contents w dek = Inr d \<and>
          b = x_seal X v (sNonce s) d meta"])
        show "act True (seal X (Some i) dek (sNonce s) meta) w1 ?E
          (\<lambda>b w2 K D. K = {} \<and> D = {} \<and> (\<exists>d. contents w dek = Inr d \<and> b = x_seal X v (sNonce s) d meta))"
          by (rule act_conseq [OF seal_act [OF w1(1) c len n]]) (auto simp: wrapErr_def d)
      next
        fix b w2 assume "wfw w2" "\<exists>d. contents w dek = Inr d \<and> b = x_seal X v (sNonce s) d meta"
        then show "act True (ret (s\<lparr>sWrapped := b, smeta := Some meta\<rparr>)) w2 ?E (\<lambda>x w2 K D. \<forall>w3. ?Ok x w3 K D)"
          using ikm m s by (auto simp: sealedWith_def slotTyped_def shaped_def slotKEK_def intro!: act_ret)
      qed
    qed
  qed
  show ?thesis
    unfolding wrapDEK_def Let_def
    apply (rule act_bind [OF w, where P = "\<lambda>b _. length b = slotIDLen", OF rnd [OF w]])
    apply (rule act_bind [where P = "\<lambda>b _. length b = hkdfSaltLen", OF _ rnd], assumption, assumption)
    apply (rule act_bind [where P = "\<lambda>b _. length b = nonceLen", OF _ rnd], assumption, assumption)
    apply (rule tail, assumption)
    by (auto simp: slotTyped_def shaped_def intro: leaves_clean_trans [OF w])
qed

text \<open>What unwrapping a slot with some keying material gives.\<close>

definition unwrapSpec :: "environ \<Rightarrow> gerror + bytes \<Rightarrow> slot \<Rightarrow> gerror + bytes" where
  "unwrapSpec X ikm s =
     (case ikm of Inl e \<Rightarrow> Inl e
      | Inr k \<Rightarrow> (case slotMeta s of Inl e \<Rightarrow> Inl e
                  | Inr m \<Rightarrow> openSpec X (Inr (slotKEK k s)) (sNonce s) (sWrapped s) m))"

lemma unwrapDEK_computes:
  assumes w: "wfw w" and valid: "validInputs w inp"
  shows "computes True (faults X) (unwrapDEK X s inp) (unwrapSpec X (ikmSpec w inp) s) w"
  unfolding computes_def unwrapDEK_def
proof (rule act_scoped [OF w, where P = "\<lambda>v. \<exists>ikm. ikmSpec w inp = Inr ikm \<and> v = slotKEK ikm s"])
  let ?spec = "unwrapSpec X (ikmSpec w inp) s"
  show "act True (deriveKEK X inp (sHKDFSalt s) FormatVersion (sType s) (sID s)) w
      (\<lambda>e. e \<in> faults X \<or> ?spec = Inl e)
      (\<lambda>p w1 K D. \<exists>i v. p = Some i \<and> K = {(i, v)} \<and> D = {} \<and>
         (\<exists>ikm. ikmSpec w inp = Inr ikm \<and> v = slotKEK ikm s))"
    by (rule act_conseq [OF deriveKEK_computes [OF w valid, of X, unfolded computes_def]])
      (auto simp: kekSpec_def unwrapSpec_def slotKEK_def split: sum.splits)
next
  fix i v w1 assume w1: "wfw w1" "leaves w w1 {(i, v)} {}"
    and "\<exists>ikm. ikmSpec w inp = Inr ikm \<and> v = slotKEK ikm s"
  then obtain ikm where ikm: "ikmSpec w inp = Inr ikm" "v = slotKEK ikm s" by blast
  let ?spec = "unwrapSpec X (ikmSpec w inp) s"
  have c: "contents w1 (Some i) = Inr v" by (rule contents_new [OF w1(2)]) simp
  have o: "act True (open_slot X (Some i) (sNonce s) (sWrapped s) m) w1
      (\<lambda>e. e \<in> faults X \<or> openSpec X (Inr v) (sNonce s) (sWrapped s) m = Inl e)
      (\<lambda>p w' K D. \<exists>i d. p = Some i \<and> K = {(i, d)} \<and> D = {} \<and>
         openSpec X (Inr v) (sNonce s) (sWrapped s) m = Inr d)" for m
    using open_slot_computes [OF w1(1), of X "Some i" "sNonce s" "sWrapped s" m] c
    by (simp add: computes_def)
  have spec: "?spec = (case slotMeta s of Inl e \<Rightarrow> Inl e
      | Inr m \<Rightarrow> openSpec X (Inr v) (sNonce s) (sWrapped s) m)"
    using ikm by (simp add: unwrapSpec_def cong: sum.case_cong)
  show "act True (bind (lift (case smeta s of None \<Rightarrow> marshalMeta s | Some m \<Rightarrow> Inr m))
      (\<lambda>meta. open_slot X (Some i) (sNonce s) (sWrapped s) meta)) w1
      (\<lambda>e. e \<in> faults X \<or> ?spec = Inl e)
      (\<lambda>x w2 K D. \<forall>w3. \<exists>i v. x = Some i \<and> K = {(i, v)} \<and> D = {} \<and> ?spec = Inr v)"
    unfolding slotMeta_def [symmetric]
    apply (rule act_bind [OF w1(1), where P = "\<lambda>m w2. w2 = w1 \<and> slotMeta s = Inr m"])
     apply (rule act_lift [OF w1(1)])
      apply (simp_all add: spec)
    by (rule act_conseq [OF o]) (auto simp: spec)
qed

text \<open>Under the same keying material a sealed slot opens to its data key.\<close>

definition aead_correct :: "environ \<Rightarrow> bool" where
  "aead_correct X \<longleftrightarrow>
     (\<forall>k n p a. length k = 32 \<longrightarrow> length n = 12 \<longrightarrow> x_open X k n (x_seal X k n p a) a = Some p)"

lemma unwrapSpec_sealed:
  assumes "aead_correct X" and "sealedWith X ikm d s"
  shows "unwrapSpec X (Inr ikm) s = Inr d"
  using assms
  by (simp add: unwrapSpec_def sealedWith_def slotMeta_def openSpec_def keyed_def slotTyped_def
      aead_correct_def slotKEK_def)

section \<open>GenerateDEK\<close>

lemma GenerateDEK_act:
  assumes w: "wfw w"
  shows "act True (GenerateDEK X sz) w (\<lambda>e. e \<in> faults X \<or> e = [ErrDEKSize] \<and> \<not> (1 \<le> sz \<and> sz \<le> 240))
    (\<lambda>p w' K D. \<exists>i v. p = Some i \<and> K = {(i, v)} \<and> D = {} \<and> int (length v) = sz \<and> 1 \<le> sz \<and> sz \<le> 240)"
proof (cases "sz \<le> 0 \<or> sz > 240")
  case True
  then have "GenerateDEK X sz w = (Inl [ErrDEKSize], w)" by (simp add: GenerateDEK_def throw_apply)
  with True w show ?thesis by (auto intro!: act_errI)
next
  case False
  define n where "n = nat sz"
  have sz: "sz = int n" using False by (simp add: n_def)
  obtain r w1 where nz: "sb_NewZero X (int n) w = (r, w1)" by fastforce
  note nzl = sb_NewZero_leaves [OF w leaves_refl [OF w] nz]
  let ?f = "\<lambda>b. bind (load b) (\<lambda>old. bind (randRead X (length old)) (\<lambda>bs. store b bs))"
  let ?k = "\<lambda>dek. bind (onError (sb_Destroy X dek) (sb_Use dek ?f)) (\<lambda>_. ret dek)"
  have run: "GenerateDEK X sz w = bind (sb_NewZero X (int n)) ?k w"
    using False by (simp add: GenerateDEK_def sz)
  show ?thesis
  proof (cases r)
    case (Inl e)
    then have "GenerateDEK X sz w = (Inl e, w1)" using run nz by (simp add: bind_Inl)
    with nzl Inl show ?thesis by (auto intro: act_errI)
  next
    case (Inr p)
    let ?i = "length (wsbs w)"
    from Inr nzl have p: "p = Some ?i" and 1: "leaves w w1 {(?i, replicate n 0)} {}" by auto
    note w1 = leaves_wf [OF 1]
    have "contents w1 p = Inr (replicate n 0)" unfolding p by (rule contents_new [OF 1]) simp
    from sb_Use_ok [OF w1 this]
    obtain a where a: "sbuf (sbAt w1 ?i) = Some a" "a < length (wmem w1)" "wmem w1 ! a = replicate n 0"
      and pay: "payload w1 ?i \<noteq> None" and use: "\<And>f :: addr \<Rightarrow> unit io. sb_Use p f w1 = f a w1"
      using p by (metis option.distinct(1) option.inject)
    have buf: "sbuf (wsbs w1 ! ?i) = Some a"
      using a pay by (auto simp: payload_def sbAt_def split: if_splits)
    let ?u = "w1\<lparr>wlog := EvRand n # wlog w1\<rparr>"
    have 2: "leaves w ?u {(?i, replicate n 0)} {}"
      by (rule leaves_same [OF 1]) (simp_all add: fakeCfg_def)
    have top: "GenerateDEK X sz w = ?k p w1" unfolding run using nz Inr by (simp add: bind_Inr)
    show ?thesis
    proof (cases "x_rand X (wlog w1)")
      case (Inl c)
      then have "sb_Use p ?f w1 = (Inl [External c], ?u)"
        unfolding use using a by (simp add: bind_def load_def gets_apply randRead_def)
      then have "GenerateDEK X sz w = (Inl [External c], snd (sb_Destroy X p ?u))"
        unfolding top by (simp add: bind_def onError_def)
      moreover have "leaves w (snd (sb_Destroy X p ?u)) {} {}"
        using sb_Destroy_leaves [OF 2, of ?i "replicate n 0" X] p by simp
      moreover have "[External c] \<in> faults X" using Inl by (auto simp: faults_def)
      ultimately show ?thesis by (auto intro!: act_errI)
    next
      case (Inr f)
      let ?b = "map f [0..<n]"
      let ?w2 = "?u\<lparr>wmem := (wmem ?u)[a := ?b]\<rparr>"
      have "sb_Use p ?f w1 = (Inr (), ?w2)"
        unfolding use using a Inr
        by (simp add: bind_def load_def gets_apply randRead_def store_def modify_apply)
      then have "GenerateDEK X sz w = (Inr p, ?w2)"
        unfolding top by (simp add: bind_def onError_def ret_def)
      moreover have "leaves w ?w2 {(?i, ?b)} {}"
        using leaves_fill [OF 2, of ?i "replicate n 0" a ?b] buf by simp
      ultimately show ?thesis using p False sz by (auto intro!: act_okI)
    qed
  qed
qed

section \<open>The interface Method\<close>

record meth =
  m_Type :: MethodType
  m_Enroll :: "nat \<Rightarrow> sbptr \<Rightarrow> slot io"
  m_Unlock :: "nat \<Rightarrow> slot \<Rightarrow> sbptr io"

text \<open>
  What the envelope relies on: enrolling gives a complete slot of the method's type and leaves
  nothing behind, unlocking leaves one new container and nothing else. \<open>valid\<close> says that the
  containers the method borrows exist; \<open>c\<close> is whether a failing operation leaves no raw buffer.
\<close>

definition complete :: "slot \<Rightarrow> bool" where
  "complete s \<longleftrightarrow> slotTyped s \<and> marshalMeta s = Inr (metaBytes s) \<and> smeta s = Some (metaBytes s)"

locale method_contract =
  fixes M :: meth and valid :: "world \<Rightarrow> bool" and c :: bool
  assumes stable: "wfw w \<Longrightarrow> valid w \<Longrightarrow> leaves w w' K D \<Longrightarrow> valid w'"
    and enroll: "wfw w \<Longrightarrow> valid w \<Longrightarrow> validPtr w dek \<Longrightarrow>
      act c (m_Enroll M ctx dek) w (\<lambda>_. True)
        (\<lambda>s w' K D. K = {} \<and> D = {} \<and> sType s = m_Type M \<and> complete s)"
    and unlock: "wfw w \<Longrightarrow> valid w \<Longrightarrow>
      act c (m_Unlock M ctx s) w (\<lambda>_. True) (\<lambda>p w' K D. \<exists>i v. p = Some i \<and> K = {(i, v)} \<and> D = {})"

section \<open>Properties\<close>

lemma aead_correct_demoX: "aead_correct demoX"
  by (simp add: aead_correct_def demoX_aead)

text \<open>
  \<open>GenerateDEK\<close> is total: it refuses exactly the sizes outside 1 to 240, and otherwise, when
  the random source and the memory lock work, gives one new container of exactly that many random
  bytes; on every failure no container and no slice with secret bytes is left.
\<close>

lemma GenerateDEK_spec:
  assumes "wfw w"
  shows "case GenerateDEK X sz w of
      (Inl e, w') \<Rightarrow> (e \<in> faults X \<or> e = [ErrDEKSize] \<and> \<not> (1 \<le> sz \<and> sz \<le> 240)) \<and> leaves w w' {} {}
    | (Inr p, w') \<Rightarrow> 1 \<le> sz \<and> sz \<le> 240 \<and>
        (\<exists>i v. p = Some i \<and> int (length v) = sz \<and> leaves w w' {(i, v)} {})"
  using GenerateDEK_act [OF assms, of X sz] by (auto simp: act_def split: prod.splits sum.splits)

lemma GenerateDEK_spec_example:
  "(\<exists>i v w'. GenerateDEK demoX 32 demoW = (Inr (Some i), w') \<and> length v = 32 \<and> leaves demoW w' {(i, v)} {}) \<and>
   (\<exists>w'. GenerateDEK demoX 241 demoW = (Inl [ErrDEKSize], w'))"
  using GenerateDEK_spec [OF demoW_wfw, of demoX 32] GenerateDEK_spec [OF demoW_wfw, of demoX 241]
  by (fastforce split: prod.splits sum.splits)

text \<open>
  C22. What a slot seals, and with what: the slot \<open>wrapDEK\<close> builds has the shape asked for, fixed-size
  id, salt and nonce, no flags, and the data key sealed under the key derived from the combined
  factors with all its metadata as associated data. It fails only by a fault outside, a field too
  long, or a destroyed factor or data key; either way nothing secret stays in memory.
\<close>

theorem wrapDEK_seals:
  assumes "wfw w" and "validInputs w inp" and "validPtr w dek"
  shows "case wrapDEK X dek inp sh w of
      (Inl e, w') \<Rightarrow> (e \<in> faults X \<or> e = [ErrMalformed] \<and> \<not> shapeFits sh \<or>
         ikmSpec w inp = Inl e \<or> contents w dek = Inl e) \<and> leaves w w' {} {}
    | (Inr s, w') \<Rightarrow> shaped sh s \<and>
        (\<exists>ikm d. ikmSpec w inp = Inr ikm \<and> contents w dek = Inr d \<and> sealedWith X ikm d s) \<and>
        leaves w w' {} {}"
  using wrapDEK_act [OF assms, of X sh]
  by (auto simp: act_def wrapErr_def split: prod.splits sum.splits)

definition demoShape :: slotShape where
  "demoShape = \<lparr>shmt = MethodRecovery, shkdfID = KDFNone, shkdfParams = [], shkdfSalt = [],
     shchalSalt = [], shchallenge = [], shykSlot = 0, shlabel = ascii ''paper''\<rparr>"

lemma demo_fits: "shapeFits demoShape" "validPtr demoW (Some (Suc 0))"
  by (simp_all add: shapeFits_def demoShape_def MethodType_valid_def ascii_def validPtr_def demoW_def)

theorem wrapDEK_seals_witness:
  "\<exists>s w'. wrapDEK demoX (Some 1) (noInputs\<lparr>ikRecovery := Some 2\<rparr>) demoShape demoW = (Inr s, w') \<and>
     sType s = MethodRecovery \<and> leaves demoW w' {} {}"
  using wrapDEK_seals [OF demoW_wfw demo_inputs(1) demo_fits(2), of demoX demoShape] demo_inputs demo_fits
  by (auto simp: shaped_def demoShape_def split: prod.splits sum.splits)

text \<open>
  C12. Wrapping is undone by unwrapping: a slot made by \<open>wrapDEK\<close> is opened by \<open>unwrapDEK\<close> at any
  later time and in any other process, given only that the factors are the same bytes again, and
  gives one new container with exactly the data key. The only law used of the AEAD is that opening
  what was sealed, with the same key, nonce and associated data, returns the plaintext.
\<close>

theorem unwrapDEK_wrapDEK:
  assumes "aead_correct X" and w: "wfw w" "validInputs w inp" "contents w dek = Inr d"
    and s: "wrapDEK X dek inp sh w = (Inr s, w')"
    and u: "wfw u" "validInputs u inp'" "ikmSpec u inp' = ikmSpec w inp"
  shows "case unwrapDEK X s inp' u of
      (Inl e, u') \<Rightarrow> e \<in> faults X \<and> leaves u u' {} {}
    | (Inr p, u') \<Rightarrow> \<exists>i. p = Some i \<and> leaves u u' {(i, d)} {}"
proof -
  from act_okD [OF wrapDEK_act [OF w(1,2) contents_valid [OF w(3)]] s] w(3)
  obtain ikm where "ikmSpec w inp = Inr ikm" "sealedWith X ikm d s" by auto
  with unwrapSpec_sealed [OF assms(1)] unwrapDEK_computes [OF u(1,2), of X s] u(3) show ?thesis
    by (simp add: computes_run split: prod.splits sum.splits)
qed

theorem unwrapDEK_wrapDEK_witness:
  "\<exists>s w' i u'. wrapDEK demoX (Some 1) (noInputs\<lparr>ikRecovery := Some 2\<rparr>) demoShape demoW = (Inr s, w') \<and>
     unwrapDEK demoX s (noInputs\<lparr>ikRecovery := Some 2\<rparr>) demoW = (Inr (Some i), u') \<and>
     contents u' (Some i) = Inr demoDEK"
proof -
  let ?inp = "noInputs\<lparr>ikRecovery := Some 2\<rparr>"
  obtain r w' where r: "wrapDEK demoX (Some 1) ?inp demoShape demoW = (r, w')" by fastforce
  with act_errD [OF wrapDEK_act [OF demoW_wfw demo_inputs(1) demo_fits(2), of demoX demoShape], of _ w'] demo_inputs demo_fits
  obtain s where "r = Inr s" by (cases r) (auto simp: wrapErr_def)
  with unwrapDEK_wrapDEK [OF aead_correct_demoX demoW_wfw demo_inputs(1) _ _ demoW_wfw demo_inputs(1), of "Some 1" demoDEK demoShape s w'] r
  show ?thesis by (auto split: prod.splits sum.splits dest: contents_new)
qed

end
