(* ===== verification/Envelope.thy ===== *)
theory Envelope
  imports Method
begin

text \<open>
  The operations of \<open>envelope.go\<close> on an envelope in memory. The receiver is passed and returned:
  an operation that fails leaves it as it was. The methods are values of the interface \<open>Method\<close>,
  of which only the contract is used.
\<close>

section \<open>Queries\<close>

record SlotInfo =
  siID :: bytes
  siType :: MethodType
  siLabel :: bytes

definition PolicyHint :: "envelope \<Rightarrow> Policy" where
  "PolicyHint e = epolicyHint e"

definition SlotInfos :: "envelope \<Rightarrow> SlotInfo list" where
  "SlotInfos e = map (\<lambda>s. \<lparr>siID = sID s, siType = sType s, siLabel = sLabel s\<rparr>) (eslots e)"

text \<open>The counting loop.\<close>

fun countPrimary :: "slot list \<Rightarrow> nat \<Rightarrow> nat" where
  "countPrimary [] n = n"
| "countPrimary (s # ss) n = countPrimary ss (if sType s \<noteq> MethodRecovery then n + 1 else n)"

definition primarySlotCount :: "envelope \<Rightarrow> nat" where
  "primarySlotCount e = countPrimary (eslots e) 0"

text \<open>The loop of \<open>EffectivePolicy\<close>, with its variables \<open>derived\<close> and \<open>seen\<close>.\<close>

fun policyLoop :: "slot list \<Rightarrow> Policy \<Rightarrow> bool \<Rightarrow> Policy" where
  "policyLoop [] derived seen = (if \<not> seen then PolicyInvalid else derived)"
| "policyLoop (s # ss) derived seen =
     (if sType s = MethodRecovery then policyLoop ss derived seen
      else
        let p = policyForMethod (sType s) in
        if \<not> seen then policyLoop ss p True
        else if p \<noteq> derived then PolicyInvalid
        else policyLoop ss derived seen)"

definition EffectivePolicy :: "envelope \<Rightarrow> Policy" where
  "EffectivePolicy e = policyLoop (eslots e) PolicyInvalid False"

section \<open>Creating an envelope\<close>

fun enrollAll :: "environ \<Rightarrow> nat \<Rightarrow> sbptr \<Rightarrow> meth list \<Rightarrow> slot list \<Rightarrow> slot list io" where
  "enrollAll X ctx dek [] slots = ret slots"
| "enrollAll X ctx dek (m # ms) slots =
     bind (ctxCheck X ctx) (\<lambda>_.
     bind (m_Enroll m ctx dek) (\<lambda>slot.
     enrollAll X ctx dek ms (slots @ [slot])))"

definition NewEnvelope :: "environ \<Rightarrow> nat \<Rightarrow> sbptr \<Rightarrow> Policy \<Rightarrow> meth list \<Rightarrow> envelope io" where
  "NewEnvelope X ctx dek policy methods =
     (if length methods = 0 then throw [ErrNoMethods]
      else if \<not> Policy_valid policy then throw [ErrPolicyMismatch]
      else
        bind (sb_Len dek) (\<lambda>n.
        if n = 0 \<or> n > maxDEKLen then throw [ErrDEKSize]
        else
          bind (enrollAll X ctx dek methods []) (\<lambda>slots.
          let env = \<lparr>eversion = FormatVersion, epolicyHint = policy, eslots = slots\<rparr> in
          if EffectivePolicy env \<noteq> policy then throw [ErrPolicyMismatch] else ret env)))"

section \<open>Unlocking\<close>

text \<open>\<open>x, err := m()\<close> with the error kept; a panic is not an error value.\<close>

definition attempt :: "'a io \<Rightarrow> (gerror + 'a) io" where
  "attempt m = (\<lambda>w. case m w of
       (Inl e, w') \<Rightarrow> if List.member e GoPanic then (Inl e, w') else (Inr (Inl e), w')
     | (Inr x, w') \<Rightarrow> (Inr (Inr x), w'))"

text \<open>The inner loop on one slot: the opened key, or \<open>None\<close> to go on with the next slot.\<close>

fun tryMethods :: "environ \<Rightarrow> nat \<Rightarrow> slot \<Rightarrow> meth list \<Rightarrow> sbptr option io" where
  "tryMethods X ctx s [] = ret None"
| "tryMethods X ctx s (m # ms) =
     (if m_Type m \<noteq> sType s then tryMethods X ctx s ms
      else
        bind (ctxCheck X ctx) (\<lambda>_.
        bind (attempt (m_Unlock m ctx s)) (\<lambda>r.
        case r of
          Inr dek \<Rightarrow> ret (Some dek)
        | Inl e \<Rightarrow> if \<not> errorsIs e ErrAuthFailed then throw e else tryMethods X ctx s ms)))"

fun trySlots :: "environ \<Rightarrow> nat \<Rightarrow> meth list \<Rightarrow> slot list \<Rightarrow> sbptr io" where
  "trySlots X ctx ms [] = throw [ErrAuthFailed]"
| "trySlots X ctx ms (s # ss) =
     bind (tryMethods X ctx s ms) (\<lambda>r.
     case r of Some dek \<Rightarrow> ret dek | None \<Rightarrow> trySlots X ctx ms ss)"

definition Unlock :: "environ \<Rightarrow> envelope \<Rightarrow> nat \<Rightarrow> meth list \<Rightarrow> sbptr io" where
  "Unlock X e ctx methods =
     (if length methods = 0 then throw [ErrNoMethods] else trySlots X ctx methods (eslots e))"

section \<open>Adding and removing slots\<close>

definition AddSlot :: "environ \<Rightarrow> envelope \<Rightarrow> nat \<Rightarrow> sbptr \<Rightarrow> meth \<Rightarrow> envelope io" where
  "AddSlot X e ctx dek m =
     bind (sb_Len dek) (\<lambda>n.
     if n = 0 \<or> n > maxDEKLen then throw [ErrDEKSize]
     else if length (eslots e) \<ge> maxSlotCount then throw [ErrMalformed]
     else if m_Type m \<noteq> MethodRecovery \<and> policyForMethod (m_Type m) \<noteq> EffectivePolicy e
       then throw [ErrPolicyMismatch]
     else
       bind (m_Enroll m ctx dek) (\<lambda>slot. ret (e\<lparr>eslots := eslots e @ [slot]\<rparr>)))"

text \<open>The search loop, with the index of the next slot.\<close>

fun findSlot :: "bytes \<Rightarrow> slot list \<Rightarrow> int \<Rightarrow> int" where
  "findSlot sid [] i = -1"
| "findSlot sid (s # ss) i = (if sID s = sid then i else findSlot sid ss (i + 1))"

definition RemoveSlot :: "envelope \<Rightarrow> bytes \<Rightarrow> gerror + envelope" where
  "RemoveSlot e sid =
     (let idx = findSlot sid (eslots e) 0 in
      if idx = -1 then Inl [ErrSlotNotFound]
      else if length (eslots e) \<le> 1 then Inl [ErrPolicyUnsafe]
      else if sType (eslots e ! nat idx) \<noteq> MethodRecovery \<and> primarySlotCount e \<le> 1
        then Inl [ErrPolicyUnsafe]
      else Inr (e\<lparr>eslots := take (nat idx) (eslots e) @ drop (nat idx + 1) (eslots e)\<rparr>))"

section \<open>Policies\<close>

definition primaries :: "slot list \<Rightarrow> slot list" where
  "primaries ss = filter (\<lambda>s. sType s \<noteq> MethodRecovery) ss"

lemma primaries_Nil [simp]: "primaries [] = []"
  by (simp add: primaries_def)

lemma primaries_append [simp]: "primaries (a @ b) = primaries a @ primaries b"
  by (simp add: primaries_def)

lemma primaries_Cons: "primaries (s # b) = (if sType s = MethodRecovery then [] else [s]) @ primaries b"
  by (simp add: primaries_def)

lemma countPrimary: "countPrimary ss n = n + length (primaries ss)"
  by (induction ss arbitrary: n) (auto simp: primaries_def)

lemma primarySlotCount_eq: "primarySlotCount e = length (primaries (eslots e))"
  by (simp add: primarySlotCount_def countPrimary)

lemma policyLoop_seen:
  "policyLoop ss p True =
     (if \<forall>s \<in> set (primaries ss). policyForMethod (sType s) = p then p else PolicyInvalid)"
  by (induction ss) (auto simp: primaries_def Let_def)

lemma policyLoop_unseen:
  "policyLoop ss d False =
     (case primaries ss of [] \<Rightarrow> PolicyInvalid
      | s # _ \<Rightarrow> if \<forall>t \<in> set (primaries ss). policyForMethod (sType t) = policyForMethod (sType s)
                 then policyForMethod (sType s) else PolicyInvalid)"
  by (induction ss) (simp_all add: primaries_Cons Let_def policyLoop_seen cong: list.case_cong)

text \<open>
  A policy other than the invalid one is effective if and only if there is a primary slot and
  every primary slot implies it.
\<close>

lemma EffectivePolicy_iff:
  assumes "p \<noteq> PolicyInvalid"
  shows "EffectivePolicy e = p \<longleftrightarrow>
    primaries (eslots e) \<noteq> [] \<and> (\<forall>s \<in> set (primaries (eslots e)). policyForMethod (sType s) = p)"
  using assms by (auto simp: EffectivePolicy_def policyLoop_unseen split: list.splits)

section \<open>Removing\<close>

lemma findSlot_cases:
  "(findSlot sid ss i = -1 \<and> i \<ge> 0 \<and> sid \<notin> sID ` set ss) \<or>
   (\<exists>a s b. ss = a @ s # b \<and> sID s = sid \<and> sid \<notin> sID ` set a \<and> findSlot sid ss i = i + int (length a))
   \<or> i < 0"
proof (induction ss arbitrary: i)
  case (Cons s ss)
  show ?case
  proof (cases "sID s = sid \<or> i < 0")
    case True
    then show ?thesis by (auto intro!: exI [of _ "[]"])
  next
    case False
    with Cons [of "i + 1"] consider
        "findSlot sid ss (i + 1) = -1" "sid \<notin> sID ` set ss"
      | a t b where "ss = a @ t # b" "sID t = sid" "sid \<notin> sID ` set a"
          "findSlot sid ss (i + 1) = i + 1 + int (length a)"
      by auto
    then show ?thesis
    proof cases
      case 1
      with False show ?thesis by auto
    next
      case 2
      with False show ?thesis by (intro disjI2 disjI1 exI [of _ "s # a"]) auto
    qed
  qed
qed auto

lemma findSlot_none: "findSlot sid ss 0 = -1 \<longleftrightarrow> sid \<notin> sID ` set ss"
  using findSlot_cases [of sid ss 0] by auto

lemma findSlot_split:
  assumes "findSlot sid ss 0 \<noteq> -1"
  obtains a s b where "ss = a @ s # b" and "sID s = sid" and "sid \<notin> sID ` set a"
    and "findSlot sid ss 0 = int (length a)"
  using findSlot_cases [of sid ss 0] assms by auto

text \<open>Exactly what \<open>RemoveSlot\<close> returns.\<close>

lemma RemoveSlot_Inr_iff:
  "RemoveSlot e sid = Inr e' \<longleftrightarrow>
   (\<exists>a s b. eslots e = a @ s # b \<and> sID s = sid \<and> sid \<notin> sID ` set a \<and> a @ b \<noteq> [] \<and>
      (sType s = MethodRecovery \<or> 2 \<le> length (primaries (eslots e))) \<and> e' = e\<lparr>eslots := a @ b\<rparr>)"
proof
  assume r: "RemoveSlot e sid = Inr e'"
  then have "findSlot sid (eslots e) 0 \<noteq> -1" by (auto simp: RemoveSlot_def Let_def)
  then obtain a s b where "eslots e = a @ s # b" "sID s = sid" "sid \<notin> sID ` set a"
    "findSlot sid (eslots e) 0 = int (length a)"
    by (rule findSlot_split)
  with r show "\<exists>a s b. eslots e = a @ s # b \<and> sID s = sid \<and> sid \<notin> sID ` set a \<and> a @ b \<noteq> [] \<and>
      (sType s = MethodRecovery \<or> 2 \<le> length (primaries (eslots e))) \<and> e' = e\<lparr>eslots := a @ b\<rparr>"
    by (intro exI [of _ a] exI [of _ s] exI [of _ b])
      (auto simp: RemoveSlot_def primarySlotCount_eq Let_def split: if_splits)
next
  assume "\<exists>a s b. eslots e = a @ s # b \<and> sID s = sid \<and> sid \<notin> sID ` set a \<and> a @ b \<noteq> [] \<and>
      (sType s = MethodRecovery \<or> 2 \<le> length (primaries (eslots e))) \<and> e' = e\<lparr>eslots := a @ b\<rparr>"
  then obtain a s b where e: "eslots e = a @ s # b" and s: "sID s = sid" "sid \<notin> sID ` set a"
    and ab: "a @ b \<noteq> []" and p: "sType s = MethodRecovery \<or> 2 \<le> length (primaries (eslots e))"
    and e': "e' = e\<lparr>eslots := a @ b\<rparr>" by blast
  have n: "findSlot sid (eslots e) 0 \<noteq> -1" using e s by (auto simp: findSlot_none)
  from n obtain a' s' b' where f: "eslots e = a' @ s' # b'" "sID s' = sid" "sid \<notin> sID ` set a'"
    "findSlot sid (eslots e) 0 = int (length a')" by (rule findSlot_split)
  have "a' = a \<and> s' = s \<and> b' = b"
  proof -
    have "a @ s # b = a' @ s' # b'" using e f by simp
    then show ?thesis using s f(2,3)
    proof (induction a arbitrary: a')
      case Nil
      then show ?case by (cases a') auto
    next
      case (Cons x a)
      then show ?case by (cases a') auto
    qed
  qed
  with f e ab p e' show "RemoveSlot e sid = Inr e'"
    by (auto simp: RemoveSlot_def primarySlotCount_eq Let_def)
qed

lemma RemoveSlot_error:
  "RemoveSlot e sid = Inl x \<Longrightarrow>
   x = [ErrSlotNotFound] \<and> sid \<notin> sID ` set (eslots e) \<or> x = [ErrPolicyUnsafe] \<and> sid \<in> sID ` set (eslots e)"
  using findSlot_none [of sid "eslots e"] by (auto simp: RemoveSlot_def Let_def split: if_splits)

lemma RemoveSlot_policy:
  assumes "RemoveSlot e sid = Inr e'" and "EffectivePolicy e \<noteq> PolicyInvalid"
  shows "EffectivePolicy e' = EffectivePolicy e"
proof -
  from assms(1) obtain a s b where e: "eslots e = a @ s # b" and e': "e' = e\<lparr>eslots := a @ b\<rparr>"
    and p: "sType s = MethodRecovery \<or> 2 \<le> length (primaries (eslots e))"
    by (auto simp: RemoveSlot_Inr_iff)
  from EffectivePolicy_iff [OF assms(2), of e]
  have all: "primaries (eslots e) \<noteq> []"
    "\<forall>t \<in> set (primaries (eslots e)). policyForMethod (sType t) = EffectivePolicy e" by simp_all
  moreover have "primaries (a @ b) \<noteq> []" "set (primaries (a @ b)) \<subseteq> set (primaries (eslots e))"
    using p all(1) e by (auto simp: primaries_Cons split: if_splits)
  ultimately show ?thesis
    using EffectivePolicy_iff [OF assms(2), of e'] e' by auto
qed

section \<open>Enrolling through the interface\<close>

definition methods_ok :: "bool \<Rightarrow> meth list \<Rightarrow> world \<Rightarrow> bool" where
  "methods_ok c ms w \<longleftrightarrow> (\<forall>m \<in> set ms. \<exists>V. method_contract m V c \<and> V w)"

lemma methods_ok_leaves: "wfw w \<Longrightarrow> methods_ok c ms w \<Longrightarrow> leaves w w' K D \<Longrightarrow> methods_ok c ms w'"
  unfolding methods_ok_def by (meson method_contract.stable)

lemma methods_ok_enroll:
  assumes "methods_ok c ms w" and "m \<in> set ms" and "wfw u" and w: "wfw w" and l: "leaves w u K D" and d: "validPtr u dek"
  shows "act c (m_Enroll m ctx dek) u (\<lambda>_. True)
    (\<lambda>s w' K D. K = {} \<and> D = {} \<and> sType s = m_Type m \<and> complete s)"
proof -
  from assms obtain V where m: "method_contract m V c" and V: "V w" by (auto simp: methods_ok_def)
  show ?thesis by (rule method_contract.enroll [OF m assms(3) method_contract.stable [OF m w V l] d])
qed

text \<open>
  If every enrolment leaves nothing and gives a slot related to its method by \<open>R\<close>, so does the
  whole loop.
\<close>

lemma enrollAll_act:
  assumes "wfw u" and "leaves w u {} {}" and w: "wfw w" and E: "\<And>e. e \<in> faults X \<Longrightarrow> Err e"
    and "\<And>m v. m \<in> set ms \<Longrightarrow> wfw v \<Longrightarrow> leaves w v {} {} \<Longrightarrow>
      act c (m_Enroll m ctx dek) v Err (\<lambda>s w' K D. K = {} \<and> D = {} \<and> R m s)"
  shows "act c (enrollAll X ctx dek ms acc) u Err
    (\<lambda>ss w' K D. K = {} \<and> D = {} \<and> (\<exists>new. ss = acc @ new \<and> list_all2 R ms new))"
  using assms(1,2,5)
proof (induction ms arbitrary: acc u)
  case Nil
  then show ?case by (auto intro: act_ret)
next
  case (Cons m ms)
  note u = Cons.prems(1) and lu = Cons.prems(2)
  show ?case
    unfolding enrollAll.simps
  proof (rule act_bind [OF u act_ctxCheck [OF u]])
    fix v assume v: "wfw v" "leaves u v {} {}"
    have lv: "leaves w v {} {}" by (rule leaves_clean_trans [OF w lu v(2)])
    show "act c (bind (m_Enroll m ctx dek) (\<lambda>slot. enrollAll X ctx dek ms (acc @ [slot]))) v Err
        (\<lambda>ss w' K D. K = {} \<and> D = {} \<and> (\<exists>new. ss = acc @ new \<and> list_all2 R (m # ms) new))"
    proof (rule act_bind [OF v(1) Cons.prems(3) [of m, OF _ v(1) lv]])
      fix s x assume x: "wfw x" "leaves v x {} {}" and s: "R m s"
      have lx: "leaves w x {} {}" by (rule leaves_clean_trans [OF w lv x(2)])
      show "act c (enrollAll X ctx dek ms (acc @ [s])) x Err
          (\<lambda>ss w' K D. K = {} \<and> D = {} \<and> (\<exists>new. ss = acc @ new \<and> list_all2 R (m # ms) new))"
        by (rule act_conseq [OF Cons.IH [OF x(1) lx Cons.prems(3), of "acc @ [s]"]])
          (use s in auto)
    qed simp
  qed (rule E)
qed

definition newOk :: "world \<Rightarrow> sbptr \<Rightarrow> Policy \<Rightarrow> meth list \<Rightarrow> (meth \<Rightarrow> slot \<Rightarrow> bool) \<Rightarrow> envelope \<Rightarrow> bool" where
  "newOk w dek policy ms R e \<longleftrightarrow>
     ms \<noteq> [] \<and> Policy_valid policy \<and> EffectivePolicy e = policy \<and> epolicyHint e = policy \<and>
     eversion e = FormatVersion \<and> list_all2 R ms (eslots e) \<and>
     (\<exists>d. contents w dek = Inr d \<and> 1 \<le> length d \<and> length d \<le> maxDEKLen)"

text \<open>
  The errors beside those of the enrolments: no method, a policy that is none or is not implied,
  a data key of the wrong size.
\<close>

definition newErr :: "world \<Rightarrow> sbptr \<Rightarrow> Policy \<Rightarrow> meth list \<Rightarrow> (meth \<Rightarrow> slot \<Rightarrow> bool) \<Rightarrow> gerror \<Rightarrow> bool" where
  "newErr w dek policy ms R e \<longleftrightarrow>
     e = [ErrNoMethods] \<and> ms = [] \<or>
     e = [ErrPolicyMismatch] \<and> (\<not> Policy_valid policy \<or>
       (\<exists>ss. list_all2 R ms ss \<and>
         EffectivePolicy \<lparr>eversion = FormatVersion, epolicyHint = policy, eslots = ss\<rparr> \<noteq> policy)) \<or>
     e = [ErrDEKSize] \<and> \<not> (\<exists>d. contents w dek = Inr d \<and> 1 \<le> length d \<and> length d \<le> maxDEKLen) \<or>
     e = [GoPanic] \<and> dek = None"

lemma NewEnvelope_act:
  assumes w: "wfw w" and E: "\<And>e. e \<in> faults X \<Longrightarrow> Err e"
    and enroll: "\<And>m v. m \<in> set ms \<Longrightarrow> wfw v \<Longrightarrow> leaves w v {} {} \<Longrightarrow>
      act c (m_Enroll m ctx dek) v Err (\<lambda>s w' K D. K = {} \<and> D = {} \<and> R m s)"
  shows "act c (NewEnvelope X ctx dek policy ms) w (\<lambda>e. Err e \<or> newErr w dek policy ms R e)
    (\<lambda>e w' K D. K = {} \<and> D = {} \<and> newOk w dek policy ms R e)"
  (is "act _ _ _ ?E ?Ok")
proof (cases "ms = [] \<or> \<not> Policy_valid policy")
  case True
  then show ?thesis by (auto simp: NewEnvelope_def newErr_def intro!: act_throw w)
next
  case False
  let ?new = "bind (enrollAll X ctx dek ms []) (\<lambda>slots.
      let env = \<lparr>eversion = FormatVersion, epolicyHint = policy, eslots = slots\<rparr> in
      if EffectivePolicy env \<noteq> policy then throw [ErrPolicyMismatch] else ret env)"
  have all: "act c (enrollAll X ctx dek ms []) w ?E
      (\<lambda>ss w' K D. K = {} \<and> D = {} \<and> (\<exists>new. ss = [] @ new \<and> list_all2 R ms new))"
    by (rule act_conseq [OF enrollAll_act [where Err = Err and R = R and c = c, OF w leaves_refl [OF w] w E enroll]])
      auto
  have "act c (bind (sb_Len dek) (\<lambda>n. if n = 0 \<or> n > maxDEKLen then throw [ErrDEKSize] else ?new)) w ?E ?Ok"
  proof (rule act_bind [OF w act_Len [OF w]])
    fix n :: nat and w1
    assume n: "w1 = w \<and> n = (case contents w dek of Inl _ \<Rightarrow> 0 | Inr v \<Rightarrow> length v)"
    have d: "n \<noteq> 0 \<and> n \<le> maxDEKLen \<longleftrightarrow> (\<exists>d. contents w dek = Inr d \<and> 1 \<le> length d \<and> length d \<le> maxDEKLen)"
      using n by (auto split: sum.splits simp: Suc_le_eq)
    have "act c ?new w ?E ?Ok" if len: "n \<noteq> 0 \<and> n \<le> maxDEKLen"
    proof (rule act_bind [OF w all])
      fix slots x assume x: "wfw x" and "\<exists>new. slots = [] @ new \<and> list_all2 R ms new"
      then show "act c (let env = \<lparr>eversion = FormatVersion, epolicyHint = policy, eslots = slots\<rparr> in
          if EffectivePolicy env \<noteq> policy then throw [ErrPolicyMismatch] else ret env) x ?E ?Ok"
        using False d len by (auto simp: Let_def newOk_def newErr_def intro!: act_throw act_ret)
    qed
    then show "act c (if n = 0 \<or> n > maxDEKLen then throw [ErrDEKSize] else ?new) w1 ?E ?Ok"
      using n w d by (auto simp: newErr_def intro!: act_throw)
  qed (simp add: newErr_def)
  with False show ?thesis by (simp add: NewEnvelope_def)
qed

text \<open>The errors of \<open>AddSlot\<close> beside those of the enrolment.\<close>

definition addErr :: "world \<Rightarrow> sbptr \<Rightarrow> envelope \<Rightarrow> meth \<Rightarrow> gerror \<Rightarrow> bool" where
  "addErr w dek e m x \<longleftrightarrow>
     x = [ErrDEKSize] \<and> \<not> (\<exists>d. contents w dek = Inr d \<and> 1 \<le> length d \<and> length d \<le> maxDEKLen) \<or>
     x = [ErrMalformed] \<and> maxSlotCount \<le> length (eslots e) \<or>
     x = [ErrPolicyMismatch] \<and> m_Type m \<noteq> MethodRecovery \<and> policyForMethod (m_Type m) \<noteq> EffectivePolicy e \<or>
     x = [GoPanic] \<and> dek = None"

lemma AddSlot_act:
  assumes w: "wfw w"
    and enroll: "\<And>v. wfw v \<Longrightarrow> leaves w v {} {} \<Longrightarrow>
      act c (m_Enroll m ctx dek) v Err (\<lambda>s w' K D. K = {} \<and> D = {} \<and> R s)"
  shows "act c (AddSlot X e ctx dek m) w (\<lambda>x. Err x \<or> addErr w dek e m x)
    (\<lambda>e' w' K D. K = {} \<and> D = {} \<and> length (eslots e) < maxSlotCount \<and>
       (m_Type m = MethodRecovery \<or> policyForMethod (m_Type m) = EffectivePolicy e) \<and>
       (\<exists>s. R s \<and> e' = e\<lparr>eslots := eslots e @ [s]\<rparr>))"
  (is "act _ _ _ ?E ?Ok")
  unfolding AddSlot_def
proof (rule act_bind [OF w act_Len [OF w]])
  fix n :: nat and w1 assume n: "w1 = w \<and> n = (case contents w dek of Inl _ \<Rightarrow> 0 | Inr v \<Rightarrow> length v)"
  then have d: "n \<noteq> 0 \<and> n \<le> maxDEKLen \<longleftrightarrow> (\<exists>d. contents w dek = Inr d \<and> 1 \<le> length d \<and> length d \<le> maxDEKLen)"
    by (auto split: sum.splits simp: Suc_le_eq)
  have "act c (bind (m_Enroll m ctx dek) (\<lambda>slot. ret (e\<lparr>eslots := eslots e @ [slot]\<rparr>))) w ?E ?Ok"
    if "length (eslots e) < maxSlotCount"
      "m_Type m = MethodRecovery \<or> policyForMethod (m_Type m) = EffectivePolicy e"
    by (rule act_bind [OF w act_conseq [OF enroll [OF w leaves_refl [OF w]]]])
      (use that in \<open>auto intro!: act_ret dest: leaves_wf\<close>)
  then show "act c (if n = 0 \<or> n > maxDEKLen then throw [ErrDEKSize]
     else if length (eslots e) \<ge> maxSlotCount then throw [ErrMalformed]
     else if m_Type m \<noteq> MethodRecovery \<and> policyForMethod (m_Type m) \<noteq> EffectivePolicy e
       then throw [ErrPolicyMismatch]
     else bind (m_Enroll m ctx dek) (\<lambda>slot. ret (e\<lparr>eslots := eslots e @ [slot]\<rparr>))) w1 ?E ?Ok"
    using w n d by (auto simp: addErr_def intro!: act_throw)
qed (simp add: addErr_def)

lemma AddSlot_policy:
  assumes "EffectivePolicy e \<noteq> PolicyInvalid"
    and "sType s = MethodRecovery \<or> policyForMethod (sType s) = EffectivePolicy e"
  shows "EffectivePolicy (e\<lparr>eslots := eslots e @ [s]\<rparr>) = EffectivePolicy e"
  using EffectivePolicy_iff [OF assms(1), of e] assms(2)
    EffectivePolicy_iff [OF assms(1), of "e\<lparr>eslots := eslots e @ [s]\<rparr>"]
  by (auto simp: primaries_Cons)

section \<open>The life of an envelope\<close>

text \<open>
  The envelopes that the operations can produce, with methods that keep their contract and in
  any worlds: created with a policy, then slots added and removed.
\<close>

inductive env_reach :: "environ \<Rightarrow> Policy \<Rightarrow> envelope \<Rightarrow> bool" for X p where
  env_new: "wfw w \<Longrightarrow> methods_ok c ms w \<Longrightarrow> validPtr w dek \<Longrightarrow>
    NewEnvelope X ctx dek p ms w = (Inr e, w') \<Longrightarrow> env_reach X p e"
| env_add: "env_reach X p e \<Longrightarrow> wfw w \<Longrightarrow> methods_ok c [m] w \<Longrightarrow> validPtr w dek \<Longrightarrow>
    AddSlot X e ctx dek m w = (Inr e', w') \<Longrightarrow> env_reach X p e'"
| env_remove: "env_reach X p e \<Longrightarrow> RemoveSlot e sid = Inr e' \<Longrightarrow> env_reach X p e'"

definition env_inv :: "Policy \<Rightarrow> envelope \<Rightarrow> bool" where
  "env_inv p e \<longleftrightarrow> Policy_valid p \<and> eversion e = FormatVersion \<and> epolicyHint e = p \<and>
     EffectivePolicy e = p \<and> (\<forall>s \<in> set (eslots e). complete s)"

lemma Policy_valid_not_invalid: "Policy_valid p \<Longrightarrow> p \<noteq> PolicyInvalid"
  by (auto simp: Policy_valid_def)

lemma env_reach_inv: "env_reach X p e \<Longrightarrow> env_inv p e"
proof (induction rule: env_reach.induct)
  case (env_new w c ms dek ctx e w')
  have "act c (NewEnvelope X ctx dek p ms) w
      (\<lambda>e. True \<or> newErr w dek p ms (\<lambda>m s. sType s = m_Type m \<and> complete s) e)
      (\<lambda>e w' K D. K = {} \<and> D = {} \<and> newOk w dek p ms (\<lambda>m s. sType s = m_Type m \<and> complete s) e)"
    by (rule NewEnvelope_act [OF env_new(1)])
      (auto intro: methods_ok_enroll [OF env_new(2) _ _ env_new(1)] validPtr_leaves [OF _ env_new(3)])
  from act_okD [OF this env_new(4)] show ?case
    by (auto simp: newOk_def env_inv_def list_all2_conv_all_nth in_set_conv_nth)
next
  case (env_add e w c m dek ctx e' w')
  have "act c (AddSlot X e ctx dek m) w (\<lambda>x. True \<or> addErr w dek e m x) (\<lambda>e' w' K D. K = {} \<and> D = {} \<and>
      length (eslots e) < maxSlotCount \<and>
      (m_Type m = MethodRecovery \<or> policyForMethod (m_Type m) = EffectivePolicy e) \<and>
      (\<exists>s. (sType s = m_Type m \<and> complete s) \<and> e' = e\<lparr>eslots := eslots e @ [s]\<rparr>))"
    by (rule AddSlot_act [OF env_add(2)])
      (auto intro: methods_ok_enroll [OF env_add(3) _ _ env_add(2)] validPtr_leaves [OF _ env_add(4)])
  from act_okD [OF this env_add(5)] env_add(6) show ?case
    using AddSlot_policy [of e] Policy_valid_not_invalid [of p]
    by (auto simp: env_inv_def)
next
  case (env_remove e sid e')
  then show ?case
    using RemoveSlot_policy [OF env_remove(2)] Policy_valid_not_invalid [of p]
    by (auto simp: env_inv_def RemoveSlot_Inr_iff)
qed

section \<open>Properties\<close>

text \<open>
  C35. The effective policy is read off the slots alone: it is a given valid policy exactly when there
  is a slot other than recovery slots and every such slot implies it; in every other case, no such
  slot, an unknown type or a mixture, it is the invalid policy. The stored hint plays no part.
\<close>

theorem EffectivePolicy_spec:
  "(EffectivePolicy e = p \<and> p \<noteq> PolicyInvalid \<longleftrightarrow>
      p \<noteq> PolicyInvalid \<and> primaries (eslots e) \<noteq> [] \<and>
      (\<forall>s \<in> set (primaries (eslots e)). policyForMethod (sType s) = p)) \<and>
   (EffectivePolicy e = PolicyInvalid \<or> Policy_valid (EffectivePolicy e)) \<and>
   EffectivePolicy (e\<lparr>epolicyHint := h\<rparr>) = EffectivePolicy e"
proof (intro conjI)
  show "EffectivePolicy e = PolicyInvalid \<or> Policy_valid (EffectivePolicy e)"
  proof (cases "EffectivePolicy e = PolicyInvalid")
    case False
    with EffectivePolicy_iff [OF False, of e]
    have "policyForMethod (sType (hd (primaries (eslots e)))) = EffectivePolicy e" by simp
    with policyForMethod_invalid [of "sType (hd (primaries (eslots e)))"] False show ?thesis by simp
  qed simp
qed (use EffectivePolicy_iff [of p e] in \<open>auto simp: EffectivePolicy_def\<close>)

theorem EffectivePolicy_spec_witness:
  "EffectivePolicy (goldenEnvelope\<lparr>epolicyHint := PolicyYubiKeyOnly\<rparr>) = PolicyPasswordOnly"
  using EffectivePolicy_spec [of goldenEnvelope PolicyPasswordOnly PolicyYubiKeyOnly]
  by (simp add: goldenEnvelope_def goldenPassword_def goldenRecovery_def primaries_def policyForMethod_def)

text \<open>
  C20. \<open>RemoveSlot\<close> removes exactly the first slot with the given id and nothing else, keeps the order
  of the others and a valid policy, and never leaves the envelope empty or, by removing a slot other
  than a recovery slot, without such a slot; otherwise the envelope is unchanged and the error
  says whether the id is unknown or the removal unsafe.
\<close>

theorem RemoveSlot_spec:
  "case RemoveSlot e sid of
     Inr e' \<Rightarrow> eslots e' \<noteq> [] \<and>
       (EffectivePolicy e = PolicyInvalid \<or> EffectivePolicy e' = EffectivePolicy e) \<and>
       (\<exists>a s b. eslots e = a @ s # b \<and> sID s = sid \<and> sid \<notin> sID ` set a \<and>
          e' = e\<lparr>eslots := a @ b\<rparr> \<and> (sType s = MethodRecovery \<or> primaries (a @ b) \<noteq> []))
   | Inl x \<Rightarrow> x = [ErrSlotNotFound] \<and> sid \<notin> sID ` set (eslots e) \<or>
       x = [ErrPolicyUnsafe] \<and> (\<exists>a s b. eslots e = a @ s # b \<and> sID s = sid \<and> sid \<notin> sID ` set a \<and>
          (a @ b = [] \<or> sType s \<noteq> MethodRecovery \<and> primaries (a @ b) = []))"
proof (cases "RemoveSlot e sid")
  case (Inl x)
  show ?thesis
  proof (cases "sid \<in> sID ` set (eslots e)")
    case False
    with RemoveSlot_error [OF Inl] Inl show ?thesis by auto
  next
    case True
    then have "findSlot sid (eslots e) 0 \<noteq> -1" by (simp add: findSlot_none)
    then obtain a s b where s: "eslots e = a @ s # b" "sID s = sid" "sid \<notin> sID ` set a"
      by (rule findSlot_split)
    have "\<not> (a @ b \<noteq> [] \<and> (sType s = MethodRecovery \<or> 2 \<le> length (primaries (eslots e))))"
      using Inl RemoveSlot_Inr_iff [of e sid "e\<lparr>eslots := a @ b\<rparr>"] s by auto
    then have "a @ b = [] \<or> sType s \<noteq> MethodRecovery \<and> primaries (a @ b) = []"
      using s(1) by (auto simp: primaries_Cons not_le less_Suc_eq numeral_2_eq_2)
    with s RemoveSlot_error [OF Inl] True Inl show ?thesis by auto
  qed
next
  case (Inr e')
  then obtain a s b where s: "eslots e = a @ s # b" "sID s = sid" "sid \<notin> sID ` set a" "a @ b \<noteq> []"
    "sType s = MethodRecovery \<or> 2 \<le> length (primaries (eslots e))" "e' = e\<lparr>eslots := a @ b\<rparr>"
    by (auto simp: RemoveSlot_Inr_iff)
  then have "sType s = MethodRecovery \<or> primaries (a @ b) \<noteq> []" by (auto simp: primaries_Cons)
  with s RemoveSlot_policy [OF Inr] Inr show ?thesis by auto
qed

theorem RemoveSlot_spec_witness:
  "\<exists>e'. RemoveSlot goldenEnvelope (sID goldenRecovery) = Inr e' \<and> eslots e' = [goldenPassword]"
proof -
  have g: "eslots goldenEnvelope = [goldenPassword, goldenRecovery]" "sID goldenPassword \<noteq> sID goldenRecovery"
    "sType goldenRecovery = MethodRecovery"
    by (simp_all add: goldenEnvelope_def goldenPassword_def goldenRecovery_def)
  have "a = [goldenPassword] \<and> s = goldenRecovery \<and> b = []"
    if "[goldenPassword, goldenRecovery] = a @ s # b" "sID s = sID goldenRecovery" for a s b
    using that g(2) by (auto simp: Cons_eq_append_conv)
  with RemoveSlot_spec [where e = goldenEnvelope and sid = "sID goldenRecovery"] g show ?thesis
    by (fastforce split: sum.splits)
qed

end
