(* ===== verification/Kdf.thy ===== *)
theory Kdf
  imports Kdf_Params Contracts
begin

text \<open>
  The derivation side of \<open>kdf.go\<close>: the interface \<open>KDF\<close> as a record of operations,
  \<open>deriveWithStretch\<close> and the two built-in implementations. The stretching functions are
  \<open>golang.org/x/crypto\<close> and stay parameters. The locale \<open>kdf_contract\<close> is what the unlock methods
  rely on.
\<close>

section \<open>The interface\<close>

record kdf_iface =
  k_ID :: KDFID
  k_SaltLen :: int
  k_MarshalParams :: bytes
  k_Derive :: "sbptr \<Rightarrow> bytes \<Rightarrow> sbptr io"

abbreviation (input) defaultSaltLen :: int where "defaultSaltLen \<equiv> 16"
abbreviation (input) pkLen :: nat where "pkLen \<equiv> 32"

section \<open>The built-in KDFs\<close>

definition deriveWithStretch :: "environ \<Rightarrow> sbptr \<Rightarrow> (bytes \<Rightarrow> gerror + bytes) \<Rightarrow> sbptr io" where
  "deriveWithStretch X password stretch =
     sb_Read password (\<lambda>pw.
       bind (bind (lift (stretch pw)) alloc) (\<lambda>raw.
       deferring (zero raw) (sb_New X raw)))"

text \<open>
  \<open>argon2.IDKey\<close> panics without a pass or a thread; \<open>scrypt.Key\<close> returns an error. The Go
  expression \<open>1<<k.logN\<close> is a 64-bit \<open>int\<close>.
\<close>

fun kdf_stretch :: "environ \<Rightarrow> kdfval \<Rightarrow> bytes \<Rightarrow> bytes \<Rightarrow> gerror + bytes" where
  "kdf_stretch X (KArgon2id k) pw salt =
     (if a_time k < 1 \<or> a_threads k < 1 then Inl [GoPanic]
      else Inr (x_argon2 X pw salt (a_time k) (a_memoryKiB k) (a_threads k) pkLen))"
| "kdf_stretch X (KScrypt k) pw salt =
     (case x_scrypt X pw salt (sint (push_bit (unat (s_logN k)) 1 :: u64)) (unat (s_r k))
        (unat (s_p k)) pkLen of
        Inl n \<Rightarrow> Inl [External n]
      | Inr b \<Rightarrow> Inr b)"

definition kdf_Derive :: "environ \<Rightarrow> kdfval \<Rightarrow> sbptr \<Rightarrow> bytes \<Rightarrow> sbptr io" where
  "kdf_Derive X k password salt = deriveWithStretch X password (\<lambda>pw. kdf_stretch X k pw salt)"

abbreviation (input) ScryptKDF_SaltLen :: "ScryptKDF \<Rightarrow> int" where
  "ScryptKDF_SaltLen k \<equiv> defaultSaltLen"

fun kdf_SaltLen :: "kdfval \<Rightarrow> int" where
  "kdf_SaltLen (KArgon2id k) = defaultSaltLen"
| "kdf_SaltLen (KScrypt k) = ScryptKDF_SaltLen k"

lemma kdf_SaltLen_eq: "kdf_SaltLen k = defaultSaltLen"
  by (cases k) simp_all

text \<open>A built-in KDF as a value of the interface.\<close>

definition builtin_kdf :: "environ \<Rightarrow> kdfval \<Rightarrow> kdf_iface" where
  "builtin_kdf X k =
     \<lparr>k_ID = kdf_ID k, k_SaltLen = kdf_SaltLen k, k_MarshalParams = kdf_MarshalParams k,
      k_Derive = kdf_Derive X k\<rparr>"

section \<open>The contract\<close>

text \<open>What a function of a container's contents gives.\<close>

definition derived :: "world \<Rightarrow> sbptr \<Rightarrow> (bytes \<Rightarrow> gerror + bytes) \<Rightarrow> gerror + bytes" where
  "derived w p f = (case contents w p of Inl e \<Rightarrow> Inl e | Inr v \<Rightarrow> f v)"

lemma derived_stable:
  "wfw w \<Longrightarrow> leaves w w' K D \<Longrightarrow> validPtr w p \<Longrightarrow> derived w' p f = derived w p f"
  by (simp add: derived_def contents_stable)

text \<open>
  A KDF stretches the password's bytes and the salt into one fresh key and leaves nothing else
  behind, on success and on failure.
\<close>

locale kdf_contract =
  fixes K :: kdf_iface and stretch :: "bytes \<Rightarrow> bytes \<Rightarrow> gerror + bytes" and E :: "gerror set"
  assumes derive: "wfw w \<Longrightarrow>
    computes True E (k_Derive K p salt) (derived w p (\<lambda>pw. stretch pw salt)) w"

lemma deriveWithStretch_computes:
  assumes w: "wfw w"
  shows "computes True (faults X) (deriveWithStretch X p f) (derived w p f) w"
  unfolding deriveWithStretch_def computes_def
proof (rule act_Read [OF w])
  fix v assume v: "contents w p = Inr v"
  have "computesRaw True (faults X) (bind (lift (f v)) alloc) (f v) w"
  proof (cases "f v")
    case (Inl e)
    then show ?thesis unfolding computesRaw_def
      by (intro act_errI [where D = "{}" and w' = w]) (auto simp: bind_def lift_apply w)
  next
    case (Inr b)
    then show ?thesis
      using computesRaw_alloc [OF w, of True "faults X" b]
      by (simp add: computesRaw_def act_def bind_def lift_apply)
  qed
  from computes_New [OF w this, of X] v
  show "act True (bind (bind (lift (f v)) alloc) (\<lambda>raw. deferring (zero raw) (sb_New X raw))) w
      (\<lambda>e. e \<in> faults X \<or> derived w p f = Inl e)
      (\<lambda>q w' K D. \<exists>i v. q = Some i \<and> K = {(i, v)} \<and> D = {} \<and> derived w p f = Inr v)"
    by (simp add: computes_def derived_def)
qed (simp add: derived_def)

lemma kdf_Derive_computes:
  "wfw w \<Longrightarrow> computes True (faults X) (kdf_Derive X k p salt) (derived w p (\<lambda>pw. kdf_stretch X k pw salt)) w"
  unfolding kdf_Derive_def by (rule deriveWithStretch_computes)

interpretation builtin: kdf_contract "builtin_kdf X k" "kdf_stretch X k" "faults X" for X k
  by unfold_locales (simp add: builtin_kdf_def kdf_Derive_computes)

end
