(* ===== verification/Password.thy ===== *)
theory Password
  imports Method Kdf
begin

text \<open>
  \<open>password.go\<close>: the password method. The KDF it is given is used when enrolling; unlocking uses
  the parameters stored in the slot.
\<close>

section \<open>The method\<close>

record PasswordMethod =
  pm_kdf :: "kdf_iface option"
  pm_password :: sbptr
  pm_label :: bytes

definition NewPasswordMethod :: "kdf_iface option \<Rightarrow> sbptr \<Rightarrow> Option list \<Rightarrow> PasswordMethod" where
  "NewPasswordMethod kdf password opts =
     (let o' = applyOptions (ascii ''password'') opts
      in \<lparr>pm_kdf = kdf, pm_password = password, pm_label = moLabel o'\<rparr>)"

definition PasswordMethod_Enroll :: "environ \<Rightarrow> PasswordMethod \<Rightarrow> nat \<Rightarrow> sbptr \<Rightarrow> slot io" where
  "PasswordMethod_Enroll X m ctx dek =
     bind (ctxCheck X ctx) (\<lambda>_.
     case pm_kdf m of
       None \<Rightarrow> throw [ErrUnsupportedKDF]
     | Some kdf \<Rightarrow>
         bind (randBytes X (k_SaltLen kdf)) (\<lambda>salt.
         bind (k_Derive kdf (pm_password m) salt) (\<lambda>pk.
         deferring (sb_Destroy X pk) (
           wrapDEK X dek (noInputs\<lparr>ikPassword := pk\<rparr>)
             \<lparr>shmt = MethodPassword, shkdfID = k_ID kdf, shkdfParams = k_MarshalParams kdf,
              shkdfSalt = salt, shchalSalt = [], shchallenge = [], shykSlot = 0,
              shlabel = pm_label m\<rparr>))))"

definition derivePasswordKey :: "environ \<Rightarrow> slot \<Rightarrow> sbptr \<Rightarrow> sbptr io" where
  "derivePasswordKey X s password =
     bind (lift (parseKDF (sKDFID s) (sKDFParams s))) (\<lambda>kdf.
     case kdf of
       None \<Rightarrow> throw [ErrMalformed]
     | Some k \<Rightarrow> kdf_Derive X k password (sKDFSalt s))"

definition PasswordMethod_Unlock :: "environ \<Rightarrow> PasswordMethod \<Rightarrow> nat \<Rightarrow> slot \<Rightarrow> sbptr io" where
  "PasswordMethod_Unlock X m ctx s =
     bind (ctxCheck X ctx) (\<lambda>_.
     bind (derivePasswordKey X s (pm_password m)) (\<lambda>pk.
     deferring (sb_Destroy X pk) (unwrapDEK X s (noInputs\<lparr>ikPassword := pk\<rparr>))))"

definition password_method :: "environ \<Rightarrow> PasswordMethod \<Rightarrow> meth" where
  "password_method X m =
     \<lparr>m_Type = MethodPassword, m_Enroll = PasswordMethod_Enroll X m,
      m_Unlock = PasswordMethod_Unlock X m\<rparr>"

section \<open>The password key of a slot\<close>

definition slotPasswordKey :: "environ \<Rightarrow> gerror + bytes \<Rightarrow> slot \<Rightarrow> gerror + bytes" where
  "slotPasswordKey X pw s =
     (case parseKDF (sKDFID s) (sKDFParams s) of
        Inl e \<Rightarrow> Inl e
      | Inr None \<Rightarrow> Inl [ErrMalformed]
      | Inr (Some k) \<Rightarrow> (case pw of Inl e \<Rightarrow> Inl e | Inr v \<Rightarrow> kdf_stretch X k v (sKDFSalt s)))"

lemma derivePasswordKey_computes:
  assumes w: "wfw w"
  shows "computes True (faults X) (derivePasswordKey X s p) (slotPasswordKey X (contents w p) s) w"
proof -
  have "slotPasswordKey X (contents w p) s =
      (case parseKDF (sKDFID s) (sKDFParams s) of Inl e \<Rightarrow> Inl e
       | Inr x \<Rightarrow> (case x of None \<Rightarrow> Inl [ErrMalformed]
                    | Some k \<Rightarrow> derived w p (\<lambda>v. kdf_stretch X k v (sKDFSalt s))))"
    by (simp add: slotPasswordKey_def derived_def split: sum.splits option.splits)
  then show ?thesis
    unfolding derivePasswordKey_def
    by (auto intro!: computes_lift computes_throw kdf_Derive_computes w split: option.splits)
qed

definition passwordSpec :: "environ \<Rightarrow> world \<Rightarrow> PasswordMethod \<Rightarrow> slot \<Rightarrow> gerror + bytes" where
  "passwordSpec X w m s =
     (case slotPasswordKey X (contents w (pm_password m)) s of Inl e \<Rightarrow> Inl e
      | Inr pk \<Rightarrow> unwrapSpec X (Inr (ikmBytes (Some pk) None None)) s)"

lemma ikmSpec_password:
  "contents w (Some i) = Inr v \<Longrightarrow>
   ikmSpec w (noInputs\<lparr>ikPassword := Some i\<rparr>) = Inr (ikmBytes (Some v) None None)"
  by (simp add: ikmSpec_factors noInputs_def factor_Some)

lemma validInputs_password:
  "contents w (Some i) = Inr v \<Longrightarrow> validInputs w (noInputs\<lparr>ikPassword := Some i\<rparr>)"
  by (auto simp: validInputs_def roles_def noInputs_def dest: contents_valid)

lemma PasswordMethod_Unlock_computes:
  assumes w: "wfw w" and valid: "validPtr w (pm_password m)"
  shows "computes True (faults X) (PasswordMethod_Unlock X m ctx s) (passwordSpec X w m s) w"
  unfolding PasswordMethod_Unlock_def
proof (rule computes_ctxCheck [OF w order_refl])
  fix w1 assume w1: "wfw w1" "leaves w w1 {} {}"
  have spec: "passwordSpec X w m s = (case slotPasswordKey X (contents w1 (pm_password m)) s of
      Inl e \<Rightarrow> Inl e | Inr pk \<Rightarrow> unwrapSpec X (Inr (ikmBytes (Some pk) None None)) s)"
    by (simp add: passwordSpec_def contents_stable [OF w w1(2) valid])
  show "computes True (faults X) (bind (derivePasswordKey X s (pm_password m)) (\<lambda>pk.
     deferring (sb_Destroy X pk) (unwrapDEK X s (noInputs\<lparr>ikPassword := pk\<rparr>)))) (passwordSpec X w m s) w1"
    unfolding spec
  proof (rule computes_scoped [OF w1(1) derivePasswordKey_computes [OF w1(1)]])
    fix i v w2 assume w2: "wfw w2" and c: "contents w2 (Some i) = Inr v"
    show "computes True (faults X) (unwrapDEK X s (noInputs\<lparr>ikPassword := Some i\<rparr>))
        (unwrapSpec X (Inr (ikmBytes (Some v) None None)) s) w2"
      using unwrapDEK_computes [OF w2 validInputs_password [OF c], of X s]
      by (simp only: ikmSpec_password [OF c])
  qed
qed

section \<open>Enrolling\<close>

text \<open>
  The slot of an enrolment: the data key sealed under the stretched password, with the KDF, its
  parameters and the fresh salt stored beside it.
\<close>

definition password_enrolled ::
  "environ \<Rightarrow> kdf_iface \<Rightarrow> (bytes \<Rightarrow> bytes \<Rightarrow> gerror + bytes) \<Rightarrow> bytes \<Rightarrow> bytes \<Rightarrow> bytes \<Rightarrow> slot \<Rightarrow> bool" where
  "password_enrolled X K stretch lbl pw d s \<longleftrightarrow>
     sType s = MethodPassword \<and> sKDFID s = k_ID K \<and> sKDFParams s = k_MarshalParams K \<and>
     length (sKDFSalt s) = nat (k_SaltLen K) \<and> sChalSalt s = [] \<and> sChallenge s = [] \<and>
     sYKSlot s = 0 \<and> sLabel s = lbl \<and>
     (\<exists>pk. stretch pw (sKDFSalt s) = Inr pk \<and> sealedWith X (ikmBytes (Some pk) None None) d s)"

text \<open>
  What an enrolment can fail with, besides the faults: a field too long for the format, a KDF that
  refuses, a destroyed password or data key.
\<close>

definition enrollFits :: "kdf_iface \<Rightarrow> bytes \<Rightarrow> bool" where
  "enrollFits K lbl \<longleftrightarrow> 0 \<le> k_SaltLen K \<and> k_SaltLen K \<le> int maxSaltLen \<and>
     length (k_MarshalParams K) \<le> maxKDFParamsLen \<and> length lbl \<le> maxLabelLen"

definition password_enrollErr ::
  "gerror set \<Rightarrow> kdf_iface \<Rightarrow> (bytes \<Rightarrow> bytes \<Rightarrow> gerror + bytes) \<Rightarrow> bytes \<Rightarrow> gerror + bytes \<Rightarrow> gerror + bytes \<Rightarrow>
   gerror \<Rightarrow> bool" where
  "password_enrollErr F K stretch lbl pw d e \<longleftrightarrow>
     e \<in> F \<or> (e = [ErrMalformed] \<or> e = [GoPanic]) \<and> \<not> enrollFits K lbl \<or> pw = Inl e \<or> d = Inl e \<or>
     (\<exists>v salt. pw = Inr v \<and> length salt = nat (k_SaltLen K) \<and> stretch v salt = Inl e)"

context kdf_contract
begin

lemma password_enroll:
  assumes w: "wfw w" and valid: "validPtr w (pm_password m)" "validPtr w dek"
    and K: "pm_kdf m = Some K"
  shows "act True (PasswordMethod_Enroll X m ctx dek) w
    (password_enrollErr (faults X \<union> E) K stretch (pm_label m) (contents w (pm_password m)) (contents w dek))
    (\<lambda>s w' L D. L = {} \<and> D = {} \<and> (\<exists>pw d. contents w (pm_password m) = Inr pw \<and>
       contents w dek = Inr d \<and> password_enrolled X K stretch (pm_label m) pw d s))"
  (is "act _ _ _ ?E ?Ok")
  unfolding PasswordMethod_Enroll_def K option.case
proof (rule act_bind [OF w, where P = "\<lambda>_ _. True"])
  show "act True (ctxCheck X ctx) w ?E (\<lambda>x w1 L D. L = {} \<and> D = {} \<and> True)"
    by (rule act_conseq [OF act_ctxCheck [OF w, where Err = ?E]]) (auto simp: password_enrollErr_def)
next
  fix w1 assume w1: "wfw w1" "leaves w w1 {} {}"
  let ?sh = "\<lambda>salt. \<lparr>shmt = MethodPassword, shkdfID = k_ID K, shkdfParams = k_MarshalParams K,
      shkdfSalt = salt, shchalSalt = [], shchallenge = [], shykSlot = 0, shlabel = pm_label m\<rparr>"
  show "act True (bind (randBytes X (k_SaltLen K)) (\<lambda>salt :: bytes.
      bind (k_Derive K (pm_password m) salt) (\<lambda>pk. deferring (sb_Destroy X pk)
        (wrapDEK X dek (noInputs\<lparr>ikPassword := pk\<rparr>) (?sh salt))))) w1 ?E ?Ok"
  proof (rule act_bind [OF w1(1), OF act_randBytes [OF w1(1)]])
    fix salt :: bytes and w2 assume w2: "wfw w2" "leaves w1 w2 {} {}" and salt: "length salt = nat (k_SaltLen K)"
    have l2: "leaves w w2 {} {}" by (rule leaves_clean_trans [OF w w1(2) w2(2)])
    show "act True (bind (k_Derive K (pm_password m) salt) (\<lambda>pk. deferring (sb_Destroy X pk)
        (wrapDEK X dek (noInputs\<lparr>ikPassword := pk\<rparr>) (?sh salt)))) w2 ?E ?Ok"
    proof (rule act_computes [OF w2(1) derive [OF w2(1), of "pm_password m" salt]])
      fix i v w3 assume w3: "wfw w3" "leaves w2 w3 {(i, v)} {}" and c: "contents w3 (Some i) = Inr v"
        and v: "derived w2 (pm_password m) (\<lambda>pw. stretch pw salt) = Inr v"
      have l3: "leaves w w3 {(i, v)} {}" by (rule leaves_clean_trans [OF w l2 w3(2)])
      from v obtain pw where pw: "contents w (pm_password m) = Inr pw" "stretch pw salt = Inr v"
        using contents_stable [OF w l2 valid(1)] by (auto simp: derived_def split: sum.splits)
      note vi = validInputs_password [OF c]
      have vd: "validPtr w3 dek" by (rule validPtr_leaves [OF l3 valid(2)])
      show "act True (wrapDEK X dek (noInputs\<lparr>ikPassword := Some i\<rparr>) (?sh salt)) w3 ?E
          (\<lambda>x w4 L D. \<forall>w5. ?Ok x w5 L D)"
        by (rule act_conseq [OF wrapDEK_act [OF w3(1) vi vd]])
          (use pw salt contents_stable [OF w l3 valid(2)] in
            \<open>auto simp: ikmSpec_password [OF c] password_enrolled_def shaped_def wrapErr_def
              password_enrollErr_def enrollFits_def shapeFits_def MethodType_valid_def\<close>)
    qed (use salt contents_stable [OF w l2 valid(1)] in
        \<open>auto simp: password_enrollErr_def derived_def split: sum.splits\<close>)
  qed (simp_all add: password_enrollErr_def enrollFits_def)
qed

end

text \<open>Unlocking an enrolled slot with the same password gives the data key.\<close>

lemma password_roundtrip:
  assumes "aead_correct X" and "parseKDF (k_ID K) (k_MarshalParams K) = Inr (Some k)" and "contents w (pm_password m) = Inr pw"
    and "password_enrolled X K (kdf_stretch X k) lbl pw d s"
  shows "passwordSpec X w m s = Inr d"
  using assms
  by (auto simp: passwordSpec_def slotPasswordKey_def password_enrolled_def intro: unwrapSpec_sealed)

text \<open>The method's premises: the password exists and the KDF, if any, keeps its contract.\<close>

definition password_valid :: "PasswordMethod \<Rightarrow> world \<Rightarrow> bool" where
  "password_valid m w \<longleftrightarrow> validPtr w (pm_password m) \<and>
     (\<forall>K. pm_kdf m = Some K \<longrightarrow> (\<exists>stretch E. kdf_contract K stretch E))"

interpretation password: method_contract "password_method X m" "password_valid m" True for X m
proof unfold_locales
  fix w dek ctx
  assume w: "wfw w" and valid: "password_valid m w" and d: "validPtr w dek"
  then have v: "validPtr w (pm_password m)" by (simp add: password_valid_def)
  show "act True (m_Enroll (password_method X m) ctx dek) w (\<lambda>_. True)
      (\<lambda>s w' K D. K = {} \<and> D = {} \<and> sType s = m_Type (password_method X m) \<and> complete s)"
  proof (cases "pm_kdf m")
    case None
    have "act True (bind (ctxCheck X ctx) (\<lambda>_. throw [ErrUnsupportedKDF])) w (\<lambda>_. True) Q" for Q
      by (rule act_bind [OF w, where P = "\<lambda>_ _. True"],
          rule act_conseq [OF act_ctxCheck [OF w, where Err = "\<lambda>_. True"]])
        (auto intro: act_throw)
    then show ?thesis using None by (simp add: password_method_def PasswordMethod_Enroll_def)
  next
    case (Some K)
    with valid obtain stretch E where "kdf_contract K stretch E"
      by (auto simp: password_valid_def)
    note pe = kdf_contract.password_enroll [OF this w v d Some]
    show ?thesis
      unfolding password_method_def meth.simps
      by (rule act_conseq [OF pe])
        (auto simp: password_enrolled_def sealedWith_def complete_def)
  qed
next
  fix w ctx s assume w: "wfw w" and "password_valid m w"
  then have v: "validPtr w (pm_password m)" by (simp add: password_valid_def)
  show "act True (m_Unlock (password_method X m) ctx s) w (\<lambda>_. True)
      (\<lambda>p w' K D. \<exists>i v. p = Some i \<and> K = {(i, v)} \<and> D = {})"
    unfolding password_method_def meth.simps
    by (rule act_conseq [OF PasswordMethod_Unlock_computes [OF w v, of X ctx s, unfolded computes_def]]) auto
qed (auto simp: password_valid_def intro: validPtr_leaves)

section \<open>Properties\<close>

text \<open>The fixtures: a password method with a small Argon2id.\<close>

definition demoKDF :: kdfval where
  "demoKDF = KArgon2id (NewArgon2idKDF 1 8 1)"

definition demoPasswordMethod :: PasswordMethod where
  "demoPasswordMethod = NewPasswordMethod (Some (builtin_kdf demoX demoKDF)) (Some 0) []"

lemma demoPasswordMethod_simps [simp]:
  "pm_password demoPasswordMethod = Some 0"
  "pm_kdf demoPasswordMethod = Some (builtin_kdf demoX demoKDF)"
  "length (pm_label demoPasswordMethod) \<le> maxLabelLen"
  by (simp_all add: demoPasswordMethod_def NewPasswordMethod_def applyOptions_def ascii_def Let_def)

lemma demoKDF_bounded: "kdf_bounded demoKDF"
  by (simp add: demoKDF_def NewArgon2idKDF_def)

lemma demoKDF_stretch [simp]: "kdf_stretch demoX demoKDF pw salt \<noteq> Inl e"
  by (simp add: demoKDF_def NewArgon2idKDF_def)

lemma demo_enrollFits: "length lbl \<le> maxLabelLen \<Longrightarrow> enrollFits (builtin_kdf X k) lbl"
  by (cases k) (auto simp: enrollFits_def builtin_kdf_def kdf_SaltLen_eq)

text \<open>
  Enrolling a password with a built-in KDF: the slot records the KDF, its parameters and a fresh
  16-byte salt, and seals the data key under the password stretched with exactly these. It fails
  only by a fault outside, a label over 256 bytes, a KDF that refuses, or a destroyed container; the
  stretched key is wiped whatever happens.
\<close>

lemma PasswordMethod_Enroll_spec:
  assumes "wfw w" and "validPtr w (pm_password m)" and "validPtr w dek"
    and "pm_kdf m = Some (builtin_kdf X k)"
  shows "case PasswordMethod_Enroll X m ctx dek w of
      (Inl e, w') \<Rightarrow> password_enrollErr (faults X) (builtin_kdf X k) (kdf_stretch X k) (pm_label m)
         (contents w (pm_password m)) (contents w dek) e \<and> leaves w w' {} {}
    | (Inr s, w') \<Rightarrow> (\<exists>pw d. contents w (pm_password m) = Inr pw \<and> contents w dek = Inr d \<and>
         password_enrolled X (builtin_kdf X k) (kdf_stretch X k) (pm_label m) pw d s) \<and>
         leaves w w' {} {}"
proof -
  let ?E = "password_enrollErr (faults X \<union> faults X) (builtin_kdf X k) (kdf_stretch X k) (pm_label m)
    (contents w (pm_password m)) (contents w dek)"
  have "act True (PasswordMethod_Enroll X m ctx dek) w ?E
    (\<lambda>s w' L D. L = {} \<and> D = {} \<and> (\<exists>pw d. contents w (pm_password m) = Inr pw \<and>
       contents w dek = Inr d \<and>
       password_enrolled X (builtin_kdf X k) (kdf_stretch X k) (pm_label m) pw d s))"
    by (rule builtin.password_enroll [OF assms(1-4)])
  then show ?thesis by (simp only: act_run Un_absorb)
qed

lemma PasswordMethod_Enroll_spec_example:
  "\<exists>s w'. PasswordMethod_Enroll demoX demoPasswordMethod 0 (Some 1) demoW = (Inr s, w') \<and>
     password_enrolled demoX (builtin_kdf demoX demoKDF) (kdf_stretch demoX demoKDF)
       (pm_label demoPasswordMethod) demoPassword demoDEK s"
  using PasswordMethod_Enroll_spec [OF demoW_wfw, of demoPasswordMethod "Some 1" demoX demoKDF 0]
    demo_enrollFits [of "pm_label demoPasswordMethod" demoX demoKDF]
  by (auto simp: password_enrollErr_def split: prod.splits sum.splits)

text \<open>
  C28. Unlocking with a password depends only on the slot and the password's bytes: it rebuilds the
  KDF from the slot, stretches, and opens, giving exactly one new container with the opened key, or
  the specified error; a slot without a KDF is refused as malformed before anything is stretched.
\<close>

theorem PasswordMethod_Unlock_spec:
  assumes "wfw w" and "validPtr w (pm_password m)"
  shows "case PasswordMethod_Unlock X m ctx s w of
      (Inl e, w') \<Rightarrow> (e \<in> faults X \<or> passwordSpec X w m s = Inl e) \<and> leaves w w' {} {}
    | (Inr p, w') \<Rightarrow> \<exists>i d. p = Some i \<and> passwordSpec X w m s = Inr d \<and> leaves w w' {(i, d)} {}"
  using PasswordMethod_Unlock_computes [OF assms, of X ctx s] unfolding computes_run .

theorem PasswordMethod_Unlock_spec_witness:
  "\<exists>w'. PasswordMethod_Unlock demoX demoPasswordMethod 0 goldenRecovery demoW = (Inl [ErrMalformed], w') \<and>
     leaves demoW w' {} {}"
proof -
  have "passwordSpec demoX demoW demoPasswordMethod goldenRecovery = Inl [ErrMalformed]"
    by (simp add: passwordSpec_def slotPasswordKey_def goldenRecovery_def parseKDF_def)
  with PasswordMethod_Unlock_spec [OF demoW_wfw, of demoPasswordMethod demoX goldenRecovery 0] show ?thesis
    by (auto split: prod.splits sum.splits)
qed

end
