(* ===== verification/Recovery.thy ===== *)
theory Recovery
  imports Method
begin

text \<open>
  \<open>recovery.go\<close>: the recovery-code method and the text form of a code, with the unpadded base32
  codec of \<open>encoding/base32\<close> written out. A Go string is its bytes; the strings themselves cannot
  be wiped and are not part of the memory, only the decoded slice is.
\<close>

section \<open>encoding/base32, standard alphabet, NoPadding\<close>

abbreviation (input) RecoveryCodeLen :: nat where "RecoveryCodeLen \<equiv> 32"

definition b32_char :: "u8 \<Rightarrow> u8" where
  "b32_char v = (if v < 26 then v + 65 else v + 24)"

definition b32_val :: "u8 \<Rightarrow> u8 option" where
  "b32_val c = (if 65 \<le> c \<and> c \<le> 90 then Some (c - 65)
     else if 50 \<le> c \<and> c \<le> 55 then Some (c - 24) else None)"

text \<open>The 5-bit groups of up to five bytes.\<close>

definition b32_s0 :: "u8 \<Rightarrow> u8" where "b32_s0 a = drop_bit 3 a AND 31"
definition b32_s1 :: "u8 \<Rightarrow> u8 \<Rightarrow> u8" where "b32_s1 a b = (push_bit 2 a OR drop_bit 6 b) AND 31"
definition b32_s2 :: "u8 \<Rightarrow> u8" where "b32_s2 b = drop_bit 1 b AND 31"
definition b32_s3 :: "u8 \<Rightarrow> u8 \<Rightarrow> u8" where "b32_s3 b c = (push_bit 4 b OR drop_bit 4 c) AND 31"
definition b32_s4 :: "u8 \<Rightarrow> u8 \<Rightarrow> u8" where "b32_s4 c d = (push_bit 1 c OR drop_bit 7 d) AND 31"
definition b32_s5 :: "u8 \<Rightarrow> u8" where "b32_s5 d = drop_bit 2 d AND 31"
definition b32_s6 :: "u8 \<Rightarrow> u8 \<Rightarrow> u8" where "b32_s6 d e = (push_bit 3 d OR drop_bit 5 e) AND 31"
definition b32_s7 :: "u8 \<Rightarrow> u8" where "b32_s7 e = e AND 31"

definition b32_split :: "u8 \<Rightarrow> u8 \<Rightarrow> u8 \<Rightarrow> u8 \<Rightarrow> u8 \<Rightarrow> u8 list" where
  "b32_split a b c d e =
     [b32_s0 a, b32_s1 a b, b32_s2 b, b32_s3 b c, b32_s4 c d, b32_s5 d, b32_s6 d e, b32_s7 e]"

fun b32_Encode :: "bytes \<Rightarrow> bytes" where
  "b32_Encode (a # b # c # d # e # r) = map b32_char (b32_split a b c d e) @ b32_Encode r"
| "b32_Encode [a, b, c, d] = map b32_char (take 7 (b32_split a b c d 0))"
| "b32_Encode [a, b, c] = map b32_char (take 5 (b32_split a b c 0 0))"
| "b32_Encode [a, b] = map b32_char (take 4 (b32_split a b 0 0 0))"
| "b32_Encode [a] = map b32_char (take 2 (b32_split a 0 0 0 0))"
| "b32_Encode [] = []"

text \<open>
  The bytes of a decoded quantum: the \<open>switch\<close> on the number of characters, in which a quantum
  of 1, 3 or 6 characters writes nothing.
\<close>

definition b32_p0 :: "u8 \<Rightarrow> u8 \<Rightarrow> u8" where "b32_p0 x y = push_bit 3 x OR drop_bit 2 y"
definition b32_p1 :: "u8 \<Rightarrow> u8 \<Rightarrow> u8 \<Rightarrow> u8" where
  "b32_p1 x y z = push_bit 6 x OR push_bit 1 y OR drop_bit 4 z"
definition b32_p2 :: "u8 \<Rightarrow> u8 \<Rightarrow> u8" where "b32_p2 x y = push_bit 4 x OR drop_bit 1 y"
definition b32_p3 :: "u8 \<Rightarrow> u8 \<Rightarrow> u8 \<Rightarrow> u8" where
  "b32_p3 x y z = push_bit 7 x OR push_bit 2 y OR drop_bit 3 z"
definition b32_p4 :: "u8 \<Rightarrow> u8 \<Rightarrow> u8" where "b32_p4 x y = push_bit 5 x OR y"

fun b32_pack :: "u8 list \<Rightarrow> bytes" where
  "b32_pack [i, j, k, l, m, n, p, q] =
     [b32_p0 i j, b32_p1 j k l, b32_p2 l m, b32_p3 m n p, b32_p4 p q]"
| "b32_pack [i, j, k, l, m, n, p] = [b32_p0 i j, b32_p1 j k l, b32_p2 l m, b32_p3 m n p]"
| "b32_pack [i, j, k, l, m] = [b32_p0 i j, b32_p1 j k l, b32_p2 l m]"
| "b32_pack [i, j, k, l] = [b32_p0 i j, b32_p1 j k l]"
| "b32_pack [i, j] = [b32_p0 i j]"
| "b32_pack _ = []"

fun b32_vals :: "bytes \<Rightarrow> u8 list option" where
  "b32_vals [] = Some []"
| "b32_vals (c # cs) =
     (case b32_val c of None \<Rightarrow> None
      | Some v \<Rightarrow> (case b32_vals cs of None \<Rightarrow> None | Some vs \<Rightarrow> Some (v # vs)))"

text \<open>
  \<open>DecodeString\<close>: the bytes decoded before the first bad quantum, and whether there was none. It
  is called on letters and digits only, so the removal of newlines does nothing.
\<close>

fun b32_Decode :: "bytes \<Rightarrow> bytes \<times> bool" where
  "b32_Decode (a # b # c # d # e # f # g # h # r) =
     (case b32_vals [a, b, c, d, e, f, g, h] of
        None \<Rightarrow> ([], False)
      | Some q \<Rightarrow> (case b32_Decode r of (out, ok) \<Rightarrow> (b32_pack q @ out, ok)))"
| "b32_Decode cs = (case b32_vals cs of None \<Rightarrow> ([], False) | Some q \<Rightarrow> (b32_pack q, True))"

section \<open>The text form\<close>

definition groupString :: "bytes \<Rightarrow> int \<Rightarrow> bytes" where
  "groupString s n =
     (if n \<le> 0 \<or> int (length s) \<le> n then s
      else concat (map (\<lambda>i. if i > 0 \<and> int i mod n = 0 then [45, s ! i] else [s ! i]) [0..<length s]))"

text \<open>
  The clean-up of \<open>ParseRecoveryCode\<close>: letters and digits are kept in upper case, every other
  rune is dropped; the bytes of a rune beyond ASCII are all at least 128.
\<close>

definition cleanRune :: "u8 \<Rightarrow> u8 option" where
  "cleanRune r =
     (if 65 \<le> r \<and> r \<le> 90 then Some r
      else if 97 \<le> r \<and> r \<le> 122 then Some (r - (97 - 65))
      else if 48 \<le> r \<and> r \<le> 57 then Some r
      else None)"

definition cleaned :: "bytes \<Rightarrow> bytes" where
  "cleaned s = List.map_filter cleanRune s"

definition FormatRecoveryCode :: "sbptr \<Rightarrow> bytes io" where
  "FormatRecoveryCode code = sb_Read code (\<lambda>b. ret (groupString (b32_Encode b) 4))"

definition ParseRecoveryCode :: "environ \<Rightarrow> bytes \<Rightarrow> sbptr io" where
  "ParseRecoveryCode X s =
     (case b32_Decode (cleaned s) of (out, ok) \<Rightarrow>
        bind (alloc out) (\<lambda>raw.
        if \<not> ok then throw [ErrInvalidRecoveryCode, External 2]
        else
          deferring (zero raw) (
            if length out \<noteq> RecoveryCodeLen then throw [ErrInvalidRecoveryCode]
            else sb_New X raw)))"

definition GenerateRecoveryCode :: "environ \<Rightarrow> sbptr io" where
  "GenerateRecoveryCode X =
     bind (bind (randBytes X (int RecoveryCodeLen)) alloc) (\<lambda>raw.
     deferring (zero raw) (sb_New X raw))"

section \<open>The method\<close>

record RecoveryCodeMethod =
  rm_code :: sbptr
  rm_label :: bytes

definition NewRecoveryMethod :: "sbptr \<Rightarrow> Option list \<Rightarrow> RecoveryCodeMethod" where
  "NewRecoveryMethod code opts =
     (let o' = applyOptions (ascii ''recovery-code'') opts in \<lparr>rm_code = code, rm_label = moLabel o'\<rparr>)"

definition RecoveryCodeMethod_Enroll :: "environ \<Rightarrow> RecoveryCodeMethod \<Rightarrow> nat \<Rightarrow> sbptr \<Rightarrow> slot io" where
  "RecoveryCodeMethod_Enroll X m ctx dek =
     bind (ctxCheck X ctx) (\<lambda>_.
     bind (sb_Len (rm_code m)) (\<lambda>n.
     if n \<noteq> RecoveryCodeLen then throw [ErrInvalidRecoveryCode]
     else
       wrapDEK X dek (noInputs\<lparr>ikRecovery := rm_code m\<rparr>)
         \<lparr>shmt = MethodRecovery, shkdfID = KDFNone, shkdfParams = [], shkdfSalt = [],
          shchalSalt = [], shchallenge = [], shykSlot = 0, shlabel = rm_label m\<rparr>))"

definition RecoveryCodeMethod_Unlock :: "environ \<Rightarrow> RecoveryCodeMethod \<Rightarrow> nat \<Rightarrow> slot \<Rightarrow> sbptr io" where
  "RecoveryCodeMethod_Unlock X m ctx s =
     bind (ctxCheck X ctx) (\<lambda>_. unwrapDEK X s (noInputs\<lparr>ikRecovery := rm_code m\<rparr>))"

definition recovery_method :: "environ \<Rightarrow> RecoveryCodeMethod \<Rightarrow> meth" where
  "recovery_method X m =
     \<lparr>m_Type = MethodRecovery, m_Enroll = RecoveryCodeMethod_Enroll X m,
      m_Unlock = RecoveryCodeMethod_Unlock X m\<rparr>"

section \<open>The base32 round trip\<close>

lemma b32_val_char: "v < 32 \<Longrightarrow> b32_val (b32_char v) = Some v"
proof -
  assume "v < 32"
  then have "unat v < 32" by (simp add: word_less_nat_alt)
  then have "v = word_of_nat (unat v)" "unat v \<in> set [0..<32]" by auto
  moreover have "\<forall>n \<in> set [0..<32]. b32_val (b32_char (word_of_nat n)) = Some (word_of_nat n)"
    by code_simp
  ultimately show ?thesis by metis
qed

lemma bits8I:
  fixes x y :: u8
  assumes "\<And>n. n \<in> {0, 1, 2, 3, 4, 5, 6, 7} \<Longrightarrow> bit x n \<longleftrightarrow> bit y n"
  shows "x = y"
proof (rule bit_word_eqI)
  fix n :: nat assume "n < LENGTH(8)"
  then have "n \<in> {0, 1, 2, 3, 4, 5, 6, 7}" by auto
  then show "bit x n \<longleftrightarrow> bit y n" by (rule assms)
qed

lemma bit31: "bit (31 :: u8) n \<longleftrightarrow> n < 5"
proof -
  have "(31 :: u8) = mask 5" by (simp add: mask_eq_exp_minus_1)
  then show ?thesis by (simp only: bit_mask_iff) auto
qed

lemma bit_beyond8: "8 \<le> n \<Longrightarrow> \<not> bit (b :: u8) n"
  using bit_imp_le_length [of b n] by auto

lemmas b32_bits = bit_or_iff bit_and_iff bit_push_bit_iff bit_drop_bit_eq bit31 comp_def

lemma b32_p_s [simp]:
  "b32_p0 (b32_s0 a) (b32_s1 a b) = a"
  "b32_p1 (b32_s1 a b) (b32_s2 b) (b32_s3 b c) = b"
  "b32_p2 (b32_s3 b c) (b32_s4 c d) = c"
  "b32_p3 (b32_s4 c d) (b32_s5 d) (b32_s6 d e) = d"
  "b32_p4 (b32_s6 d e) (b32_s7 e) = e"
  unfolding b32_p0_def b32_p1_def b32_p2_def b32_p3_def b32_p4_def b32_s0_def b32_s1_def
    b32_s2_def b32_s3_def b32_s4_def b32_s5_def b32_s6_def b32_s7_def
  by (rule bits8I, simp only: b32_bits, elim insertE emptyE; simp add: bit_beyond8 eval_nat_numeral)+

lemma b32_pack_split:
  "b32_pack (b32_split a b c d e) = [a, b, c, d, e]"
  "b32_pack (take 7 (b32_split a b c d 0)) = [a, b, c, d]"
  "b32_pack (take 5 (b32_split a b c 0 0)) = [a, b, c]"
  "b32_pack (take 4 (b32_split a b 0 0 0)) = [a, b]"
  "b32_pack (take 2 (b32_split a 0 0 0 0)) = [a]"
  by (simp_all add: b32_split_def)

lemma b32_split_less:
  assumes "v \<in> set (b32_split a b c d e)"
  shows "v < 32"
proof -
  have *: "x AND 31 < (32 :: u8)" for x
    using word_and_le1 [of x 31] by (simp add: word_less_nat_alt word_le_nat_alt)
  show ?thesis
    using assms unfolding b32_split_def b32_s0_def b32_s1_def
      b32_s2_def b32_s3_def b32_s4_def b32_s5_def b32_s6_def b32_s7_def by (auto simp only: set_simps * insert_iff empty_iff)
qed

lemma b32_vals_chars: "(\<And>v. v \<in> set vs \<Longrightarrow> v < 32) \<Longrightarrow> b32_vals (map b32_char vs) = Some vs"
  by (induction vs) (simp_all add: b32_val_char)

lemma b32_vals_split:
  "b32_vals (map b32_char (take n (b32_split a b c d e))) = Some (take n (b32_split a b c d e))"
  by (rule b32_vals_chars) (blast dest: in_set_takeD b32_split_less)

lemma b32_Decode_short:
  "length cs < 8 \<Longrightarrow> b32_Decode cs = (case b32_vals cs of None \<Rightarrow> ([], False) | Some q \<Rightarrow> (b32_pack q, True))"
  by (cases cs rule: b32_Decode.cases) auto

lemma b32_Decode_quantum:
  "length q = 8 \<Longrightarrow> b32_Decode (q @ r) =
    (case b32_vals q of None \<Rightarrow> ([], False)
     | Some q \<Rightarrow> (case b32_Decode r of (out, ok) \<Rightarrow> (b32_pack q @ out, ok)))"
  by (auto simp: numeral_eq_Suc length_Suc_conv simp del: b32_vals.simps)

lemma length_b32_split [simp]: "length (b32_split a b c d e) = 8"
  by (simp add: b32_split_def)

lemma b32_Decode_Encode: "b32_Decode (b32_Encode b) = (b, True)"
proof (induction b rule: b32_Encode.induct)
  case (1 a b c d e r)
  then show ?case
    using b32_vals_split [of 8 a b c d e]
    by (simp add: b32_Decode_quantum b32_pack_split)
qed (simp_all add: b32_Decode_short b32_vals_split b32_pack_split)

section \<open>Cleaning and grouping\<close>

text \<open>Upper-case letters and digits survive the clean-up; the separator does not.\<close>

definition alnumUpper :: "u8 \<Rightarrow> bool" where
  "alnumUpper c \<longleftrightarrow> 65 \<le> c \<and> c \<le> 90 \<or> 48 \<le> c \<and> c \<le> 57"

lemma cleaned_append [simp]: "cleaned (a @ b) = cleaned a @ cleaned b"
  by (simp add: cleaned_def List.map_filter_def)

lemma cleaned_Nil [simp]: "cleaned [] = []"
  by (simp add: cleaned_def List.map_filter_def)

lemma cleaned_Cons [simp]: "cleaned (c # s) = (case cleanRune c of None \<Rightarrow> [] | Some r \<Rightarrow> [r]) @ cleaned s"
  by (auto simp: cleaned_def List.map_filter_def split: option.splits)

lemma cleanRune_upper: "alnumUpper c \<Longrightarrow> cleanRune c = Some c"
  by (auto simp: cleanRune_def alnumUpper_def word_le_nat_alt)

lemma cleaned_upper: "\<forall>c \<in> set s. alnumUpper c \<Longrightarrow> cleaned s = s"
  by (induction s) (auto simp: cleanRune_upper)

lemma cleaned_concat: "cleaned (concat xs) = concat (map cleaned xs)"
  by (induction xs) simp_all

lemma cleaned_groupString:
  assumes "\<forall>c \<in> set s. alnumUpper c"
  shows "cleaned (groupString s n) = s"
proof (cases "n \<le> 0 \<or> int (length s) \<le> n")
  case True
  with assms show ?thesis by (auto simp: groupString_def cleaned_upper)
next
  case False
  have "cleanRune 45 = None" by (simp add: cleanRune_def)
  then have *: "map (\<lambda>i. cleaned (if i > 0 \<and> int i mod n = 0 then [45, s ! i] else [s ! i])) [0..<length s] =
      map (\<lambda>i. [s ! i]) [0..<length s]"
    using assms by (auto simp: cleanRune_upper)
  then have "cleaned (groupString s n) = concat (map (\<lambda>i. [s ! i]) [0..<length s])"
    using False * by (simp only: groupString_def cleaned_concat map_map comp_def if_False)
  also have "\<dots> = map ((!) s) [0..<length s]" by (induction s rule: rev_induct) (auto simp: nth_append)
  finally show ?thesis by (simp add: map_nth)
qed

lemma b32_char_upper: "v < 32 \<Longrightarrow> alnumUpper (b32_char v)"
proof -
  assume "v < 32"
  then have "unat v < 32" by (simp add: word_less_nat_alt)
  then have "v = word_of_nat (unat v)" "unat v \<in> set [0..<32]" by auto
  moreover have "\<forall>n \<in> set [0..<32]. alnumUpper (b32_char (word_of_nat n))" by code_simp
  ultimately show ?thesis by metis
qed

lemma b32_Encode_upper: "c \<in> set (b32_Encode b) \<Longrightarrow> alnumUpper c"
  by (induction b rule: b32_Encode.induct)
    (auto dest!: in_set_takeD dest: b32_split_less intro!: b32_char_upper)

text \<open>Printing a code and reading it back.\<close>

definition parseCode :: "bytes \<Rightarrow> gerror + bytes" where
  "parseCode s =
     (case b32_Decode (cleaned s) of (out, ok) \<Rightarrow>
        if \<not> ok then Inl [ErrInvalidRecoveryCode, External 2]
        else if length out \<noteq> RecoveryCodeLen then Inl [ErrInvalidRecoveryCode]
        else Inr out)"

lemma parseCode_format:
  "length b = RecoveryCodeLen \<Longrightarrow> parseCode (groupString (b32_Encode b) n) = Inr b"
  using b32_Encode_upper by (simp add: parseCode_def cleaned_groupString b32_Decode_Encode)

section \<open>Which codes are accepted\<close>

lemma b32_vals_None: "b32_vals cs = None \<longleftrightarrow> (\<exists>c \<in> set cs. b32_val c = None)"
  by (induction cs) (auto split: option.splits)

lemma b32_vals_length: "b32_vals cs = Some vs \<Longrightarrow> length vs = length cs"
  by (induction cs arbitrary: vs) (auto split: option.splits)

definition b32_len :: "nat \<Rightarrow> nat" where
  "b32_len n = 5 * (n div 8) +
     (if n mod 8 = 7 then 4 else if n mod 8 = 5 then 3 else if n mod 8 = 4 then 2
      else if n mod 8 = 2 then 1 else 0)"

lemma length_b32_pack: "length q \<le> 8 \<Longrightarrow> length (b32_pack q) = b32_len (length q)"
  by (cases q rule: b32_pack.cases) (simp_all add: b32_len_def)

lemma b32_Decode_length:
  "b32_Decode cs = (out, ok) \<Longrightarrow>
   (ok \<longleftrightarrow> (\<forall>c \<in> set cs. b32_val c \<noteq> None)) \<and> (ok \<longrightarrow> length out = b32_len (length cs))"
proof (induction "length cs" arbitrary: cs out ok rule: less_induct)
  case less
  show ?case
  proof (cases "length cs < 8")
    case True
    with less.prems show ?thesis
      using b32_vals_None [of cs] b32_vals_length [of cs]
      by (auto simp: b32_Decode_short length_b32_pack split: option.splits)
  next
    case False
    define q r where "q = take 8 cs" and "r = drop 8 cs"
    have cs: "cs = q @ r" and q: "length q = 8" using False by (simp_all add: q_def r_def)
    obtain o2 k2 where r: "b32_Decode r = (o2, k2)" by fastforce
    have IH: "(k2 \<longleftrightarrow> (\<forall>c \<in> set r. b32_val c \<noteq> None)) \<and> (k2 \<longrightarrow> length o2 = b32_len (length r))"
      by (rule less.hyps [OF _ r]) (simp add: cs q)
    show ?thesis
    proof (cases "b32_vals q")
      case None
      with less.prems b32_vals_None [of q] show ?thesis by (auto simp: cs b32_Decode_quantum q)
    next
      case (Some vs)
      then have "length (b32_pack vs) = 5"
        using b32_vals_length [of q vs] q by (simp add: length_b32_pack b32_len_def)
      moreover have "\<forall>c \<in> set q. b32_val c \<noteq> None" using Some b32_vals_None [of q] by auto
      moreover have "b32_len (8 + n) = 5 + b32_len n" for n
        using div_add_self1 [of 8 n] by (simp add: b32_len_def)
      ultimately show ?thesis using less.prems Some r IH
        by (auto simp: cs b32_Decode_quantum q)
    qed
  qed
qed

lemma b32_len_32: "b32_len n = 32 \<longleftrightarrow> n = 52"
proof
  assume n: "b32_len n = 32"
  define k m where "k = n div 8" and "m = n mod 8"
  have "5 * k + (if m = 7 then 4 else if m = 5 then 3 else if m = 4 then 2 else if m = 2 then 1 else 0) = 32"
    using n unfolding b32_len_def k_def m_def .
  then have "m = 4 \<and> k = 6" by (simp split: if_splits; presburger)
  moreover have "n = 8 * k + m" by (simp add: k_def m_def)
  ultimately show "n = 52" by simp
qed (simp add: b32_len_def)

text \<open>
  A text is accepted if and only if 52 letters and digits are left of it and all are of the
  alphabet.
\<close>

lemma parseCode_accepts:
  "(\<exists>v. parseCode s = Inr v) \<longleftrightarrow>
   length (cleaned s) = 52 \<and> (\<forall>c \<in> set (cleaned s). b32_val c \<noteq> None)"
proof -
  obtain out ok where d: "b32_Decode (cleaned s) = (out, ok)" by fastforce
  from b32_Decode_length [OF d] d show ?thesis
    using b32_len_32 [of "length (cleaned s)"] by (auto simp: parseCode_def)
qed

lemma parseCode_length: "parseCode s = Inr v \<Longrightarrow> length v = 32"
  by (auto simp: parseCode_def split: prod.splits if_splits)

section \<open>What the operations compute\<close>

lemma leaves_alloc_zero:
  assumes w: "wfw w"
  shows "leaves w (snd (zero (length (wmem w)) (w\<lparr>wmem := wmem w @ [b]\<rparr>))) {} {}"
  using leaves_zero [OF leaves_alloc [OF leaves_refl [OF w], of b], of "length (wmem w)"] by simp

lemma ParseRecoveryCode_computes:
  assumes w: "wfw w"
  shows "computes (snd (b32_Decode (cleaned s))) (faults X) (ParseRecoveryCode X s) (parseCode s) w"
proof -
  obtain out ok where d: "b32_Decode (cleaned s) = (out, ok)" by fastforce
  let ?a = "length (wmem w)" and ?w1 = "w\<lparr>wmem := wmem w @ [out]\<rparr>"
  show ?thesis
  proof (cases "ok \<and> length out = RecoveryCodeLen")
    case True
    have "computes ok ({} \<union> faults X) (bind (alloc out) (\<lambda>a. deferring (zero a) (sb_New X a))) (Inr out) w"
      by (rule computes_New [OF w computesRaw_alloc [OF w]])
    with True d show ?thesis by (simp add: ParseRecoveryCode_def parseCode_def)
  next
    case False
    show ?thesis
    proof (cases ok)
      case True
      with False have "ParseRecoveryCode X s w = (Inl [ErrInvalidRecoveryCode], snd (zero ?a ?w1))"
        by (simp add: ParseRecoveryCode_def d alloc_def bind_def deferring_def throw_def)
      with leaves_alloc_zero [OF w, of out] False True show ?thesis
        unfolding computes_def by (auto simp: parseCode_def d intro!: act_errI)
    next
      case False
      then have "ParseRecoveryCode X s w = (Inl [ErrInvalidRecoveryCode, External 2], ?w1)"
        by (simp add: ParseRecoveryCode_def d alloc_def bind_def throw_def)
      with leaves_alloc [OF leaves_refl [OF w], of out] False show ?thesis
        unfolding computes_def by (auto simp: parseCode_def d intro!: act_errI)
    qed
  qed
qed

definition randSpec :: "environ \<Rightarrow> world \<Rightarrow> nat \<Rightarrow> gerror + bytes" where
  "randSpec X w n = (case x_rand X (wlog w) of Inl c \<Rightarrow> Inl [External c] | Inr f \<Rightarrow> Inr (map f [0..<n]))"

lemma randBytes_computes:
  assumes w: "wfw w"
  shows "computesRaw True (faults X) (bind (randBytes X (int n)) alloc) (randSpec X w n) w"
proof -
  let ?w1 = "w\<lparr>wlog := EvRand n # wlog w\<rparr>"
  have 1: "leaves w ?w1 {} {}" by (rule leaves_same [OF leaves_refl [OF w]]) (simp_all add: fakeCfg_def)
  show ?thesis
  proof (cases "x_rand X (wlog w)")
    case (Inl c)
    then show ?thesis using 1 unfolding computesRaw_def
      by (intro act_errI [OF _ _ 1]) (auto simp: randBytes_def randFill_def randRead_def bind_def randSpec_def)
  next
    case (Inr f)
    then show ?thesis unfolding computesRaw_def
      by (intro act_okI [OF _ _ leaves_alloc [OF 1, of "map f [0..<n]"]])
        (auto simp: randBytes_def randFill_def randRead_def bind_def randSpec_def alloc_def)
  qed
qed

lemma GenerateRecoveryCode_computes:
  "wfw w \<Longrightarrow> computes True (faults X) (GenerateRecoveryCode X) (randSpec X w 32) w"
  unfolding GenerateRecoveryCode_def
  using computes_New [of w True "faults X" "bind (randBytes X (int 32)) alloc" "randSpec X w 32" X]
    randBytes_computes [of w X 32] by simp

lemma FormatRecoveryCode_run:
  "wfw w \<Longrightarrow> FormatRecoveryCode p w =
    (case contents w p of Inl e \<Rightarrow> Inl e | Inr b \<Rightarrow> Inr (groupString (b32_Encode b) 4), w)"
  by (simp add: FormatRecoveryCode_def sb_Read_run ret_apply split: sum.splits)

section \<open>The method keeps its contract\<close>

definition recoverySpec :: "environ \<Rightarrow> world \<Rightarrow> RecoveryCodeMethod \<Rightarrow> slot \<Rightarrow> gerror + bytes" where
  "recoverySpec X w m s = unwrapSpec X (ikmSpec w (noInputs\<lparr>ikRecovery := rm_code m\<rparr>)) s"

lemma validInputs_recovery: "validPtr w p \<Longrightarrow> validInputs w (noInputs\<lparr>ikRecovery := p\<rparr>)"
  by (auto simp: validInputs_def roles_def noInputs_def)

lemma ikmSpec_recovery:
  "contents w (Some i) = Inr v \<Longrightarrow>
   ikmSpec w (noInputs\<lparr>ikRecovery := Some i\<rparr>) = Inr (ikmBytes None None (Some v))"
  by (simp add: ikmSpec_factors noInputs_def factor_Some)

lemma RecoveryCodeMethod_Unlock_computes:
  assumes w: "wfw w" and valid: "validPtr w (rm_code m)"
  shows "computes True (faults X) (RecoveryCodeMethod_Unlock X m ctx s) (recoverySpec X w m s) w"
  unfolding RecoveryCodeMethod_Unlock_def
proof (rule computes_ctxCheck [OF w order_refl])
  fix w1 assume w1: "wfw w1" "leaves w w1 {} {}"
  note v = validInputs_recovery [OF valid]
  show "computes True (faults X) (unwrapDEK X s (noInputs\<lparr>ikRecovery := rm_code m\<rparr>)) (recoverySpec X w m s) w1"
    using unwrapDEK_computes [OF w1(1) validInputs_leaves [OF w1(2) v], of X s]
    by (simp only: recoverySpec_def ikmSpec_stable [OF w w1(2) v])
qed

definition recovery_enrolled :: "environ \<Rightarrow> bytes \<Rightarrow> bytes \<Rightarrow> bytes \<Rightarrow> slot \<Rightarrow> bool" where
  "recovery_enrolled X lbl code d s \<longleftrightarrow>
     sType s = MethodRecovery \<and> sKDFID s = KDFNone \<and> sKDFParams s = [] \<and> sKDFSalt s = [] \<and>
     sChalSalt s = [] \<and> sChallenge s = [] \<and> sYKSlot s = 0 \<and> sLabel s = lbl \<and>
     length code = RecoveryCodeLen \<and> sealedWith X (ikmBytes None None (Some code)) d s"

text \<open>Besides the faults: not a code of 32 bytes, a label too long, a destroyed data key.\<close>

definition recovery_enrollErr ::
  "gerror set \<Rightarrow> bytes \<Rightarrow> gerror + bytes \<Rightarrow> gerror + bytes \<Rightarrow> gerror \<Rightarrow> bool" where
  "recovery_enrollErr F lbl code d e \<longleftrightarrow>
     e \<in> F \<or> e = [GoPanic] \<and> code = Inl [GoPanic] \<or>
     e = [ErrInvalidRecoveryCode] \<and> \<not> (\<exists>v. code = Inr v \<and> length v = RecoveryCodeLen) \<or>
     e = [ErrMalformed] \<and> length lbl > maxLabelLen \<or> d = Inl e"

lemma RecoveryCodeMethod_enroll:
  assumes w: "wfw w" and valid: "validPtr w (rm_code m)" "validPtr w dek"
  shows "act True (RecoveryCodeMethod_Enroll X m ctx dek) w
    (recovery_enrollErr (faults X) (rm_label m) (contents w (rm_code m)) (contents w dek))
    (\<lambda>s w' L D. L = {} \<and> D = {} \<and> (\<exists>code d. contents w (rm_code m) = Inr code \<and>
       contents w dek = Inr d \<and> recovery_enrolled X (rm_label m) code d s))"
  (is "act _ _ _ ?E ?Ok")
  unfolding RecoveryCodeMethod_Enroll_def
proof (rule act_bind [OF w, where P = "\<lambda>_ _. True"])
  show "act True (ctxCheck X ctx) w ?E (\<lambda>x w1 L D. L = {} \<and> D = {} \<and> True)"
    by (rule act_conseq [OF act_ctxCheck [OF w, where Err = ?E]]) (auto simp: recovery_enrollErr_def)
next
  let ?sh = "\<lparr>shmt = MethodRecovery, shkdfID = KDFNone, shkdfParams = [], shkdfSalt = [],
    shchalSalt = [], shchallenge = [], shykSlot = 0, shlabel = rm_label m\<rparr>"
  let ?wrap = "wrapDEK X dek (noInputs\<lparr>ikRecovery := rm_code m\<rparr>) ?sh"
  fix w1 assume w1: "wfw w1" "leaves w w1 {} {}"
  have len: "act True (sb_Len (rm_code m)) w1 ?E (\<lambda>n w2 L D. L = {} \<and> D = {} \<and>
      (n = 32 \<longleftrightarrow> (\<exists>code. contents w (rm_code m) = Inr code \<and> length code = 32)))"
  proof (cases "rm_code m")
    case None
    then show ?thesis using w1(1) by (auto simp: sb_Len_def recovery_enrollErr_def intro!: act_errI)
  next
    case (Some i)
    then show ?thesis
      using w1 contents_stable [OF w w1(2) valid(1)]
      by (auto simp: sb_Len_run intro!: act_okI split: sum.splits)
  qed
  show "act True (bind (sb_Len (rm_code m)) (\<lambda>n. if n \<noteq> RecoveryCodeLen
      then throw [ErrInvalidRecoveryCode] else ?wrap)) w1 ?E ?Ok"
  proof (rule act_bind [OF w1(1) len])
    fix n :: nat and w2 assume w2: "wfw w2" "leaves w1 w2 {} {}"
      and n: "n = 32 \<longleftrightarrow> (\<exists>code. contents w (rm_code m) = Inr code \<and> length code = 32)"
    have l2: "leaves w w2 {} {}" by (rule leaves_clean_trans [OF w w1(2) w2(2)])
    have c: "contents w2 (rm_code m) = contents w (rm_code m)" "contents w2 dek = contents w dek"
      using contents_stable [OF w l2] valid by auto
    show "act True (if n \<noteq> RecoveryCodeLen then throw [ErrInvalidRecoveryCode] else ?wrap) w2 ?E ?Ok"
    proof (cases "n = RecoveryCodeLen")
      case True
      with n obtain code where code: "contents w (rm_code m) = Inr code" "length code = 32" by auto
      then obtain i where i: "rm_code m = Some i" by (cases "rm_code m") auto
      have "ikmSpec w2 (noInputs\<lparr>ikRecovery := rm_code m\<rparr>) = Inr (ikmBytes None None (Some code))"
        using ikmSpec_recovery [of w2 i code] c code i by simp
      then have "act True ?wrap w2 ?E ?Ok"
        using code c
        by (intro act_conseq [OF wrapDEK_act [OF w2(1) validInputs_recovery [OF validPtr_leaves [OF l2 valid(1)]]
            validPtr_leaves [OF l2 valid(2)]]]) (auto simp: recovery_enrolled_def shaped_def wrapErr_def recovery_enrollErr_def
            shapeFits_def MethodType_valid_def)
      with True show ?thesis by simp
    qed (use n in \<open>auto simp: recovery_enrollErr_def intro: act_throw w2(1)\<close>)
  qed
qed

text \<open>Unlocking with the code gives the data key.\<close>

lemma recovery_roundtrip:
  assumes "aead_correct X" and "contents w (rm_code m) = Inr code"
    and "recovery_enrolled X lbl code d s"
  shows "recoverySpec X w m s = Inr d"
  using assms ikmSpec_recovery [of w _ code]
  by (cases "rm_code m")
    (auto simp: recoverySpec_def recovery_enrolled_def intro: unwrapSpec_sealed)

interpretation recovery: method_contract "recovery_method X m" "\<lambda>w. validPtr w (rm_code m)" True for X m
proof unfold_locales
  fix w dek ctx assume w: "wfw w" and v: "validPtr w (rm_code m)" "validPtr w dek"
  show "act True (m_Enroll (recovery_method X m) ctx dek) w (\<lambda>_. True)
      (\<lambda>s w' K D. K = {} \<and> D = {} \<and> sType s = m_Type (recovery_method X m) \<and> complete s)"
    unfolding recovery_method_def meth.simps
    by (rule act_conseq [OF RecoveryCodeMethod_enroll [OF w v]])
      (auto simp: recovery_enrolled_def sealedWith_def complete_def)
next
  fix w ctx s assume w: "wfw w" and v: "validPtr w (rm_code m)"
  show "act True (m_Unlock (recovery_method X m) ctx s) w (\<lambda>_. True)
      (\<lambda>p w' K D. \<exists>i v. p = Some i \<and> K = {(i, v)} \<and> D = {})"
    unfolding recovery_method_def meth.simps
    by (rule act_conseq [OF RecoveryCodeMethod_Unlock_computes [OF w v, of X ctx s, unfolded computes_def]]) auto
qed (auto intro: validPtr_leaves)

section \<open>Properties\<close>



text \<open>
  What \<open>ParseRecoveryCode\<close> accepts: exactly the texts that have, among their letters and digits,
  52 characters, all of them in the base32 alphabet A-Z, 2-7 after upper-casing. Every other text is
  refused with \<open>ErrInvalidRecoveryCode\<close>; nothing panics.
\<close>

lemma ParseRecoveryCode_accepts:
  assumes "wfw w" and "faults X = {}"
  shows "case fst (ParseRecoveryCode X s w) of
      Inr _ \<Rightarrow> length (cleaned s) = 52 \<and> (\<forall>c \<in> set (cleaned s). b32_val c \<noteq> None)
    | Inl e \<Rightarrow> errorsIs e ErrInvalidRecoveryCode \<and> GoPanic \<notin> set e \<and>
        \<not> (length (cleaned s) = 52 \<and> (\<forall>c \<in> set (cleaned s). b32_val c \<noteq> None))"
proof -
  obtain r w' where r: "ParseRecoveryCode X s w = (r, w')" by fastforce
  note c = ParseRecoveryCode_computes [OF assms(1), of s X]
  show ?thesis
  proof (cases r)
    case (Inl e)
    with computes_errD [OF c] r assms(2) have e: "parseCode s = Inl e" by auto
    then have "e = [ErrInvalidRecoveryCode, External 2] \<or> e = [ErrInvalidRecoveryCode]"
      by (auto simp: parseCode_def split: prod.splits if_splits)
    moreover from e parseCode_accepts [of s]
    have "\<not> (length (cleaned s) = 52 \<and> (\<forall>c \<in> set (cleaned s). b32_val c \<noteq> None))" by auto
    ultimately show ?thesis using r Inl by auto
  next
    case (Inr q)
    with computes_okD [OF c] r obtain v where "parseCode s = Inr v" by auto
    with parseCode_accepts [of s] r Inr show ?thesis by auto
  qed
qed

lemma ParseRecoveryCode_accepts_example:
  "(\<exists>q w'. ParseRecoveryCode demoX (replicate 52 97) demoW = (Inr q, w')) \<and>
   (\<exists>e w'. ParseRecoveryCode demoX [] demoW = (Inl e, w') \<and> errorsIs e ErrInvalidRecoveryCode)"
proof -
  have "cleaned (replicate n 97) = replicate n 65" for n
    by (induction n) (simp_all add: cleanRune_def)
  then have "length (cleaned (replicate 52 97)) = 52 \<and> (\<forall>c \<in> set (cleaned (replicate 52 97)). b32_val c \<noteq> None)"
    by (simp add: b32_val_def)
  with ParseRecoveryCode_accepts [OF demoW_wfw, of demoX "replicate 52 97"]
    ParseRecoveryCode_accepts [OF demoW_wfw, of demoX "[]"]
  show ?thesis
    by (cases "ParseRecoveryCode demoX (replicate 52 97) demoW"; cases "ParseRecoveryCode demoX [] demoW")
      (auto split: sum.splits)
qed

text \<open>
  \<open>GenerateRecoveryCode\<close> either fails with the fault of the random source or the memory lock, or
  gives one new container with 32 bytes straight from the random source; the raw bytes are wiped.
\<close>

lemma GenerateRecoveryCode_spec:
  assumes "wfw w"
  shows "case GenerateRecoveryCode X w of
      (Inl e, w') \<Rightarrow> (e \<in> faults X \<or> randSpec X w 32 = Inl e) \<and> leaves w w' {} {}
    | (Inr q, w') \<Rightarrow> \<exists>i v. q = Some i \<and> randSpec X w 32 = Inr v \<and> leaves w w' {(i, v)} {}"
  using GenerateRecoveryCode_computes [OF assms, of X] unfolding computes_run .

lemma GenerateRecoveryCode_spec_example:
  "\<exists>i w'. GenerateRecoveryCode demoX demoW = (Inr (Some i), w') \<and>
     leaves demoW w' {(i, map word_of_nat [0..<32])} {}"
proof -
  have "randSpec demoX demoW 32 = Inr (map word_of_nat [0..<32])"
    by (simp add: randSpec_def demoX_def demoW_def)
  with GenerateRecoveryCode_spec [OF demoW_wfw, of demoX] show ?thesis
    by (auto split: prod.splits sum.splits)
qed

end
