(* ===== verification/Transport.thy ===== *)
theory Transport
  imports Contracts Crypto_Std
begin

text \<open>
  Package \<open>transport\<close>: the interface \<open>Transport\<close> as a record of operations, the contract by which
  the YubiKey method uses it, the in-memory \<open>FakeTransport\<close> of \<open>fake.go\<close>, which keeps it, and the
  PIV stub of \<open>piv.go\<close>. A nil interface value is a transport whose operations panic. The operations of
  \<open>FakeTransport\<close> run one at a time here; theory \<open>Atomic\<close> shows that its mutex makes them so.
\<close>

section \<open>The interface\<close>

record transport =
  t_ChallengeResponse :: "nat \<Rightarrow> u8 \<Rightarrow> bytes \<Rightarrow> sbptr io"
  t_Serial :: "nat \<Rightarrow> bytes io"
  t_Present :: "nat \<Rightarrow> bool io"

definition otpSlotValid :: "u8 \<Rightarrow> bool" where
  "otpSlotValid slot \<longleftrightarrow> slot = 1 \<or> slot = 2"

text \<open>
  A response is one fresh container with an answer \<open>ans slot challenge\<close> of the device, or an error
  of \<open>TE slot\<close>; \<open>c\<close> is whether a failing call leaves no raw buffer behind.
\<close>

locale transport_contract =
  fixes T :: transport and tvalid :: "world \<Rightarrow> bool" and c :: bool
    and ans :: "u8 \<Rightarrow> bytes \<Rightarrow> bytes \<Rightarrow> bool" and TE :: "u8 \<Rightarrow> gerror set"
  assumes tstable: "tvalid w \<Longrightarrow> leaves w w' K D \<Longrightarrow> tvalid w'"
    and respond: "wfw w \<Longrightarrow> tvalid w \<Longrightarrow>
      act c (t_ChallengeResponse T ctx slot chal) w (\<lambda>e. e \<in> TE slot)
        (\<lambda>p w' K D. \<exists>i v. p = Some i \<and> K = {(i, v)} \<and> D = {} \<and> ans slot chal v)"

section \<open>FakeTransport\<close>

definition NewFakeTransport :: "u8 \<Rightarrow> bytes \<Rightarrow> nat io" where
  "NewFakeTransport slot secret =
     (\<lambda>w. (Inr (length (wfakes w)),
       w\<lparr>wfakes := wfakes w @ [\<lparr>fsecrets = [slot \<mapsto> secret], fTouchFn = False, fPresentFlag = True,
         fSerialValue = ascii ''00000000'', fErrInject = None, fTouches = 0\<rparr>]\<rparr>))"

definition withFake :: "nat \<Rightarrow> (fake \<Rightarrow> 'a io) \<Rightarrow> 'a io" where
  "withFake f k = (\<lambda>w. if f < length (wfakes w) then k (wfakes w ! f) w else (Inl [GoPanic], w))"

definition SetSlot :: "nat \<Rightarrow> u8 \<Rightarrow> bytes \<Rightarrow> unit io" where
  "SetSlot f slot secret =
     withFake f (\<lambda>fk. modify (\<lambda>w. w\<lparr>wfakes := (wfakes w)[f := fk\<lparr>fsecrets := (fsecrets fk)(slot \<mapsto> secret)\<rparr>]\<rparr>))"

definition callTouchFn :: "environ \<Rightarrow> unit io" where
  "callTouchFn X =
     (\<lambda>w. let r = x_touchFn X (wlog w); w = w\<lparr>wlog := EvTouchFn # wlog w\<rparr>
          in (case r of None \<Rightarrow> (Inr (), w) | Some e \<Rightarrow> (Inl e, w)))"

definition countTouch :: "nat \<Rightarrow> unit io" where
  "countTouch f = withFake f (\<lambda>fk. modify (\<lambda>w. w\<lparr>wfakes := (wfakes w)[f := fk\<lparr>fTouches := fTouches fk + 1\<rparr>]\<rparr>))"

definition Fake_ChallengeResponse :: "environ \<Rightarrow> nat \<Rightarrow> nat \<Rightarrow> u8 \<Rightarrow> bytes \<Rightarrow> sbptr io" where
  "Fake_ChallengeResponse X f ctx slot challenge =
     withFake f (\<lambda>fk.
       case fErrInject fk of
         Some e \<Rightarrow> throw e
       | None \<Rightarrow>
           bind (ctxCheck X ctx) (\<lambda>_.
           if \<not> otpSlotValid slot then throw [ErrSlotNotConfigured]
           else
             case fsecrets fk slot of
               None \<Rightarrow> throw [ErrSlotNotConfigured]
             | Some secret \<Rightarrow>
                 bind (if fTouchFn fk then callTouchFn X else ret ()) (\<lambda>_.
                 bind (alloc (hmac sha1 secret challenge)) (\<lambda>sum.
                 bind (countTouch f) (\<lambda>_.
                 sb_New X sum)))))"

definition Fake_Serial :: "nat \<Rightarrow> nat \<Rightarrow> bytes io" where
  "Fake_Serial f ctx = withFake f (\<lambda>fk. ret (fSerialValue fk))"

definition Fake_Present :: "nat \<Rightarrow> nat \<Rightarrow> bool io" where
  "Fake_Present f ctx = withFake f (\<lambda>fk. ret (fPresentFlag fk))"

definition fake_transport :: "environ \<Rightarrow> nat \<Rightarrow> transport" where
  "fake_transport X f =
     \<lparr>t_ChallengeResponse = Fake_ChallengeResponse X f, t_Serial = Fake_Serial f,
      t_Present = Fake_Present f\<rparr>"

section \<open>The PIV stub\<close>

text \<open>The interface \<open>PIVDecipher\<close> and its one implementation, which ignores its fields.\<close>

record piv_decipher =
  p_Decipher :: "nat \<Rightarrow> bytes \<Rightarrow> bytes \<Rightarrow> sbptr io"

record PIVTransport =
  piv_ToolPath :: string
  piv_Slot :: u8

definition PIVTransport_Decipher :: "PIVTransport \<Rightarrow> nat \<Rightarrow> bytes \<Rightarrow> bytes \<Rightarrow> sbptr io" where
  "PIVTransport_Decipher p ctx pin ciphertext = throw [ErrNotImplemented]"

definition piv_interface :: "PIVTransport \<Rightarrow> piv_decipher" where
  "piv_interface p = \<lparr>p_Decipher = PIVTransport_Decipher p\<rparr>"

lemma piv_refuses: "p_Decipher (piv_interface p) ctx pin ciphertext w = (Inl [ErrNotImplemented], w)"
  by (simp add: piv_interface_def PIVTransport_Decipher_def throw_apply)

section \<open>FakeTransport keeps the contract\<close>

definition fake_valid :: "nat \<Rightarrow> fake \<Rightarrow> world \<Rightarrow> bool" where
  "fake_valid f cfg w \<longleftrightarrow> f < length (wfakes w) \<and> (wfakes w ! f)\<lparr>fTouches := 0\<rparr> = cfg"

definition fake_answer :: "fake \<Rightarrow> u8 \<Rightarrow> bytes \<Rightarrow> bytes \<Rightarrow> bool" where
  "fake_answer cfg slot chal v \<longleftrightarrow>
     otpSlotValid slot \<and> (\<exists>secret. fsecrets cfg slot = Some secret \<and> v = hmac sha1 secret chal)"

definition fake_errors :: "environ \<Rightarrow> fake \<Rightarrow> u8 \<Rightarrow> gerror set" where
  "fake_errors X cfg slot =
     (case fErrInject cfg of Some e \<Rightarrow> {e}
      | None \<Rightarrow> faults X \<union> {e. e = [ErrSlotNotConfigured] \<and> (\<not> otpSlotValid slot \<or> fsecrets cfg slot = None)} \<union>
          {e. fTouchFn cfg \<and> (\<exists>h. x_touchFn X h = Some e)})"

lemma fake_valid_leaves:
  assumes "fake_valid f cfg w" and l: "leaves w w' K D"
  shows "fake_valid f cfg w'"
proof -
  have cfg: "fakeCfg w' = fakeCfg w" by (rule leaves_fakes [OF l])
  then have len: "length (wfakes w') = length (wfakes w)"
    unfolding fakeCfg_def by (metis length_map)
  from assms(1) have f: "f < length (wfakes w)" by (simp add: fake_valid_def)
  from cfg have "fakeCfg w' ! f = fakeCfg w ! f" by simp
  with f len assms(1) show ?thesis by (simp add: fakeCfg_def fake_valid_def)
qed

lemma fake_run:
  assumes w: "wfw w" and valid: "fake_valid f cfg w"
  shows "act False (Fake_ChallengeResponse X f ctx slot chal) w (\<lambda>e. e \<in> fake_errors X cfg slot)
    (\<lambda>p w' K D. \<exists>i v. p = Some i \<and> K = {(i, v)} \<and> D = {} \<and> fake_answer cfg slot chal v)"
  (is "act _ _ _ ?E ?Ok")
proof -
  define fk where "fk = wfakes w ! f"
  have f: "f < length (wfakes w)" and cfg: "cfg = fk\<lparr>fTouches := 0\<rparr>"
    using valid by (simp_all add: fake_valid_def fk_def)
  have fields: "fErrInject cfg = fErrInject fk" "fsecrets cfg = fsecrets fk" "fTouchFn cfg = fTouchFn fk" by (simp_all add: cfg)
  have new: "act False (bind (alloc b) (\<lambda>sum. bind (countTouch f) (\<lambda>_. sb_New X sum))) u (\<lambda>e. e \<in> faults X)
      (\<lambda>p w' K D. \<exists>i. p = Some i \<and> K = {(i, b)} \<and> D = {})"
    if u: "wfw u" and fu: "f < length (wfakes u)" for u b
  proof -
    let ?a = "length (wmem u)"
    let ?v = "u\<lparr>wmem := wmem u @ [b], wfakes := (wfakes u)[f := (wfakes u ! f)\<lparr>fTouches := fTouches (wfakes u ! f) + 1\<rparr>]\<rparr>"
    have "fakeCfg ?v = fakeCfg u"
      using fu by (auto simp: fakeCfg_def list_eq_iff_nth_eq nth_list_update)
    then have v: "leaves u ?v {} {?a}"
      by (intro leaves_same [OF leaves_alloc [OF leaves_refl [OF u], of b]]) (simp_all add: fakeCfg_def)
    obtain r x where n: "sb_New X ?a ?v = (r, x)" by fastforce
    have run: "bind (alloc b) (\<lambda>sum. bind (countTouch f) (\<lambda>_. sb_New X sum)) u = (r, x)"
      using n fu by (simp add: bind_def alloc_def countTouch_def withFake_def modify_def)
    show ?thesis
    proof (cases r)
      case (Inl e)
      with sb_New_leaves [OF u v _ n] run show ?thesis by (auto intro!: act_errI)
    next
      case (Inr p)
      with sb_New_leaves [OF u v _ n] run show ?thesis by (auto intro!: act_okI)
    qed
  qed
  have touch: "act False (if fTouchFn fk then callTouchFn X else ret ()) u ?E
      (\<lambda>x u1 K D. K = {} \<and> D = {} \<and> wfakes u1 = wfakes u)" if "wfw u" "fErrInject fk = None" for u
  proof (cases "fTouchFn fk")
    case True
    have "leaves u (u\<lparr>wlog := EvTouchFn # wlog u\<rparr>) {} {}"
      by (rule leaves_same [OF leaves_refl [OF that(1)]]) (simp_all add: fakeCfg_def)
    then show ?thesis using True that
      by (cases "x_touchFn X (wlog u)")
        (auto simp: callTouchFn_def act_def fake_errors_def fields)
  qed (simp add: act_ret that)
  show ?thesis
  proof (cases "fErrInject fk")
    case (Some e)
    then show ?thesis using f w
      by (auto simp: Fake_ChallengeResponse_def withFake_def fk_def [symmetric] fields fake_errors_def
          throw_apply intro!: act_errI [where D = "{}"])
  next
    case None
    have E: "e \<in> faults X \<or> e = [ErrSlotNotConfigured] \<and> (\<not> otpSlotValid slot \<or> fsecrets fk slot = None)
      \<Longrightarrow> ?E e" for e
      using None by (auto simp: fake_errors_def fields)
    have "act False (bind (ctxCheck X ctx) (\<lambda>_. if \<not> otpSlotValid slot then throw [ErrSlotNotConfigured]
        else case fsecrets fk slot of None \<Rightarrow> throw [ErrSlotNotConfigured]
          | Some secret \<Rightarrow> bind (if fTouchFn fk then callTouchFn X else ret ()) (\<lambda>_.
              bind (alloc (hmac sha1 secret chal)) (\<lambda>sum. bind (countTouch f) (\<lambda>_. sb_New X sum))))) w ?E ?Ok"
    proof (rule act_bind [OF w, where P = "\<lambda>_ w1. wfakes w1 = wfakes w"])
      obtain r w1 where "ctxCheck X ctx w = (r, w1)" by fastforce
      then have "wfakes w1 = wfakes w" by (auto simp: ctxCheck_def Let_def split: option.splits)
      with \<open>ctxCheck X ctx w = (r, w1)\<close>
      show "act False (ctxCheck X ctx) w ?E (\<lambda>x w1 K D. K = {} \<and> D = {} \<and> wfakes w1 = wfakes w)"
        by (intro act_conseq [OF act_ctxCheck [OF w, where Err = ?E]]) (auto intro: E)
    next
      fix w1 assume w1: "wfw w1" "wfakes w1 = wfakes w"
      have "act False (bind (if fTouchFn fk then callTouchFn X else ret ()) (\<lambda>_.
          bind (alloc (hmac sha1 secret chal)) (\<lambda>sum. bind (countTouch f) (\<lambda>_. sb_New X sum)))) w1 ?E ?Ok"
        if "fsecrets fk slot = Some secret" "otpSlotValid slot" for secret
        by (rule act_bind [OF w1(1) touch [OF w1(1) None]], rule act_conseq [OF new])
          (use that f w1 in \<open>auto intro: E simp: fake_answer_def fields\<close>)
      then show "act False (if \<not> otpSlotValid slot then throw [ErrSlotNotConfigured]
        else case fsecrets fk slot of None \<Rightarrow> throw [ErrSlotNotConfigured]
          | Some secret \<Rightarrow> bind (if fTouchFn fk then callTouchFn X else ret ()) (\<lambda>_.
              bind (alloc (hmac sha1 secret chal)) (\<lambda>sum. bind (countTouch f) (\<lambda>_. sb_New X sum)))) w1 ?E ?Ok"
        using w1 E by (auto intro!: act_throw split: option.splits)
    qed
    moreover have "Fake_ChallengeResponse X f ctx slot chal w = bind (ctxCheck X ctx) (\<lambda>_.
        if \<not> otpSlotValid slot then throw [ErrSlotNotConfigured]
        else case fsecrets fk slot of None \<Rightarrow> throw [ErrSlotNotConfigured]
          | Some secret \<Rightarrow> bind (if fTouchFn fk then callTouchFn X else ret ()) (\<lambda>_.
              bind (alloc (hmac sha1 secret chal)) (\<lambda>sum. bind (countTouch f) (\<lambda>_. sb_New X sum)))) w"
      using f by (simp only: Fake_ChallengeResponse_def withFake_def fk_def [symmetric] None option.case if_True)
    ultimately show ?thesis by (simp only: act_def)
  qed
qed

interpretation fake: transport_contract "fake_transport X f" "fake_valid f cfg" False
    "fake_answer cfg" "fake_errors X cfg" for X f cfg
proof unfold_locales
  show "act False (t_ChallengeResponse (fake_transport X f) ctx slot chal) w (\<lambda>e. e \<in> fake_errors X cfg slot)
      (\<lambda>p w' K D. \<exists>i v. p = Some i \<and> K = {(i, v)} \<and> D = {} \<and> fake_answer cfg slot chal v)"
    if "wfw w" "fake_valid f cfg w" for w ctx slot chal
    unfolding fake_transport_def transport.simps by (rule fake_run [OF that])
qed (rule fake_valid_leaves)

section \<open>Properties\<close>

lemma demo_fake_valid: "fake_valid 0 demoFake demoW"
  by (simp add: fake_valid_def demoW_def demoFake_def)

lemma demo_fake_errors [simp]: "fake_errors demoX demoFake 2 = {}"
  by (simp add: fake_errors_def demoFake_def otpSlotValid_def)

text \<open>
  The fake key keeps the contract of a transport: a response is one new container with
  HMAC-SHA1 of the challenge under the secret of that slot; it fails only with the injected error,
  or else with a fault outside, the touch callback's error, or \<open>ErrSlotNotConfigured\<close> when the slot is
  not 1 or 2 or has no secret. Secrets and configuration are never changed by a response.
\<close>

lemma Fake_ChallengeResponse_spec:
  assumes "wfw w" and "fake_valid f cfg w"
  shows "case Fake_ChallengeResponse X f ctx slot chal w of
      (Inl e, w') \<Rightarrow> e \<in> fake_errors X cfg slot \<and> fake_valid f cfg w'
    | (Inr p, w') \<Rightarrow> \<exists>i secret. p = Some i \<and> otpSlotValid slot \<and> fsecrets cfg slot = Some secret \<and>
        leaves w w' {(i, hmac sha1 secret chal)} {} \<and> fake_valid f cfg w'"
  using fake_run [OF assms, of X ctx slot chal] assms(2)
  by (auto simp: act_def fake_answer_def split: prod.splits sum.splits intro: fake_valid_leaves)

lemma Fake_ChallengeResponse_spec_example:
  "\<exists>i w'. Fake_ChallengeResponse demoX 0 0 2 [1, 2, 3] demoW = (Inr (Some i), w') \<and>
     leaves demoW w' {(i, hmac sha1 (ascii ''a key of twenty byte'') [1, 2, 3])} {}"
  using Fake_ChallengeResponse_spec [OF demoW_wfw demo_fake_valid,
      where X = demoX and ctx = 0 and slot = 2 and chal = "[1, 2, 3]"]
  by (auto simp: demoFake_def [THEN arg_cong [of _ _ fsecrets]] split: prod.splits sum.splits)

end
