(* ===== verification/Yubikey.thy ===== *)
theory Yubikey
  imports Password Transport
begin

text \<open>
  \<open>yubikey.go\<close>: the YubiKey method, alone (a stored random challenge) or as second factor beside a
  password (a secret challenge derived from the password key and stored nowhere). It relies on
  the transport and the KDF only through their contracts.
\<close>

section \<open>The method\<close>

abbreviation (input) yubiChallengeLen :: nat where "yubiChallengeLen \<equiv> 32"

record YubiKeyConfig =
  yc_Slot :: u8
  yc_KDF :: "kdf_iface option"

record YubiKeyMethod =
  ym_transport :: transport
  ym_cfg :: YubiKeyConfig
  ym_password :: sbptr
  ym_label :: bytes
  ym_onTouch :: bool

definition NewYubiKeyMethod :: "transport \<Rightarrow> YubiKeyConfig \<Rightarrow> sbptr \<Rightarrow> Option list \<Rightarrow> YubiKeyMethod" where
  "NewYubiKeyMethod t cfg password opts =
     (let label = (if password \<noteq> None then ascii ''password+yubikey'' else ascii ''yubikey'');
          o' = applyOptions label opts
      in \<lparr>ym_transport = t, ym_cfg = cfg, ym_password = password, ym_label = moLabel o',
          ym_onTouch = moTouchAnnounce o'\<rparr>)"

definition announceTouch :: "YubiKeyMethod \<Rightarrow> unit io" where
  "announceTouch m = (if ym_onTouch m then logEvent EvTouch else ret ())"

definition YubiKeyMethod_Type :: "YubiKeyMethod \<Rightarrow> MethodType" where
  "YubiKeyMethod_Type m = (if ym_password m = None then MethodYubiKey else MethodPasswordAndYubiKey)"

definition slotValid :: "u8 \<Rightarrow> bool" where
  "slotValid s \<longleftrightarrow> s = 1 \<or> s = 2"

definition deriveChallenge :: "environ \<Rightarrow> sbptr \<Rightarrow> bytes \<Rightarrow> addr io" where
  "deriveChallenge X pk chalSalt =
     sb_Read pk (\<lambda>pkb. hkdfSHA256ExtractExpand X pkb chalSalt labelChallenge yubiChallengeLen)"

definition enrollYubiOnly :: "environ \<Rightarrow> YubiKeyMethod \<Rightarrow> nat \<Rightarrow> sbptr \<Rightarrow> slot io" where
  "enrollYubiOnly X m ctx dek =
     bind (randBytes X (int yubiChallengeLen)) (\<lambda>challenge.
     bind (announceTouch m) (\<lambda>_.
     bind (t_ChallengeResponse (ym_transport m) ctx (yc_Slot (ym_cfg m)) challenge) (\<lambda>yr.
     deferring (sb_Destroy X yr) (
       wrapDEK X dek (noInputs\<lparr>ikYubiResp := yr\<rparr>)
         \<lparr>shmt = MethodYubiKey, shkdfID = KDFNone, shkdfParams = [], shkdfSalt = [],
          shchalSalt = [], shchallenge = challenge, shykSlot = yc_Slot (ym_cfg m),
          shlabel = ym_label m\<rparr>))))"

definition enroll2FA :: "environ \<Rightarrow> YubiKeyMethod \<Rightarrow> nat \<Rightarrow> sbptr \<Rightarrow> slot io" where
  "enroll2FA X m ctx dek =
     (case yc_KDF (ym_cfg m) of
        None \<Rightarrow> throw [ErrUnsupportedKDF]
      | Some kdf \<Rightarrow>
          bind (randBytes X (k_SaltLen kdf)) (\<lambda>kdfSalt.
          bind (k_Derive kdf (ym_password m) kdfSalt) (\<lambda>pk.
          deferring (sb_Destroy X pk) (
            bind (randBytes X defaultSaltLen) (\<lambda>chalSalt.
            bind (deriveChallenge X pk chalSalt) (\<lambda>challenge.
            deferring (zero challenge) (
              bind (announceTouch m) (\<lambda>_.
              bind (load challenge) (\<lambda>ch.
              bind (t_ChallengeResponse (ym_transport m) ctx (yc_Slot (ym_cfg m)) ch) (\<lambda>yr.
              deferring (sb_Destroy X yr) (
                wrapDEK X dek (noInputs\<lparr>ikPassword := pk, ikYubiResp := yr\<rparr>)
                  \<lparr>shmt = MethodPasswordAndYubiKey, shkdfID = k_ID kdf,
                   shkdfParams = k_MarshalParams kdf, shkdfSalt = kdfSalt,
                   shchalSalt = chalSalt, shchallenge = [], shykSlot = yc_Slot (ym_cfg m),
                   shlabel = ym_label m\<rparr>)))))))))))"

definition YubiKeyMethod_Enroll :: "environ \<Rightarrow> YubiKeyMethod \<Rightarrow> nat \<Rightarrow> sbptr \<Rightarrow> slot io" where
  "YubiKeyMethod_Enroll X m ctx dek =
     bind (ctxCheck X ctx) (\<lambda>_.
     if \<not> slotValid (yc_Slot (ym_cfg m)) then throw [ErrMalformed]
     else if ym_password m = None then enrollYubiOnly X m ctx dek
     else enroll2FA X m ctx dek)"

definition unlockYubiOnly :: "environ \<Rightarrow> YubiKeyMethod \<Rightarrow> nat \<Rightarrow> slot \<Rightarrow> sbptr io" where
  "unlockYubiOnly X m ctx s =
     bind (announceTouch m) (\<lambda>_.
     bind (t_ChallengeResponse (ym_transport m) ctx (sYKSlot s) (sChallenge s)) (\<lambda>yr.
     deferring (sb_Destroy X yr) (unwrapDEK X s (noInputs\<lparr>ikYubiResp := yr\<rparr>))))"

definition unlock2FA :: "environ \<Rightarrow> YubiKeyMethod \<Rightarrow> nat \<Rightarrow> slot \<Rightarrow> sbptr io" where
  "unlock2FA X m ctx s =
     bind (derivePasswordKey X s (ym_password m)) (\<lambda>pk.
     deferring (sb_Destroy X pk) (
       bind (deriveChallenge X pk (sChalSalt s)) (\<lambda>challenge.
       deferring (zero challenge) (
         bind (announceTouch m) (\<lambda>_.
         bind (load challenge) (\<lambda>ch.
         bind (t_ChallengeResponse (ym_transport m) ctx (sYKSlot s) ch) (\<lambda>yr.
         deferring (sb_Destroy X yr) (
           unwrapDEK X s (noInputs\<lparr>ikPassword := pk, ikYubiResp := yr\<rparr>)))))))))"

definition YubiKeyMethod_Unlock :: "environ \<Rightarrow> YubiKeyMethod \<Rightarrow> nat \<Rightarrow> slot \<Rightarrow> sbptr io" where
  "YubiKeyMethod_Unlock X m ctx s =
     bind (ctxCheck X ctx) (\<lambda>_.
     if \<not> slotValid (sYKSlot s) then throw [ErrMalformed]
     else if ym_password m = None then unlockYubiOnly X m ctx s
     else unlock2FA X m ctx s)"

definition yubikey_method :: "environ \<Rightarrow> YubiKeyMethod \<Rightarrow> meth" where
  "yubikey_method X m =
     \<lparr>m_Type = YubiKeyMethod_Type m, m_Enroll = YubiKeyMethod_Enroll X m,
      m_Unlock = YubiKeyMethod_Unlock X m\<rparr>"

section \<open>Steps\<close>

text \<open>The secret challenge of a slot's second factor.\<close>

definition challengeOf :: "bytes \<Rightarrow> bytes \<Rightarrow> bytes" where
  "challengeOf pk chalSalt = kekOf pk chalSalt labelChallenge"

lemma deriveChallenge_computes:
  assumes w: "wfw w" and c: "contents w p = Inr v"
  shows "computesRaw True (faults X) (deriveChallenge X p salt) (Inr (challengeOf v salt)) w"
  using hkdfSHA256ExtractExpand_computes [OF w, of X v salt labelChallenge 32] w c
  unfolding hkdf_Expand_32
  by (simp add: deriveChallenge_def computesRaw_def act_def sb_Read_run challengeOf_def)

lemma act_announceTouch:
  assumes w: "wfw w"
  shows "act c (announceTouch m) w Err (\<lambda>x w1 K D. K = {} \<and> D = {} \<and> wmem w1 = wmem w)"
proof (cases "ym_onTouch m")
  case True
  have "leaves w (w\<lparr>wlog := EvTouch # wlog w\<rparr>) {} {}"
    by (rule leaves_same [OF leaves_refl [OF w]]) (simp_all add: fakeCfg_def)
  with True show ?thesis
    by (auto simp: announceTouch_def logEvent_def modify_apply intro!: act_okI)
next
  case False
  then show ?thesis by (simp add: announceTouch_def act_ret w)
qed

text \<open>Touch, then a response, then a continuation that owns it until it returns.\<close>

context transport_contract
begin

lemma act_response:
  assumes w: "wfw w" and v: "tvalid w" and E: "\<And>e. e \<in> TE slot \<Longrightarrow> Err e"
    and f: "\<And>i r w1. wfw w1 \<Longrightarrow> leaves w w1 {(i, r)} {} \<Longrightarrow> contents w1 (Some i) = Inr r \<Longrightarrow>
      ans slot ch r \<Longrightarrow> act c (f (Some i)) w1 Err (\<lambda>x w2 K D. \<forall>w3. Ok x w3 K D)"
  shows "act c (bind (t_ChallengeResponse T ctx slot ch) (\<lambda>yr. deferring (sb_Destroy X yr) (f yr))) w Err Ok"
  by (rule act_scoped [OF w, where P = "ans slot ch"], rule act_conseq [OF respond [OF w v]])
    (use E in \<open>auto intro!: f contents_new\<close>)

lemma act_touch_response:
  assumes w: "wfw w" and v: "tvalid w" and E: "\<And>e. e \<in> TE slot \<Longrightarrow> Err e"
    and f: "\<And>i r w1. wfw w1 \<Longrightarrow> leaves w w1 {(i, r)} {} \<Longrightarrow> contents w1 (Some i) = Inr r \<Longrightarrow>
      ans slot ch r \<Longrightarrow> act c (f (Some i)) w1 Err (\<lambda>x w2 K D. \<forall>w3. Ok x w3 K D)"
  shows "act c (bind (announceTouch m) (\<lambda>_. bind (t_ChallengeResponse T ctx slot ch)
    (\<lambda>yr. deferring (sb_Destroy X yr) (f yr)))) w Err Ok"
proof (rule act_bind [OF w act_announceTouch [OF w]])
  fix w1 assume w1: "wfw w1" "leaves w w1 {} {}"
  show "act c (bind (t_ChallengeResponse T ctx slot ch) (\<lambda>yr. deferring (sb_Destroy X yr) (f yr))) w1 Err Ok"
    by (rule act_response [OF w1(1) tstable [OF v w1(2)] E])
      (auto intro!: f leaves_clean_trans [OF w w1(2)])
qed

text \<open>The same with the challenge in a raw buffer, wiped at the end.\<close>

lemma act_secret_challenge:
  assumes w: "wfw w" and v: "tvalid w" and pk: "contents w p = Inr k"
    and E: "\<And>e. e \<in> TE slot \<or> e \<in> faults X \<Longrightarrow> Err e"
    and f: "\<And>i r w1 D. wfw w1 \<Longrightarrow> leaves w w1 {(i, r)} D \<Longrightarrow> contents w1 (Some i) = Inr r \<Longrightarrow>
      ans slot (challengeOf k salt) r \<Longrightarrow> act c (f (Some i)) w1 Err (\<lambda>x w2 K D. \<forall>w3. Ok x w3 K D)"
  shows "act c (bind (deriveChallenge X p salt) (\<lambda>ch. deferring (zero ch) (bind (announceTouch m) (\<lambda>_.
    bind (load ch) (\<lambda>cb. bind (t_ChallengeResponse T ctx slot cb)
      (\<lambda>yr. deferring (sb_Destroy X yr) (f yr))))))) w Err Ok"
proof (rule act_scoped_raw [OF w, where P = "\<lambda>b. b = challengeOf k salt"])
  show "act c (deriveChallenge X p salt) w Err (\<lambda>a w1 K D. K = {} \<and> D = {a} \<and> wmem w1 ! a = challengeOf k salt)"
    by (rule act_conseq [OF deriveChallenge_computes [OF w pk, of X salt, unfolded computesRaw_def]])
      (auto intro: E)
next
  fix a w1
  let ?ch = "challengeOf k salt"
  assume w1: "wfw w1" "leaves w w1 {} {a}" and a: "a < length (wmem w1)" "wmem w1 ! a = ?ch"
  let ?Ok = "\<lambda>x w2 K D. \<forall>w3. (\<forall>b. b \<noteq> a \<longrightarrow> wmem w3 ! b = wmem w2 ! b) \<longrightarrow> Ok x w3 K D"
  have v1: "tvalid w1" by (rule tstable [OF v w1(2)])
  show "act c (bind (announceTouch m) (\<lambda>_. bind (load a) (\<lambda>cb. bind (t_ChallengeResponse T ctx slot cb)
      (\<lambda>yr. deferring (sb_Destroy X yr) (f yr))))) w1 Err ?Ok"
  proof (rule act_bind [OF w1(1) act_announceTouch [OF w1(1)]])
    fix w2 assume w2: "wfw w2" "leaves w1 w2 {} {}" "wmem w2 = wmem w1"
    have l2: "leaves w w2 {} {a}" using leaves_trans [OF w w1(2) w2(2)] by simp
    have "act c (bind (t_ChallengeResponse T ctx slot ?ch) (\<lambda>yr. deferring (sb_Destroy X yr) (f yr))) w2 Err ?Ok"
    proof (rule act_response [OF w2(1) tstable [OF v1 w2(2)]])
      fix i r w3 assume w3: "wfw w3" "leaves w2 w3 {(i, r)} {}" "contents w3 (Some i) = Inr r" "ans slot ?ch r"
      have "leaves w w3 {(i, r)} {a}" using leaves_trans [OF w l2 w3(2)] by simp
      from f [OF w3(1) this w3(3,4)]
      show "act c (f (Some i)) w3 Err (\<lambda>x w2 K D. \<forall>w3. ?Ok x w3 K D)"
        by (rule act_conseq) auto
    qed (auto intro: E)
    then show "act c (bind (load a) (\<lambda>cb. bind (t_ChallengeResponse T ctx slot cb)
        (\<lambda>yr. deferring (sb_Destroy X yr) (f yr)))) w2 Err ?Ok"
      using a w2(3) by (intro act_load) simp
  qed
qed

end

section \<open>YubiKey alone\<close>

definition yubi_enrolled ::
  "environ \<Rightarrow> (u8 \<Rightarrow> bytes \<Rightarrow> bytes \<Rightarrow> bool) \<Rightarrow> u8 \<Rightarrow> bytes \<Rightarrow> bytes \<Rightarrow> slot \<Rightarrow> bool" where
  "yubi_enrolled X ans slot lbl d s \<longleftrightarrow>
     sType s = MethodYubiKey \<and> sKDFID s = KDFNone \<and> sKDFParams s = [] \<and> sKDFSalt s = [] \<and>
     sChalSalt s = [] \<and> length (sChallenge s) = yubiChallengeLen \<and> sYKSlot s = slot \<and>
     slotValid slot \<and> sLabel s = lbl \<and>
     (\<exists>r. ans slot (sChallenge s) r \<and> sealedWith X (ikmBytes None (Some r) None) d s)"

lemma ikmSpec_yubi:
  "contents w (Some i) = Inr v \<Longrightarrow>
   ikmSpec w (noInputs\<lparr>ikYubiResp := Some i\<rparr>) = Inr (ikmBytes None (Some v) None)"
  by (simp add: ikmSpec_factors noInputs_def factor_Some)

lemma ikmSpec_2fa:
  "contents w (Some i) = Inr v \<Longrightarrow> contents w (Some j) = Inr r \<Longrightarrow>
   ikmSpec w (noInputs\<lparr>ikPassword := Some i, ikYubiResp := Some j\<rparr>) = Inr (ikmBytes (Some v) (Some r) None)"
  by (simp add: ikmSpec_factors noInputs_def factor_Some)

lemma validInputs_yubi:
  "contents w (Some i) = Inr v \<Longrightarrow> validInputs w (noInputs\<lparr>ikYubiResp := Some i\<rparr>)"
  by (auto simp: validInputs_def roles_def noInputs_def dest: contents_valid)

lemma validInputs_2fa:
  "contents w (Some i) = Inr v \<Longrightarrow> contents w (Some j) = Inr r \<Longrightarrow>
   validInputs w (noInputs\<lparr>ikPassword := Some i, ikYubiResp := Some j\<rparr>)"
  by (auto simp: validInputs_def roles_def noInputs_def dest: contents_valid)

text \<open>Unlocking gives what the slot seals for one of the device's answers, or an error.\<close>

definition unlockErr :: "environ \<Rightarrow> (u8 \<Rightarrow> gerror set) \<Rightarrow> (bytes \<Rightarrow> bool) \<Rightarrow> slot \<Rightarrow> gerror \<Rightarrow> bool" where
  "unlockErr X TE isIKM s e \<longleftrightarrow>
     e \<in> TE (sYKSlot s) \<or> e \<in> faults X \<or> (\<exists>ikm. isIKM ikm \<and> unwrapSpec X (Inr ikm) s = Inl e)"

text \<open>The keying material a slot can get from a device, alone or with a password.\<close>

definition yubiIKM :: "(u8 \<Rightarrow> bytes \<Rightarrow> bytes \<Rightarrow> bool) \<Rightarrow> slot \<Rightarrow> bytes \<Rightarrow> bool" where
  "yubiIKM ans s ikm \<longleftrightarrow> (\<exists>r. ans (sYKSlot s) (sChallenge s) r \<and> ikm = ikmBytes None (Some r) None)"

definition twoFactorIKM ::
  "environ \<Rightarrow> (u8 \<Rightarrow> bytes \<Rightarrow> bytes \<Rightarrow> bool) \<Rightarrow> gerror + bytes \<Rightarrow> slot \<Rightarrow> bytes \<Rightarrow> bool" where
  "twoFactorIKM X ans pw s ikm \<longleftrightarrow>
     (\<exists>pk r. slotPasswordKey X pw s = Inr pk \<and> ans (sYKSlot s) (challengeOf pk (sChalSalt s)) r \<and>
        ikm = ikmBytes (Some pk) (Some r) None)"

lemma act_unwrap:
  assumes w: "wfw w" and v: "validInputs w inp" and i: "ikmSpec w inp = Inr ikm" "isIKM ikm"
    and E: "\<And>e. unlockErr X (\<lambda>_. {}) isIKM s e \<Longrightarrow> Err e"
    and Ok: "\<And>i d w'. unwrapSpec X (Inr ikm) s = Inr d \<Longrightarrow> Ok (Some i) w' {(i, d)} {}"
  shows "act True (unwrapDEK X s inp) w Err Ok"
  by (rule act_conseq [OF unwrapDEK_computes [OF w v, of X s, unfolded computes_def i(1)]])
    (use i E Ok in \<open>auto simp: unlockErr_def\<close>)

context transport_contract
begin

lemma enroll_yubi:
  assumes w: "wfw w" and v: "tvalid w" "validPtr w dek" and m: "ym_transport m = T"
    "slotValid (yc_Slot (ym_cfg m))"
  shows "act c (enrollYubiOnly X m ctx dek) w (\<lambda>_. True)
    (\<lambda>s w' L D. L = {} \<and> D = {} \<and>
       (\<exists>d. contents w dek = Inr d \<and> yubi_enrolled X ans (yc_Slot (ym_cfg m)) (ym_label m) d s))"
  (is "act _ _ _ ?E ?Ok")
  unfolding enrollYubiOnly_def m(1)
proof (rule act_bind [OF w act_randBytes [OF w]])
  fix ch :: bytes and w1
  let ?sh = "\<lparr>shmt = MethodYubiKey, shkdfID = KDFNone, shkdfParams = [], shkdfSalt = [],
    shchalSalt = [], shchallenge = ch, shykSlot = yc_Slot (ym_cfg m), shlabel = ym_label m\<rparr>"
  assume w1: "wfw w1" "leaves w w1 {} {}" and ch: "length ch = nat (int yubiChallengeLen)"
  show "act c (bind (announceTouch m) (\<lambda>_. bind (t_ChallengeResponse T ctx (yc_Slot (ym_cfg m)) ch)
      (\<lambda>yr. deferring (sb_Destroy X yr) (wrapDEK X dek (noInputs\<lparr>ikYubiResp := yr\<rparr>) ?sh)))) w1 ?E ?Ok"
  proof (rule act_touch_response [OF w1(1) tstable [OF v(1) w1(2)]])
    fix i r w2 assume w2: "wfw w2" "leaves w1 w2 {(i, r)} {}" and c: "contents w2 (Some i) = Inr r"
      and r: "ans (yc_Slot (ym_cfg m)) ch r"
    have l2: "leaves w w2 {(i, r)} {}" by (rule leaves_clean_trans [OF w w1(2) w2(2)])
    show "act c (wrapDEK X dek (noInputs\<lparr>ikYubiResp := Some i\<rparr>) ?sh) w2 ?E (\<lambda>x w2 K D. \<forall>w3. ?Ok x w3 K D)"
      by (rule act_conseq [OF wrapDEK_act [OF w2(1) validInputs_yubi [OF c] validPtr_leaves [OF l2 v(2)]]])
        (use ch r m contents_stable [OF w l2 v(2)] in
          \<open>auto simp: ikmSpec_yubi [OF c] yubi_enrolled_def shaped_def\<close>)
  qed simp
qed simp_all

lemma unlock_yubi:
  assumes w: "wfw w" and v: "tvalid w" and m: "ym_transport m = T"
  shows "act c (unlockYubiOnly X m ctx s) w
    (unlockErr X TE (yubiIKM ans s) s)
    (\<lambda>p w' L D. \<exists>i d ikm. p = Some i \<and> L = {(i, d)} \<and> D = {} \<and> yubiIKM ans s ikm \<and>
       unwrapSpec X (Inr ikm) s = Inr d)"
  (is "act _ _ _ ?E ?Ok")
  unfolding unlockYubiOnly_def m
proof (rule act_touch_response [OF w v])
  fix i r w1 assume w1: "wfw w1" and cr: "contents w1 (Some i) = Inr r" and r: "ans (sYKSlot s) (sChallenge s) r"
  have "act True (unwrapDEK X s (noInputs\<lparr>ikYubiResp := Some i\<rparr>)) w1 ?E (\<lambda>x w2 K D. \<forall>w3. ?Ok x w3 K D)"
    by (rule act_unwrap [OF w1 validInputs_yubi [OF cr] ikmSpec_yubi [OF cr],
        where isIKM = "yubiIKM ans s"])
      (use r in \<open>auto simp: unlockErr_def yubiIKM_def\<close>)
  then show "act c (unwrapDEK X s (noInputs\<lparr>ikYubiResp := Some i\<rparr>)) w1 ?E (\<lambda>x w2 K D. \<forall>w3. ?Ok x w3 K D)"
    by (rule act_conseq) auto
qed (simp add: unlockErr_def)

lemma unlock_2fa:
  assumes w: "wfw w" and v: "tvalid w" "validPtr w (ym_password m)" and m: "ym_transport m = T"
  shows "act c (unlock2FA X m ctx s) w
    (\<lambda>e. unlockErr X TE (twoFactorIKM X ans (contents w (ym_password m)) s) s e \<or> slotPasswordKey X (contents w (ym_password m)) s = Inl e)
    (\<lambda>p w' L D. \<exists>i d ikm. p = Some i \<and> L = {(i, d)} \<and> D = {} \<and> twoFactorIKM X ans (contents w (ym_password m)) s ikm \<and>
       unwrapSpec X (Inr ikm) s = Inr d)"
  (is "act _ _ _ ?E ?Ok")
  unfolding unlock2FA_def m
proof (rule act_computes [OF w computes_mono [OF derivePasswordKey_computes [OF w] order_refl TrueI]])
  fix i k w1 assume w1: "wfw w1" "leaves w w1 {(i, k)} {}" and ck: "contents w1 (Some i) = Inr k"
    and k: "slotPasswordKey X (contents w (ym_password m)) s = Inr k"
  show "act c (bind (deriveChallenge X (Some i) (sChalSalt s)) (\<lambda>ch. deferring (zero ch)
      (bind (announceTouch m) (\<lambda>_. bind (load ch) (\<lambda>cb. bind (t_ChallengeResponse T ctx (sYKSlot s) cb)
        (\<lambda>yr. deferring (sb_Destroy X yr)
          (unwrapDEK X s (noInputs\<lparr>ikPassword := Some i, ikYubiResp := yr\<rparr>)))))))) w1 ?E
      (\<lambda>x w2 K D. \<forall>w3. ?Ok x w3 K D)"
  proof (rule act_secret_challenge [OF w1(1) tstable [OF v(1) w1(2)] ck])
    fix j r w2 D assume w2: "wfw w2" "leaves w1 w2 {(j, r)} D" and cr: "contents w2 (Some j) = Inr r"
      and r: "ans (sYKSlot s) (challengeOf k (sChalSalt s)) r"
    have c2: "contents w2 (Some i) = Inr k" by (rule contents_leaves [OF w1(1) w2(2) ck])
    have ikm: "twoFactorIKM X ans (contents w (ym_password m)) s (ikmBytes (Some k) (Some r) None)"
      using k r by (auto simp: twoFactorIKM_def)
    have "act True (unwrapDEK X s (noInputs\<lparr>ikPassword := Some i, ikYubiResp := Some j\<rparr>)) w2 ?E
        (\<lambda>x w2 K D. \<forall>w3 w4. ?Ok x w4 K D)"
      by (rule act_unwrap [OF w2(1) validInputs_2fa [OF c2 cr] ikmSpec_2fa [OF c2 cr],
          where isIKM = "twoFactorIKM X ans (contents w (ym_password m)) s"])
        (use ikm in \<open>auto simp: unlockErr_def\<close>)
    then show "act c (unwrapDEK X s (noInputs\<lparr>ikPassword := Some i, ikYubiResp := Some j\<rparr>)) w2 ?E
        (\<lambda>x w2 K D. \<forall>w3 w4. ?Ok x w4 K D)"
      by (rule act_conseq) auto
  qed (auto simp: unlockErr_def)
qed (auto simp: unlockErr_def)

end

section \<open>The second factor\<close>

definition twofa_enrolled ::
  "environ \<Rightarrow> kdf_iface \<Rightarrow> (bytes \<Rightarrow> bytes \<Rightarrow> gerror + bytes) \<Rightarrow> (u8 \<Rightarrow> bytes \<Rightarrow> bytes \<Rightarrow> bool) \<Rightarrow>
   u8 \<Rightarrow> bytes \<Rightarrow> bytes \<Rightarrow> bytes \<Rightarrow> slot \<Rightarrow> bool" where
  "twofa_enrolled X K stretch ans slot lbl pw d s \<longleftrightarrow>
     sType s = MethodPasswordAndYubiKey \<and> sKDFID s = k_ID K \<and> sKDFParams s = k_MarshalParams K \<and>
     length (sKDFSalt s) = nat (k_SaltLen K) \<and> length (sChalSalt s) = 16 \<and> sChallenge s = [] \<and>
     sYKSlot s = slot \<and> slotValid slot \<and> sLabel s = lbl \<and>
     (\<exists>pk r. stretch pw (sKDFSalt s) = Inr pk \<and> ans slot (challengeOf pk (sChalSalt s)) r \<and>
        sealedWith X (ikmBytes (Some pk) (Some r) None) d s)"

locale two_factor =
  tr: transport_contract T tvalid c ans TE + kd: kdf_contract K stretch E
  for T tvalid c ans TE K stretch E
begin

lemma enroll_2fa:
  assumes w: "wfw w" and v: "tvalid w" "validPtr w dek" "validPtr w (ym_password m)"
    and m: "ym_transport m = T" "slotValid (yc_Slot (ym_cfg m))" "yc_KDF (ym_cfg m) = Some K"
  shows "act c (enroll2FA X m ctx dek) w (password_enrollErr (faults X \<union> E \<union> TE (yc_Slot (ym_cfg m))) K stretch (ym_label m)
      (contents w (ym_password m)) (contents w dek))
    (\<lambda>s w' L D. L = {} \<and> D = {} \<and> (\<exists>pw d. contents w (ym_password m) = Inr pw \<and>
       contents w dek = Inr d \<and>
       twofa_enrolled X K stretch ans (yc_Slot (ym_cfg m)) (ym_label m) pw d s))"
  (is "act _ _ _ ?E ?Ok")
  unfolding enroll2FA_def m(1,3) option.case
proof (rule act_bind [OF w act_randBytes [OF w]])
  fix salt :: bytes and w1
  assume w1: "wfw w1" "leaves w w1 {} {}" and salt: "length salt = nat (k_SaltLen K)"
  let ?sh = "\<lambda>chalSalt. \<lparr>shmt = MethodPasswordAndYubiKey, shkdfID = k_ID K,
    shkdfParams = k_MarshalParams K, shkdfSalt = salt, shchalSalt = chalSalt, shchallenge = [],
    shykSlot = yc_Slot (ym_cfg m), shlabel = ym_label m\<rparr>"
  let ?wrap = "\<lambda>pk chalSalt yr. wrapDEK X dek (noInputs\<lparr>ikPassword := pk, ikYubiResp := yr\<rparr>) (?sh chalSalt)"
  let ?chal = "\<lambda>pk chalSalt. bind (deriveChallenge X pk chalSalt) (\<lambda>challenge. deferring (zero challenge)
      (bind (announceTouch m) (\<lambda>_. bind (load challenge) (\<lambda>ch.
        bind (t_ChallengeResponse T ctx (yc_Slot (ym_cfg m)) ch) (\<lambda>yr.
          deferring (sb_Destroy X yr) (?wrap pk chalSalt yr))))))"
  show "act c (bind (k_Derive K (ym_password m) salt) (\<lambda>pk. deferring (sb_Destroy X pk)
      (bind (randBytes X defaultSaltLen) (?chal pk)))) w1 ?E ?Ok"
  proof (rule act_computes [OF w1(1) computes_mono [OF kd.derive [OF w1(1)] order_refl TrueI]])
    fix i k w2 assume w2: "wfw w2" "leaves w1 w2 {(i, k)} {}" and ck: "contents w2 (Some i) = Inr k"
      and k: "derived w1 (ym_password m) (\<lambda>pw. stretch pw salt) = Inr k"
    have l2: "leaves w w2 {(i, k)} {}" by (rule leaves_clean_trans [OF w w1(2) w2(2)])
    from k obtain pw where pw: "contents w (ym_password m) = Inr pw" "stretch pw salt = Inr k"
      using contents_stable [OF w w1(2) v(3)] by (auto simp: derived_def split: sum.splits)
    let ?Ok2 = "\<lambda>x w2 K D. \<forall>w3. ?Ok x w3 K D"
    show "act c (bind (randBytes X defaultSaltLen) (?chal (Some i))) w2 ?E ?Ok2"
    proof (rule act_bind [OF w2(1) act_randBytes [OF w2(1)]])
      fix cs :: bytes and w3
      assume w3: "wfw w3" "leaves w2 w3 {} {}" and cs: "length cs = nat defaultSaltLen"
      have l3: "leaves w w3 {(i, k)} {}" using leaves_trans [OF w l2 w3(2)] by simp
      have c3: "contents w3 (Some i) = Inr k" by (rule contents_leaves [OF w2(1) w3(2) ck])
      show "act c (?chal (Some i) cs) w3 ?E ?Ok2"
      proof (rule tr.act_secret_challenge [OF w3(1) tr.tstable [OF v(1) l3] c3])
        fix j r w4 D assume w4: "wfw w4" "leaves w3 w4 {(j, r)} D" and cr: "contents w4 (Some j) = Inr r"
          and r: "ans (yc_Slot (ym_cfg m)) (challengeOf k cs) r"
        have l4: "leaves w w4 ({(i, k)} \<union> {(j, r)}) D" using leaves_trans [OF w l3 w4(2)] by simp
        have c4: "contents w4 (Some i) = Inr k" by (rule contents_leaves [OF w3(1) w4(2) c3])
        show "act c (?wrap (Some i) cs (Some j)) w4 ?E (\<lambda>x w2 K D. \<forall>w3. ?Ok2 x w3 K D)"
          by (rule act_conseq [OF wrapDEK_act [OF w4(1) validInputs_2fa [OF c4 cr] validPtr_leaves [OF l4 v(2)]]])
            (use salt cs r pw m contents_stable [OF w l4 v(2)] in
              \<open>auto simp: ikmSpec_2fa [OF c4 cr] twofa_enrolled_def shaped_def wrapErr_def
                password_enrollErr_def enrollFits_def shapeFits_def MethodType_valid_def\<close>)
      qed (auto simp: password_enrollErr_def)
    qed (simp_all add: password_enrollErr_def)
  qed (use salt contents_stable [OF w w1(2) v(3)] in
      \<open>auto simp: password_enrollErr_def derived_def split: sum.splits\<close>)
qed (simp_all add: password_enrollErr_def enrollFits_def)

end

text \<open>The second factor with the repository's own KDFs and \<open>FakeTransport\<close>.\<close>

interpretation fake2fa: two_factor "fake_transport X f" "fake_valid f cfg" False "fake_answer cfg"
    "fake_errors X cfg" "builtin_kdf X k" "kdf_stretch X k" "faults X" for X f cfg k
  by unfold_locales

text \<open>
  A device with one answer per challenge opens what it sealed, alone and as second factor.
\<close>

lemma yubi_roundtrip:
  assumes "aead_correct X" and dev: "\<And>sl ch r r'. ans sl ch r \<Longrightarrow> ans sl ch r' \<Longrightarrow> r = r'"
    and "yubi_enrolled X ans slot lbl d s" and "yubiIKM ans s ikm"
  shows "unwrapSpec X (Inr ikm) s = Inr d"
proof -
  from assms(3,4) obtain r r' where "ans (sYKSlot s) (sChallenge s) r" "ans (sYKSlot s) (sChallenge s) r'"
    and s: "sealedWith X (ikmBytes None (Some r) None) d s" and ikm: "ikm = ikmBytes None (Some r') None"
    by (auto simp: yubi_enrolled_def yubiIKM_def)
  then have "r = r'" by (intro dev)
  with s ikm show ?thesis by (simp add: unwrapSpec_sealed [OF assms(1)])
qed

lemma twofa_roundtrip:
  assumes "aead_correct X" and "parseKDF (k_ID K) (k_MarshalParams K) = Inr (Some k)"
    and dev: "\<And>sl ch r r'. ans sl ch r \<Longrightarrow> ans sl ch r' \<Longrightarrow> r = r'"
    and "twofa_enrolled X K (kdf_stretch X k) ans slot lbl pw d s"
    and "twoFactorIKM X ans (Inr pw) s ikm"
  shows "unwrapSpec X (Inr ikm) s = Inr d"
proof -
  from assms(2,4,5) obtain pk r r' where "ans (sYKSlot s) (challengeOf pk (sChalSalt s)) r"
      "ans (sYKSlot s) (challengeOf pk (sChalSalt s)) r'"
    and s: "sealedWith X (ikmBytes (Some pk) (Some r) None) d s"
    and ikm: "ikm = ikmBytes (Some pk) (Some r') None"
    by (auto simp: twofa_enrolled_def twoFactorIKM_def slotPasswordKey_def)
  then have "r = r'" by (intro dev)
  with s ikm show ?thesis by (simp add: unwrapSpec_sealed [OF assms(1)])
qed

section \<open>The method keeps its contract\<close>

definition yubikey_valid :: "bool \<Rightarrow> YubiKeyMethod \<Rightarrow> world \<Rightarrow> bool" where
  "yubikey_valid c m w \<longleftrightarrow> validPtr w (ym_password m) \<and>
     (\<forall>K. yc_KDF (ym_cfg m) = Some K \<longrightarrow> (\<exists>stretch E. kdf_contract K stretch E)) \<and>
     (\<exists>tvalid ans TE. transport_contract (ym_transport m) tvalid c ans TE \<and> tvalid w)"

lemma yubikey_valid_leaves:
  assumes v: "yubikey_valid c m w" and l: "leaves w w' K D"
  shows "yubikey_valid c m w'"
proof -
  from v obtain tvalid ans TE where t: "transport_contract (ym_transport m) tvalid c ans TE" "tvalid w"
    by (auto simp: yubikey_valid_def)
  from transport_contract.tstable [OF t l] t(1) v validPtr_leaves [OF l] show ?thesis
    unfolding yubikey_valid_def by metis
qed

lemma yubikey_enroll_complete:
  assumes w: "wfw w" and valid: "yubikey_valid c m w" and dek: "validPtr w dek"
  shows "act c (YubiKeyMethod_Enroll X m ctx dek) w (\<lambda>_. True)
    (\<lambda>s w' K D. K = {} \<and> D = {} \<and> sType s = YubiKeyMethod_Type m \<and> complete s)"
  (is "act _ _ _ ?E ?Ok")
  unfolding YubiKeyMethod_Enroll_def
proof (rule act_bind [OF w act_ctxCheck [OF w]])
  fix w1 assume w1: "wfw w1" "leaves w w1 {} {}"
  from yubikey_valid_leaves [OF valid w1(2)] obtain tvalid ans TE
    where t: "transport_contract (ym_transport m) tvalid c ans TE" and tv: "tvalid w1"
      and pv: "validPtr w1 (ym_password m)"
      and kd: "\<forall>K. yc_KDF (ym_cfg m) = Some K \<longrightarrow> (\<exists>stretch E. kdf_contract K stretch E)"
    by (auto simp: yubikey_valid_def)
  note dv = validPtr_leaves [OF w1(2) dek]
  have 1: "act c (enrollYubiOnly X m ctx dek) w1 ?E ?Ok"
    if "slotValid (yc_Slot (ym_cfg m))" "ym_password m = None"
    by (rule act_conseq [OF transport_contract.enroll_yubi [OF t w1(1) tv dv refl that(1)]])
      (use that in \<open>auto simp: yubi_enrolled_def sealedWith_def complete_def YubiKeyMethod_Type_def\<close>)
  have 2: "act c (enroll2FA X m ctx dek) w1 ?E ?Ok"
    if "slotValid (yc_Slot (ym_cfg m))" "ym_password m \<noteq> None"
  proof (cases "yc_KDF (ym_cfg m)")
    case None
    then show ?thesis by (simp add: enroll2FA_def act_throw w1)
  next
    case (Some K)
    with kd obtain stretch E where "kdf_contract K stretch E" by blast
    with t have tf: "two_factor (ym_transport m) tvalid c ans TE K stretch E" by (rule two_factor.intro)
    show ?thesis
      by (rule act_conseq [OF two_factor.enroll_2fa [OF tf w1(1) tv dv pv refl that(1) Some]])
        (use that in \<open>auto simp: twofa_enrolled_def sealedWith_def complete_def YubiKeyMethod_Type_def\<close>)
  qed
  show "act c (if \<not> slotValid (yc_Slot (ym_cfg m)) then throw [ErrMalformed]
      else if ym_password m = None then enrollYubiOnly X m ctx dek else enroll2FA X m ctx dek) w1 ?E ?Ok"
    using 1 2 by (auto intro: act_throw w1)
qed simp

text \<open>
  The key material an unlock uses: the response of the key alone, or the stretched password with
  the response to the challenge derived from it.
\<close>

definition factorIKM ::
  "environ \<Rightarrow> (u8 \<Rightarrow> bytes \<Rightarrow> bytes \<Rightarrow> bool) \<Rightarrow> YubiKeyMethod \<Rightarrow> gerror + bytes \<Rightarrow> slot \<Rightarrow> bytes \<Rightarrow> bool" where
  "factorIKM X ans m pw s ikm \<longleftrightarrow>
     (if ym_password m = None then yubiIKM ans s ikm else twoFactorIKM X ans pw s ikm)"

definition yubikey_unlockErr ::
  "environ \<Rightarrow> (u8 \<Rightarrow> gerror set) \<Rightarrow> (u8 \<Rightarrow> bytes \<Rightarrow> bytes \<Rightarrow> bool) \<Rightarrow> YubiKeyMethod \<Rightarrow> gerror + bytes \<Rightarrow> slot \<Rightarrow> gerror \<Rightarrow> bool" where
  "yubikey_unlockErr X TE ans m pw s e \<longleftrightarrow>
     unlockErr X TE (factorIKM X ans m pw s) s e \<or> e = [ErrMalformed] \<and> \<not> slotValid (sYKSlot s) \<or>
     ym_password m \<noteq> None \<and> slotPasswordKey X pw s = Inl e"

lemma yubikey_unlock_factors:
  assumes t: "transport_contract (ym_transport m) tvalid c ans TE" and w: "wfw w" and "tvalid w"
    and pv: "validPtr w (ym_password m)"
  shows "act c (YubiKeyMethod_Unlock X m ctx s) w
    (yubikey_unlockErr X TE ans m (contents w (ym_password m)) s)
    (\<lambda>p w' K D. slotValid (sYKSlot s) \<and> (\<exists>i d ikm. p = Some i \<and> K = {(i, d)} \<and> D = {} \<and>
       factorIKM X ans m (contents w (ym_password m)) s ikm \<and> unwrapSpec X (Inr ikm) s = Inr d))"
  (is "act _ _ _ ?E ?Ok")
  unfolding YubiKeyMethod_Unlock_def
proof (rule act_bind [OF w act_ctxCheck [OF w]])
  fix w1 assume w1: "wfw w1" "leaves w w1 {} {}"
  have tv: "tvalid w1" by (rule transport_contract.tstable [OF t assms(3) w1(2)])
  have cs: "contents w1 (ym_password m) = contents w (ym_password m)"
    by (rule contents_stable [OF w w1(2) pv])
  have pv1: "validPtr w1 (ym_password m)" by (rule validPtr_leaves [OF w1(2) pv])
  have 1: "act c (unlockYubiOnly X m ctx s) w1 ?E ?Ok" if "ym_password m = None" "slotValid (sYKSlot s)"
    by (rule act_conseq [OF transport_contract.unlock_yubi [OF t w1(1) tv refl]])
      (use that in \<open>auto simp: yubikey_unlockErr_def unlockErr_def factorIKM_def\<close>)
  have 2: "act c (unlock2FA X m ctx s) w1 ?E ?Ok" if "ym_password m \<noteq> None" "slotValid (sYKSlot s)"
    by (rule act_conseq [OF transport_contract.unlock_2fa [OF t w1(1) tv pv1 refl]])
      (use that cs in \<open>auto simp: yubikey_unlockErr_def unlockErr_def factorIKM_def\<close>)
  show "act c (if \<not> slotValid (sYKSlot s) then throw [ErrMalformed]
      else if ym_password m = None then unlockYubiOnly X m ctx s else unlock2FA X m ctx s) w1 ?E ?Ok"
    using 1 2 by (auto simp: yubikey_unlockErr_def intro: act_throw w1)
qed (simp add: yubikey_unlockErr_def unlockErr_def)

lemma yubikey_enroll_2fa:
  assumes t: "transport_contract (ym_transport m) tvalid c ans TE" and k: "kdf_contract K stretch E"
    and w: "wfw w" and "tvalid w" and pv: "validPtr w (ym_password m)" "validPtr w dek"
    and m: "yc_KDF (ym_cfg m) = Some K" "ym_password m \<noteq> None"
  shows "act c (YubiKeyMethod_Enroll X m ctx dek) w
    (\<lambda>e. password_enrollErr (faults X \<union> E \<union> TE (yc_Slot (ym_cfg m))) K stretch (ym_label m)
      (contents w (ym_password m)) (contents w dek) e \<or> e = [ErrMalformed] \<and> \<not> slotValid (yc_Slot (ym_cfg m)))
    (\<lambda>s w' L D. L = {} \<and> D = {} \<and> (\<exists>pw d. contents w (ym_password m) = Inr pw \<and>
       contents w dek = Inr d \<and>
       twofa_enrolled X K stretch ans (yc_Slot (ym_cfg m)) (ym_label m) pw d s))"
  (is "act _ _ _ ?E ?Ok")
  unfolding YubiKeyMethod_Enroll_def
proof (rule act_bind [OF w act_ctxCheck [OF w]])
  fix w1 assume w1: "wfw w1" "leaves w w1 {} {}"
  have tv: "tvalid w1" by (rule transport_contract.tstable [OF t assms(4) w1(2)])
  note cs = contents_stable [OF w w1(2) pv(1)] contents_stable [OF w w1(2) pv(2)]
  note pv1 = validPtr_leaves [OF w1(2) pv(1)] validPtr_leaves [OF w1(2) pv(2)]
  note tf = two_factor.intro [OF t k]
  have "act c (enroll2FA X m ctx dek) w1 ?E ?Ok" if "slotValid (yc_Slot (ym_cfg m))"
    by (rule act_conseq [OF two_factor.enroll_2fa [OF tf w1(1) tv pv1(2,1) refl that m(1)]])
      (use cs in auto)
  then show "act c (if \<not> slotValid (yc_Slot (ym_cfg m)) then throw [ErrMalformed]
      else if ym_password m = None then enrollYubiOnly X m ctx dek else enroll2FA X m ctx dek) w1 ?E ?Ok"
    using m by (auto intro: act_throw w1)
qed (simp add: password_enrollErr_def)

lemma yubikey_unlock_one:
  assumes w: "wfw w" and valid: "yubikey_valid c m w"
  shows "act c (YubiKeyMethod_Unlock X m ctx s) w (\<lambda>_. True)
    (\<lambda>p w' K D. \<exists>i v. p = Some i \<and> K = {(i, v)} \<and> D = {})"
proof -
  from valid obtain tvalid ans TE where t: "transport_contract (ym_transport m) tvalid c ans TE"
    and "tvalid w" "validPtr w (ym_password m)" by (auto simp: yubikey_valid_def)
  then show ?thesis by (intro act_conseq [OF yubikey_unlock_factors [OF t w]]) auto
qed

interpretation yubikey: method_contract "yubikey_method X m" "yubikey_valid c m" c for X m c
proof unfold_locales
  fix w dek ctx assume "wfw w" "yubikey_valid c m w" "validPtr w dek"
  then show "act c (m_Enroll (yubikey_method X m) ctx dek) w (\<lambda>_. True)
      (\<lambda>s w' K D. K = {} \<and> D = {} \<and> sType s = m_Type (yubikey_method X m) \<and> complete s)"
    unfolding yubikey_method_def meth.simps by (rule yubikey_enroll_complete)
next
  fix w ctx s assume "wfw w" "yubikey_valid c m w"
  then show "act c (m_Unlock (yubikey_method X m) ctx s) w (\<lambda>_. True)
      (\<lambda>p w' K D. \<exists>i v. p = Some i \<and> K = {(i, v)} \<and> D = {})"
    unfolding yubikey_method_def meth.simps by (rule yubikey_unlock_one)
qed (rule yubikey_valid_leaves)

section \<open>Properties\<close>

text \<open>The fixtures: password and fake key, slot 2.\<close>

definition demoYubiKey :: YubiKeyMethod where
  "demoYubiKey = NewYubiKeyMethod (fake_transport demoX 0)
     \<lparr>yc_Slot = 2, yc_KDF = Some (builtin_kdf demoX demoKDF)\<rparr> (Some 0) [WithTouchAnnounce True]"

lemma demoYubiKey_simps [simp]:
  "ym_transport demoYubiKey = fake_transport demoX 0" "ym_password demoYubiKey = Some 0"
  "ym_cfg demoYubiKey = \<lparr>yc_Slot = 2, yc_KDF = Some (builtin_kdf demoX demoKDF)\<rparr>"
  "length (ym_label demoYubiKey) \<le> maxLabelLen"
  by (simp_all add: demoYubiKey_def NewYubiKeyMethod_def applyOptions_def ascii_def Let_def
      WithTouchAnnounce_def)

lemma demoYubiKey_fake:
  "transport_contract (ym_transport demoYubiKey) (fake_valid 0 demoFake) False (fake_answer demoFake)
     (fake_errors demoX demoFake)"
  unfolding demoYubiKey_simps by (rule fake.transport_contract_axioms)

text \<open>
  Enrolling both factors over any transport and KDF that keep their contracts: the data key is
  sealed under the stretched password together with the key's response to a challenge derived from
  that stretched password, and the challenge is not stored in the slot. Enrolling fails only by a fault outside,
  an error of the transport for that slot, an invalid slot number, fields that do not fit, a KDF
  that refuses or a destroyed container.
\<close>

lemma YubiKeyMethod_Enroll_2fa:
  assumes "transport_contract (ym_transport m) tvalid c ans TE" and "kdf_contract K stretch E"
    and "wfw w" and "tvalid w" and "validPtr w (ym_password m)" and "validPtr w dek"
    and "yc_KDF (ym_cfg m) = Some K" and "ym_password m \<noteq> None"
  shows "case YubiKeyMethod_Enroll X m ctx dek w of
      (Inl e, w') \<Rightarrow> password_enrollErr (faults X \<union> E \<union> TE (yc_Slot (ym_cfg m))) K stretch (ym_label m)
           (contents w (ym_password m)) (contents w dek) e \<or>
         e = [ErrMalformed] \<and> \<not> slotValid (yc_Slot (ym_cfg m))
    | (Inr s, w') \<Rightarrow> sChallenge s = [] \<and> leaves w w' {} {} \<and>
         (\<exists>pw d pk r. contents w (ym_password m) = Inr pw \<and> contents w dek = Inr d \<and>
            stretch pw (sKDFSalt s) = Inr pk \<and> ans (sYKSlot s) (challengeOf pk (sChalSalt s)) r \<and>
            sealedWith X (ikmBytes (Some pk) (Some r) None) d s)"
  using yubikey_enroll_2fa [OF assms(1-8), of X ctx]
  by (fastforce simp: act_def twofa_enrolled_def split: prod.splits sum.splits)

lemma YubiKeyMethod_Enroll_2fa_example:
  "\<exists>s w'. YubiKeyMethod_Enroll demoX demoYubiKey 0 (Some 1) demoW = (Inr s, w') \<and> sChallenge s = []"
  using YubiKeyMethod_Enroll_2fa [OF demoYubiKey_fake builtin.kdf_contract_axioms [of demoX demoKDF]
      demoW_wfw demo_fake_valid, of "Some 1" demoX 0] demo_enrollFits [of "ym_label demoYubiKey" demoX demoKDF]
  by (auto simp: password_enrollErr_def slotValid_def split: prod.splits sum.splits)

text \<open>
  C7. Both factors are needed: whenever unlocking with a YubiKey method succeeds, over any transport
  that keeps its contract, the device answered on the slot's OTP slot, and the key was opened with
  exactly the response to the stored challenge (key alone), or with the stretched password together
  with the response to the challenge derived from it. The only trace is the container returned.
\<close>

theorem YubiKeyMethod_Unlock_factors:
  assumes "transport_contract (ym_transport m) tvalid c ans TE" and "wfw w" and "tvalid w"
    and "validPtr w (ym_password m)"
  shows "case YubiKeyMethod_Unlock X m ctx s w of
      (Inl e, w') \<Rightarrow> yubikey_unlockErr X TE ans m (contents w (ym_password m)) s e
    | (Inr p, w') \<Rightarrow> slotValid (sYKSlot s) \<and> (\<exists>i d ikm. p = Some i \<and> leaves w w' {(i, d)} {} \<and>
        factorIKM X ans m (contents w (ym_password m)) s ikm \<and> unwrapSpec X (Inr ikm) s = Inr d)"
  using yubikey_unlock_factors [OF assms, of X ctx s]
  by (fastforce simp: act_def split: prod.splits sum.splits)

theorem YubiKeyMethod_Unlock_factors_witness:
  "\<exists>e w'. YubiKeyMethod_Unlock demoX demoYubiKey 0 goldenPassword demoW = (Inl e, w') \<and>
     yubikey_unlockErr demoX (fake_errors demoX demoFake) (fake_answer demoFake) demoYubiKey
       (Inr demoPassword) goldenPassword e"
proof -
  have "\<not> slotValid (sYKSlot goldenPassword)" by (simp add: slotValid_def goldenPassword_def)
  with YubiKeyMethod_Unlock_factors [OF demoYubiKey_fake demoW_wfw demo_fake_valid,
      where X = demoX and ctx = 0 and s = goldenPassword]
  show ?thesis by (auto split: prod.splits sum.splits)
qed

definition oneAnswer :: "(u8 \<Rightarrow> bytes \<Rightarrow> bytes \<Rightarrow> bool) \<Rightarrow> bool" where
  "oneAnswer ans \<longleftrightarrow> (\<forall>sl ch r r'. ans sl ch r \<longrightarrow> ans sl ch r' \<longrightarrow> r = r')"



end
