(* ===== verification/Unlocking.thy ===== *)
theory Unlocking
  imports Envelope Password Recovery Yubikey
begin

text \<open>
  What \<open>Unlock\<close> does: its two loops are one loop over the matching pairs of slot and method, slot
  by slot; it returns the key of the first pair that opens, goes on after \<open>ErrAuthFailed\<close> only, and
  leaves nothing in memory but the key it returns. With the password and recovery methods this
  gives the data key back after \<open>NewEnvelope\<close>.
\<close>

section \<open>One loop\<close>

definition matching :: "slot list \<Rightarrow> meth list \<Rightarrow> (slot \<times> meth) list" where
  "matching ss ms = concat (map (\<lambda>s. map (Pair s) (filter (\<lambda>m. m_Type m = sType s) ms)) ss)"

fun tryPairs :: "environ \<Rightarrow> nat \<Rightarrow> (slot \<times> meth) list \<Rightarrow> sbptr io" where
  "tryPairs X ctx [] = throw [ErrAuthFailed]"
| "tryPairs X ctx ((s, m) # ps) =
     bind (ctxCheck X ctx) (\<lambda>_.
     bind (attempt (m_Unlock m ctx s)) (\<lambda>r.
     case r of
       Inr dek \<Rightarrow> ret dek
     | Inl e \<Rightarrow> if \<not> errorsIs e ErrAuthFailed then throw e else tryPairs X ctx ps))"

lemma tryMethods_pairs:
  "bind (tryMethods X ctx s ms) (\<lambda>r. case r of Some dek \<Rightarrow> ret dek | None \<Rightarrow> tryPairs X ctx ps) =
   tryPairs X ctx (map (Pair s) (filter (\<lambda>m. m_Type m = sType s) ms) @ ps)"
proof (induction ms)
  case (Cons m ms)
  have "bind (case r of Inr dek \<Rightarrow> ret (Some dek)
        | Inl e \<Rightarrow> if \<not> errorsIs e ErrAuthFailed then throw e else tryMethods X ctx s ms)
      (\<lambda>r. case r of Some dek \<Rightarrow> ret dek | None \<Rightarrow> tryPairs X ctx ps) =
    (case r of Inr dek \<Rightarrow> ret dek
        | Inl e \<Rightarrow> if \<not> errorsIs e ErrAuthFailed then throw e
            else tryPairs X ctx (map (Pair s) (filter (\<lambda>m. m_Type m = sType s) ms) @ ps))" for r
    using Cons by (cases r) simp_all
  with Cons show ?case by (simp add: bind_assoc del: errorsIs_iff)
qed simp

lemma trySlots_pairs: "trySlots X ctx ms ss = tryPairs X ctx (matching ss ms)"
  by (induction ss) (simp_all add: matching_def tryMethods_pairs)

lemma Unlock_pairs:
  "Unlock X e ctx ms = (if ms = [] then throw [ErrNoMethods] else tryPairs X ctx (matching (eslots e) ms))"
  by (simp add: Unlock_def trySlots_pairs)

section \<open>The first that opens\<close>

text \<open>
  A method whose unlocking gives a known result for each slot, as far as the outside does not
  fail with an error of \<open>E\<close>.
\<close>

locale functional_method = method_contract M valid True
  for M :: meth and valid :: "world \<Rightarrow> bool" +
  fixes out :: "slot \<Rightarrow> gerror + bytes" and E :: "gerror set"
  assumes unlock_out: "wfw w \<Longrightarrow> valid w \<Longrightarrow> computes True E (m_Unlock M ctx s) (out s) w"

definition methods_give :: "gerror set \<Rightarrow> (meth \<Rightarrow> slot \<Rightarrow> gerror + bytes) \<Rightarrow> meth list \<Rightarrow> world \<Rightarrow> bool" where
  "methods_give E out ms w \<longleftrightarrow> (\<forall>m \<in> set ms. \<exists>V. functional_method m V (out m) E \<and> V w)"

lemma methods_give_leaves: "wfw w \<Longrightarrow> methods_give E out ms w \<Longrightarrow> leaves w w' K D \<Longrightarrow> methods_give E out ms w'"
  unfolding methods_give_def by (meson functional_method.axioms(1) method_contract.stable)

fun firstOpen :: "(gerror + bytes) list \<Rightarrow> gerror + bytes" where
  "firstOpen [] = Inl [ErrAuthFailed]"
| "firstOpen (Inr v # rs) = Inr v"
| "firstOpen (Inl e # rs) = (if ErrAuthFailed \<in> set e \<and> GoPanic \<notin> set e then firstOpen rs else Inl e)"

lemma tryPairs_computes:
  assumes "wfw w" and "methods_give E out ms w" and "\<forall>(s, m) \<in> set ps. m \<in> set ms"
    and E: "faults X \<subseteq> E" "\<forall>e \<in> E. ErrAuthFailed \<notin> set e"
  shows "computes True E (tryPairs X ctx ps) (firstOpen (map (\<lambda>(s, m). out m s) ps)) w"
  using assms(1-3)
proof (induction ps arbitrary: w)
  case Nil
  then show ?case by (simp add: computes_throw)
next
  case (Cons p ps)
  obtain s m where p: "p = (s, m)" by fastforce
  show ?case
    unfolding p tryPairs.simps
  proof (rule computes_ctxCheck [OF Cons.prems(1) E(1)])
    fix w1 assume w1: "wfw w1" "leaves w w1 {} {}"
    note g1 = methods_give_leaves [OF Cons.prems(1,2) w1(2)]
    from g1 Cons.prems(3) p obtain V where fm: "functional_method m V (out m) E" and V: "V w1"
      by (auto simp: methods_give_def)
    let ?k = "\<lambda>r. case r of Inr dek \<Rightarrow> ret dek
      | Inl e \<Rightarrow> if \<not> errorsIs e ErrAuthFailed then throw e else tryPairs X ctx ps"
    note u = functional_method.unlock_out [OF fm w1(1) V, of ctx s]
    obtain r w2 where r: "m_Unlock m ctx s w1 = (r, w2)" by fastforce
    show "computes True E (bind (attempt (m_Unlock m ctx s)) ?k)
        (firstOpen (map (\<lambda>(s, m). out m s) ((s, m) # ps))) w1"
    proof (cases r)
      case (Inr q)
      with computes_okD [OF u] r obtain i v where "q = Some i" "out m s = Inr v" "leaves w1 w2 {(i, v)} {}"
        by blast
      with r Inr show ?thesis unfolding computes_def
        by (intro act_okI [where w' = w2 and x = q]) (auto simp: bind_def attempt_def ret_def)
    next
      case (Inl e)
      with computes_errD [OF u] r have e: "e \<in> E \<or> out m s = Inl e" and l2: "leaves w1 w2 {} {}" by auto
      show ?thesis
      proof (cases "ErrAuthFailed \<in> set e \<and> GoPanic \<notin> set e")
        case True
        with e E(2) have o: "out m s = Inl e" by blast
        have "bind (attempt (m_Unlock m ctx s)) ?k w1 = tryPairs X ctx ps w2"
          using r Inl True by (simp add: bind_def attempt_def)
        moreover have "computes True E (tryPairs X ctx ps) (firstOpen (map (\<lambda>(s, m). out m s) ps)) w2"
          by (rule Cons.IH [OF leaves_wf [OF l2] methods_give_leaves [OF w1(1) g1 l2]]) (use Cons.prems(3) in auto)
        ultimately show ?thesis
          using o True leaves_clean_trans [OF w1(1) l2]
          unfolding computes_def act_def by (auto split: prod.splits sum.splits)
      next
        case False
        then have run: "bind (attempt (m_Unlock m ctx s)) ?k w1 = (Inl e, w2)"
          using r Inl by (auto simp: bind_def attempt_def throw_def)
        show ?thesis unfolding computes_def
          by (rule act_errI [of "bind (attempt (m_Unlock m ctx s)) ?k", OF run _ l2]) (use e False in auto)
      qed
    qed
  qed
qed

lemma Unlock_computes:
  assumes "wfw w" and "methods_give E out ms w" and "ms \<noteq> []"
    and E: "faults X \<subseteq> E" "\<forall>e \<in> E. ErrAuthFailed \<notin> set e"
  shows "computes True E (Unlock X e ctx ms)
    (firstOpen (map (\<lambda>(s, m). out m s) (matching (eslots e) ms))) w"
  using tryPairs_computes [OF assms(1,2) _ E, of "matching (eslots e) ms" ctx] assms(3)
  by (auto simp: Unlock_pairs matching_def)

text \<open>
  Without a known result: at most one container is left, none on failure, and no secret bytes either
  when the methods leave none.
\<close>

lemma tryPairs_clean:
  assumes "wfw w" and "methods_ok c ms w" and "\<forall>(s, m) \<in> set ps. m \<in> set ms"
  shows "act c (tryPairs X ctx ps) w (\<lambda>_. True)
    (\<lambda>p w' K D. \<exists>i v. p = Some i \<and> K = {(i, v)} \<and> (c \<longrightarrow> D = {}))"
  using assms
proof (induction ps arbitrary: w)
  case Nil
  then show ?case by (simp add: act_throw)
next
  case (Cons p ps)
  obtain s m where p: "p = (s, m)" by fastforce
  let ?Ok = "\<lambda>p w' K D. \<exists>i v. p = Some i \<and> K = {(i, v)} \<and> (c \<longrightarrow> D = {})"
  show ?case
    unfolding p tryPairs.simps
  proof (rule act_bind [OF Cons.prems(1) act_ctxCheck [OF Cons.prems(1)]])
    fix w1 assume w1: "wfw w1" "leaves w w1 {} {}"
    note g1 = methods_ok_leaves [OF Cons.prems(1,2) w1(2)]
    from g1 Cons.prems(3) p obtain V where fm: "method_contract m V c" and V: "V w1"
      by (auto simp: methods_ok_def)
    let ?k = "\<lambda>r. case r of Inr dek \<Rightarrow> ret dek
      | Inl e \<Rightarrow> if \<not> errorsIs e ErrAuthFailed then throw e else tryPairs X ctx ps"
    note u = method_contract.unlock [OF fm w1(1) V, of ctx s]
    obtain r w2 where r: "m_Unlock m ctx s w1 = (r, w2)" by fastforce
    show "act c (bind (attempt (m_Unlock m ctx s)) ?k) w1 (\<lambda>_. True) ?Ok"
    proof (cases r)
      case (Inr q)
      with act_okD [OF u] r obtain i v where q: "q = Some i" "leaves w1 w2 {(i, v)} {}" by blast
      have "bind (attempt (m_Unlock m ctx s)) ?k w1 = (Inr q, w2)"
        using r Inr by (simp add: bind_def attempt_def ret_def)
      then show ?thesis by (rule act_okI [where D = "{}"]) (use q in auto)
    next
      case (Inl e)
      with u r obtain D where l2: "leaves w1 w2 {} D" "c \<longrightarrow> D = {}" by (auto simp: act_def)
      show ?thesis
      proof (cases "ErrAuthFailed \<in> set e \<and> GoPanic \<notin> set e")
        case True
        have "bind (attempt (m_Unlock m ctx s)) ?k w1 = tryPairs X ctx ps w2"
          using r Inl True by (simp add: bind_def attempt_def)
        moreover have "act c (tryPairs X ctx ps) w2 (\<lambda>_. True) ?Ok"
          by (rule Cons.IH [OF leaves_wf [OF l2(1)] methods_ok_leaves [OF w1(1) g1 l2(1)]]) (use Cons.prems(3) in auto)
        ultimately show ?thesis
          using act_after [OF w1(1) l2(1), of c "tryPairs X ctx ps"] l2(2) by (simp add: act_def)
      next
        case False
        then have run: "bind (attempt (m_Unlock m ctx s)) ?k w1 = (Inl e, w2)"
          using r Inl by (auto simp: bind_def attempt_def throw_def)
        show ?thesis
          by (rule act_errI [of "bind (attempt (m_Unlock m ctx s)) ?k", OF run _ l2(1)]) (use l2(2) in auto)
      qed
    qed
  qed simp
qed

lemma Unlock_clean:
  assumes "wfw w" and "methods_ok c ms w"
  shows "act c (Unlock X e ctx ms) w (\<lambda>_. True)
    (\<lambda>p w' K D. \<exists>i v. p = Some i \<and> K = {(i, v)} \<and> (c \<longrightarrow> D = {}))"
  using tryPairs_clean [OF assms, of "matching (eslots e) ms"] assms(1)
  by (auto simp: Unlock_pairs matching_def intro: act_throw)

section \<open>Methods that hold a known secret\<close>

definition passwordOut :: "environ \<Rightarrow> bytes \<Rightarrow> slot \<Rightarrow> gerror + bytes" where
  "passwordOut X pw s =
     (case slotPasswordKey X (Inr pw) s of Inl e \<Rightarrow> Inl e
      | Inr pk \<Rightarrow> unwrapSpec X (Inr (ikmBytes (Some pk) None None)) s)"

definition recoveryOut :: "environ \<Rightarrow> bytes \<Rightarrow> slot \<Rightarrow> gerror + bytes" where
  "recoveryOut X code s = unwrapSpec X (Inr (ikmBytes None None (Some code))) s"

interpretation password_known: functional_method "password_method X m"
    "\<lambda>w. password_valid m w \<and> contents w (pm_password m) = Inr pw" "passwordOut X pw" "faults X"
  for X m pw
proof unfold_locales
  fix w w' K D
  assume "wfw w" and "password_valid m w \<and> contents w (pm_password m) = Inr pw" and "leaves w w' K D"
  then show "password_valid m w' \<and> contents w' (pm_password m) = Inr pw"
    using contents_leaves password.stable by blast
next
  fix w dek ctx
  assume "wfw w" "password_valid m w \<and> contents w (pm_password m) = Inr pw" "validPtr w dek"
  then show "act True (m_Enroll (password_method X m) ctx dek) w (\<lambda>_. True)
      (\<lambda>s w' K D. K = {} \<and> D = {} \<and> sType s = m_Type (password_method X m) \<and> complete s)"
    by (intro password.enroll) auto
next
  fix w ctx s assume "wfw w" "password_valid m w \<and> contents w (pm_password m) = Inr pw"
  then show "act True (m_Unlock (password_method X m) ctx s) w (\<lambda>_. True)
      (\<lambda>p w' K D. \<exists>i v. p = Some i \<and> K = {(i, v)} \<and> D = {})"
    by (intro password.unlock) auto
next
  fix w ctx s assume w: "wfw w" and v: "password_valid m w \<and> contents w (pm_password m) = Inr pw"
  then show "computes True (faults X) (m_Unlock (password_method X m) ctx s) (passwordOut X pw s) w"
    using PasswordMethod_Unlock_computes [OF w, of m X ctx s]
    by (simp add: password_method_def passwordSpec_def passwordOut_def password_valid_def)
qed

interpretation recovery_known: functional_method "recovery_method X m"
    "\<lambda>w. contents w (rm_code m) = Inr code" "recoveryOut X code" "faults X"
  for X m code
proof unfold_locales
  fix w w' K D
  assume "wfw w" and "contents w (rm_code m) = Inr code" and "leaves w w' K D"
  then show "contents w' (rm_code m) = Inr code" using contents_leaves by blast
next
  fix w dek ctx
  assume "wfw w" "contents w (rm_code m) = Inr code" "validPtr w dek"
  then show "act True (m_Enroll (recovery_method X m) ctx dek) w (\<lambda>_. True)
      (\<lambda>s w' K D. K = {} \<and> D = {} \<and> sType s = m_Type (recovery_method X m) \<and> complete s)"
    by (intro recovery.enroll) (auto intro: contents_valid)
next
  fix w ctx s assume "wfw w" "contents w (rm_code m) = Inr code"
  then show "act True (m_Unlock (recovery_method X m) ctx s) w (\<lambda>_. True)
      (\<lambda>p w' K D. \<exists>i v. p = Some i \<and> K = {(i, v)} \<and> D = {})"
    by (intro recovery.unlock) (auto intro: contents_valid)
next
  fix w ctx s assume w: "wfw w" and c: "contents w (rm_code m) = Inr code"
  then obtain i where i: "rm_code m = Some i" by (cases "rm_code m") auto
  show "computes True (faults X) (m_Unlock (recovery_method X m) ctx s) (recoveryOut X code s) w"
    using RecoveryCodeMethod_Unlock_computes [OF w contents_valid [OF c], of X ctx s]
      ikmSpec_recovery [of w i code] c i
    by (simp add: recovery_method_def recoverySpec_def recoveryOut_def)
qed

section \<open>From enrolment to unlocking\<close>

text \<open>The tag adds 16 bytes.\<close>

definition aead_length :: "environ \<Rightarrow> bool" where
  "aead_length X \<longleftrightarrow> (\<forall>k n p a. length (x_seal X k n p a) = length p + 16)"

lemma sealed_slotOk:
  assumes "aead_length X" and "sealedWith X ikm d s" and "length d \<le> maxDEKLen"
    and "validateSlotShape s = Inr ()"
  shows "slotOk s"
  using assms by (auto simp: slotOk_def sealedWith_def aead_length_def marshalMeta_Inr_iff)

lemma password_enrolled_shape:
  assumes "kdf_bounded k" and "password_enrolled X (builtin_kdf X k) stretch lbl pw d s"
  shows "validateSlotShape s = Inr ()"
  using assms
  by (cases k) (auto simp: validateSlotShape_def password_enrolled_def builtin_kdf_def
      parseKDF_MarshalParams [of "KArgon2id _", simplified] parseKDF_MarshalParams [of "KScrypt _", simplified])

lemma recovery_enrolled_shape: "recovery_enrolled X lbl code d s \<Longrightarrow> validateSlotShape s = Inr ()"
  by (auto simp: validateSlotShape_def recovery_enrolled_def parseKDF_def)

text \<open>
  A new envelope with one password slot: what it is, and everything creating it can fail with.
\<close>

lemma password_NewEnvelope_act:
  assumes w: "wfw w" and k: "pm_kdf m = Some (builtin_kdf X k)"
    and pw: "contents w (pm_password m) = Inr pw" and d: "contents w dek = Inr d"
  shows "act True (NewEnvelope X ctx dek PolicyPasswordOnly [password_method X m]) w
    (\<lambda>e. password_enrollErr (faults X) (builtin_kdf X k) (kdf_stretch X k) (pm_label m) (Inr pw) (Inr d) e \<or>
       e = [ErrDEKSize] \<and> \<not> (1 \<le> length d \<and> length d \<le> maxDEKLen))
    (\<lambda>e w' K D. K = {} \<and> D = {} \<and> eversion e = FormatVersion \<and> epolicyHint e = PolicyPasswordOnly \<and>
       1 \<le> length d \<and> length d \<le> maxDEKLen \<and>
       (\<exists>s. eslots e = [s] \<and> password_enrolled X (builtin_kdf X k) (kdf_stretch X k) (pm_label m) pw d s))"
  (is "act _ ?f _ ?E ?Ok")
proof -
  let ?R = "\<lambda>m' s. password_enrolled X (builtin_kdf X k) (kdf_stretch X k) (pm_label m) pw d s"
  let ?P = "password_enrollErr (faults X) (builtin_kdf X k) (kdf_stretch X k) (pm_label m) (Inr pw) (Inr d)"
  have "act True ?f w (\<lambda>e. ?P e \<or> newErr w dek PolicyPasswordOnly [password_method X m] ?R e)
      (\<lambda>e w' K D. K = {} \<and> D = {} \<and> newOk w dek PolicyPasswordOnly [password_method X m] ?R e)"
  proof (rule NewEnvelope_act [OF w])
    fix m' v assume m': "m' \<in> set [password_method X m]" and v: "wfw v" "leaves w v {} {}"
    have c: "contents v (pm_password m) = Inr pw" "contents v dek = Inr d"
      using contents_leaves [OF w v(2)] pw d by auto
    then show "act True (m_Enroll m' ctx dek) v ?P (\<lambda>s w' K D. K = {} \<and> D = {} \<and> ?R m s)"
      using m' by (auto simp: password_method_def
          intro!: act_conseq [OF builtin.password_enroll [OF v(1) _ _ k]] contents_valid)
  qed (simp add: password_enrollErr_def)
  then show ?thesis
    by (rule act_conseq)
      (use d in \<open>auto simp: newOk_def newErr_def list_all2_Cons1 Policy_valid_def EffectivePolicy_def
        policyForMethod_def password_enrolled_def Let_def contents_def\<close>)
qed

lemma password_NewEnvelope:
  assumes w: "wfw w" and k: "pm_kdf m = Some (builtin_kdf X k)"
    and pw: "contents w (pm_password m) = Inr pw" and d: "contents w dek = Inr d"
    and run: "NewEnvelope X ctx dek PolicyPasswordOnly [password_method X m] w = (Inr e, w')"
  shows "leaves w w' {} {} \<and> eversion e = FormatVersion \<and> 1 \<le> length d \<and> length d \<le> maxDEKLen \<and>
    (\<exists>s. eslots e = [s] \<and> password_enrolled X (builtin_kdf X k) (kdf_stretch X k) (pm_label m) pw d s)"
  using act_okD [OF password_NewEnvelope_act [OF assms(1-4)] run] by auto

text \<open>
  Nothing outside failing, with a label and parameters that fit and a KDF that accepts its
  parameters, creating succeeds.
\<close>

lemma password_NewEnvelope_live:
  assumes w: "wfw w" and k: "pm_kdf m = Some (builtin_kdf X k)" and "kdf_bounded k"
    and pw: "contents w (pm_password m) = Inr pw" and d: "contents w dek = Inr d"
    and "faults X = {}" and "\<And>salt. length salt = 16 \<Longrightarrow> \<exists>pk. kdf_stretch X k pw salt = Inr pk"
    and "length (pm_label m) \<le> maxLabelLen" and "1 \<le> length d" and "length d \<le> maxDEKLen"
  shows "\<exists>e w'. NewEnvelope X ctx dek PolicyPasswordOnly [password_method X m] w = (Inr e, w')"
proof -
  obtain r w' where r: "NewEnvelope X ctx dek PolicyPasswordOnly [password_method X m] w = (r, w')"
    by fastforce
  show ?thesis
  proof (cases r)
    case (Inl e)
    have "enrollFits (builtin_kdf X k) (pm_label m)"
      using assms(3,8) by (cases k) (auto simp: enrollFits_def builtin_kdf_def kdf_SaltLen_eq)
    with act_errD [OF password_NewEnvelope_act [OF w k pw d] r [unfolded Inl]] assms show ?thesis
      by (fastforce simp: password_enrollErr_def builtin_kdf_def kdf_SaltLen_eq)
  qed (use r in auto)
qed

text \<open>Reading back what an enrolled slot seals.\<close>

lemma passwordOut_enrolled:
  assumes "aead_correct X" and "kdf_bounded k"
    and "password_enrolled X (builtin_kdf X k) (kdf_stretch X k) lbl pw d s"
  shows "passwordOut X pw s = Inr d"
proof -
  have p: "parseKDF (kdf_ID k) (kdf_MarshalParams k) = Inr (Some k)"
    using assms(2) by (simp add: parseKDF_MarshalParams)
  show ?thesis
    using assms(3) unwrapSpec_sealed [OF assms(1)]
    by (auto simp: passwordOut_def slotPasswordKey_def password_enrolled_def builtin_kdf_def p)
qed

lemma recoveryOut_enrolled:
  "aead_correct X \<Longrightarrow> recovery_enrolled X lbl code d s \<Longrightarrow> recoveryOut X code s = Inr d"
  by (auto simp: recoveryOut_def recovery_enrolled_def intro: unwrapSpec_sealed)

lemma faults_no_auth: "\<forall>e \<in> faults X. ErrAuthFailed \<notin> set e"
  using faults_External by fastforce

text \<open>A method that holds a known secret opens an envelope with one slot of its type.\<close>

lemma Unlock_single:
  assumes w: "wfw w" and m: "functional_method m V out (faults X)" "V w"
    and s: "filter (\<lambda>s. sType s = m_Type m) (eslots e) = [s]"
  shows "computes True (faults X) (Unlock X e ctx [m]) (firstOpen [out s]) w"
proof -
  have "matching ss [m] = map (\<lambda>s. (s, m)) (filter (\<lambda>s. sType s = m_Type m) ss)" for ss
    by (induction ss) (auto simp: matching_def)
  moreover have "methods_give (faults X) (\<lambda>_. out) [m] w" using m by (auto simp: methods_give_def)
  ultimately show ?thesis
    using Unlock_computes [OF w, of "faults X" "\<lambda>_. out" "[m]" X e ctx] faults_no_auth s by simp
qed

text \<open>
  The password round trip, in memory and through the file: the new envelope marshals, the bytes
  parse back to it, and unlocking with the same password in any later world gives the data key
  (or an error from outside).
\<close>

lemma password_roundtrip_unlock:
  assumes "aead_correct X" and "kdf_bounded k"
    and w: "wfw w" "pm_kdf m = Some (builtin_kdf X k)" "contents w (pm_password m) = Inr pw"
      "contents w dek = Inr d"
      "NewEnvelope X ctx dek PolicyPasswordOnly [password_method X m] w = (Inr e, w')"
    and u: "wfw u" "password_valid m' u" "contents u (pm_password m') = Inr pw"
  shows "computes True (faults X) (Unlock X e ctx' [password_method X m']) (Inr d) u"
proof -
  obtain s where e: "eslots e = [s]"
    and s: "password_enrolled X (builtin_kdf X k) (kdf_stretch X k) (pm_label m) pw d s"
    using password_NewEnvelope [OF w] by blast
  have "filter (\<lambda>s. sType s = m_Type (password_method X m')) (eslots e) = [s]"
    using e s by (simp add: password_method_def password_enrolled_def)
  from Unlock_single [OF u(1) password_known.functional_method_axioms _ this, of pw ctx'] u
  show ?thesis by (simp add: passwordOut_enrolled [OF assms(1,2) s])
qed

lemma password_roundtrip_wire:
  assumes "aead_length X" and "kdf_bounded k"
    and w: "wfw w" "pm_kdf m = Some (builtin_kdf X k)" "contents w (pm_password m) = Inr pw"
      "contents w dek = Inr d"
      "NewEnvelope X ctx dek PolicyPasswordOnly [password_method X m] w = (Inr e, w')"
  shows "\<exists>b. Marshal e = Inr b \<and> ParseEnvelope b = Inr e"
proof -
  from password_NewEnvelope [OF w] obtain s where v: "eversion e = FormatVersion" "length d \<le> maxDEKLen"
    and e: "eslots e = [s]"
    and s: "password_enrolled X (builtin_kdf X k) (kdf_stretch X k) (pm_label m) pw d s" by blast
  from s obtain ikm where "sealedWith X ikm d s" by (auto simp: password_enrolled_def)
  from sealed_slotOk [OF assms(1) this v(2) password_enrolled_shape [OF assms(2) s]]
  have "envOk e" using v e by (simp add: envOk_def)
  then show ?thesis using Marshal_ok ParseEnvelope_Inr_iff by blast
qed

text \<open>
  The escape hatch: a recovery slot added to any envelope without one opens it with the code
  alone, and the added slot parses back like any other.
\<close>

lemma recovery_AddSlot_act:
  assumes w: "wfw w" and code: "contents w (rm_code m) = Inr code" and d: "contents w dek = Inr d"
  shows "act True (AddSlot X e ctx dek (recovery_method X m)) w
    (\<lambda>x. recovery_enrollErr (faults X) (rm_label m) (Inr code) (Inr d) x \<or>
       x = [ErrDEKSize] \<and> \<not> (1 \<le> length d \<and> length d \<le> maxDEKLen) \<or>
       x = [ErrMalformed] \<and> maxSlotCount \<le> length (eslots e))
    (\<lambda>e' w' K D. K = {} \<and> D = {} \<and> length (eslots e) < maxSlotCount \<and>
       (\<exists>s. e' = e\<lparr>eslots := eslots e @ [s]\<rparr> \<and> recovery_enrolled X (rm_label m) code d s))"
proof -
  let ?P = "recovery_enrollErr (faults X) (rm_label m) (Inr code) (Inr d)"
  have "act True (AddSlot X e ctx dek (recovery_method X m)) w
    (\<lambda>x. ?P x \<or> addErr w dek e (recovery_method X m) x)
    (\<lambda>e' w' K D. K = {} \<and> D = {} \<and> length (eslots e) < maxSlotCount \<and>
       (m_Type (recovery_method X m) = MethodRecovery \<or>
          policyForMethod (m_Type (recovery_method X m)) = EffectivePolicy e) \<and>
       (\<exists>s. recovery_enrolled X (rm_label m) code d s \<and> e' = e\<lparr>eslots := eslots e @ [s]\<rparr>))"
  proof (rule AddSlot_act [OF w])
    fix v assume v: "wfw v" "leaves w v {} {}"
    have c: "contents v (rm_code m) = Inr code" "contents v dek = Inr d"
      using contents_leaves [OF w v(2)] code d by auto
    then show "act True (m_Enroll (recovery_method X m) ctx dek) v ?P
        (\<lambda>s w' K D. K = {} \<and> D = {} \<and> recovery_enrolled X (rm_label m) code d s)"
      by (auto simp: recovery_method_def
          intro!: act_conseq [OF RecoveryCodeMethod_enroll [OF v(1)]] contents_valid)
  qed
  then show ?thesis
    by (rule act_conseq) (use d in \<open>auto simp: addErr_def recovery_method_def contents_def\<close>)
qed

lemma recovery_AddSlot:
  assumes w: "wfw w" and code: "contents w (rm_code m) = Inr code" and d: "contents w dek = Inr d"
    and run: "AddSlot X e ctx dek (recovery_method X m) w = (Inr e', w')"
  shows "leaves w w' {} {} \<and> (\<exists>s. e' = e\<lparr>eslots := eslots e @ [s]\<rparr> \<and> recovery_enrolled X (rm_label m) code d s)"
  using act_okD [OF recovery_AddSlot_act [OF assms(1-3)] run] by auto

lemma recovery_AddSlot_live:
  assumes w: "wfw w" and "contents w (rm_code m) = Inr code" and "contents w dek = Inr d"
    and "faults X = {}" and "length code = RecoveryCodeLen" and "length (rm_label m) \<le> maxLabelLen"
    and "1 \<le> length d" and "length d \<le> maxDEKLen" and "length (eslots e) < maxSlotCount"
  shows "\<exists>e' w'. AddSlot X e ctx dek (recovery_method X m) w = (Inr e', w')"
proof -
  obtain r w' where r: "AddSlot X e ctx dek (recovery_method X m) w = (r, w')" by fastforce
  show ?thesis
  proof (cases r)
    case (Inl x)
    with act_errD [OF recovery_AddSlot_act [OF assms(1-3)] r [unfolded Inl]] assms show ?thesis
      by (auto simp: recovery_enrollErr_def)
  qed (use r in auto)
qed

lemma recovery_escape:
  assumes "aead_correct X" and "wfw w" and "contents w (rm_code m) = Inr code" and "contents w dek = Inr d"
    and "AddSlot X e ctx dek (recovery_method X m) w = (Inr e', w')"
    and none: "\<forall>s \<in> set (eslots e). sType s \<noteq> MethodRecovery"
    and u: "wfw u" "contents u (rm_code m') = Inr code"
  shows "computes True (faults X) (Unlock X e' ctx' [recovery_method X m']) (Inr d) u"
proof -
  from recovery_AddSlot [OF assms(2-5)] obtain s where e': "e' = e\<lparr>eslots := eslots e @ [s]\<rparr>"
    and s: "recovery_enrolled X (rm_label m) code d s" by blast
  have "filter (\<lambda>s. sType s = m_Type (recovery_method X m')) (eslots e') = [s]"
    using e' s none by (simp add: recovery_method_def recovery_enrolled_def)
  from Unlock_single [OF u(1) recovery_known.functional_method_axioms _ this, of code ctx'] u
  show ?thesis by (simp add: recoveryOut_enrolled [OF assms(1) s])
qed

section \<open>Properties\<close>

text \<open>
  C33. The two nested loops of \<open>Unlock\<close> are one search: over the pairs of a slot and a supplied method
  of its type, slots first, in the order of both lists, stopping at the first success and at the
  first error other than \<open>ErrAuthFailed\<close>.
\<close>

theorem Unlock_search:
  "Unlock X e ctx ms =
    (if ms = [] then throw [ErrNoMethods] else tryPairs X ctx (matching (eslots e) ms))"
  by (rule Unlock_pairs)

text \<open>
  C15. What \<open>Unlock\<close> returns, when the outcome of each method on a slot is a function of the slot: the
  key of the first pair that opens, provided every earlier pair failed with \<open>ErrAuthFailed\<close>; the
  first other failure otherwise; and \<open>ErrAuthFailed\<close> alone when all fail or no method matches, which
  does not tell a wrong factor from a tampered slot. Nothing but the returned container is left.
\<close>

theorem Unlock_first_open:
  assumes "wfw w" and "methods_give E out ms w" and "ms \<noteq> []"
    and "faults X \<subseteq> E" and "\<forall>e \<in> E. ErrAuthFailed \<notin> set e"
  shows "case Unlock X e ctx ms w of
      (Inl x, w') \<Rightarrow> (x \<in> E \<or> firstOpen (map (\<lambda>(s, m). out m s) (matching (eslots e) ms)) = Inl x) \<and>
        leaves w w' {} {}
    | (Inr p, w') \<Rightarrow> \<exists>i d. p = Some i \<and> leaves w w' {(i, d)} {} \<and>
        firstOpen (map (\<lambda>(s, m). out m s) (matching (eslots e) ms)) = Inr d"
  using Unlock_computes [OF assms, of e ctx] unfolding computes_run
  by (auto split: prod.splits sum.splits)

lemma demo_methods_give:
  "methods_give (faults demoX) (\<lambda>_. passwordOut demoX demoPassword)
     [password_method demoX demoPasswordMethod] demoW"
proof -
  have "password_valid demoPasswordMethod demoW"
    using builtin.kdf_contract_axioms by (auto simp: password_valid_def)
  with password_known.functional_method_axioms [of demoX demoPasswordMethod demoPassword]
  show ?thesis by (fastforce simp: methods_give_def)
qed

theorem Unlock_first_open_witness:
  "\<exists>w'. Unlock demoX (goldenEnvelope\<lparr>eslots := [goldenRecovery]\<rparr>) 0
     [password_method demoX demoPasswordMethod] demoW = (Inl [ErrAuthFailed], w') \<and> leaves demoW w' {} {}"
proof -
  have "matching [goldenRecovery] [password_method demoX demoPasswordMethod] = []"
    by (simp add: matching_def goldenRecovery_def password_method_def)
  with Unlock_first_open [OF demoW_wfw demo_methods_give, where X = demoX and ctx = 0
      and e = "goldenEnvelope\<lparr>eslots := [goldenRecovery]\<rparr>"]
  show ?thesis by (auto split: prod.splits sum.splits)
qed

text \<open>
  C8. Unlocking is clean with any methods that keep their contract, however many attempts fail on
  the way: on success the only new container is the one returned, on failure there is none, and
  every intermediate key, challenge and response has been wiped.
\<close>

theorem Unlock_leaves_nothing:
  assumes "wfw w" and "methods_ok True ms w"
  shows "case Unlock X e ctx ms w of
      (Inl x, w') \<Rightarrow> leaves w w' {} {}
    | (Inr p, w') \<Rightarrow> \<exists>i d. p = Some i \<and> leaves w w' {(i, d)} {}"
  using Unlock_clean [OF assms, of X e ctx] by (auto simp: act_def split: prod.splits sum.splits)

theorem Unlock_leaves_nothing_witness:
  "case Unlock demoX goldenEnvelope 0 [recovery_method demoX (NewRecoveryMethod (Some 2) [])] demoW of
      (Inl x, w') \<Rightarrow> leaves demoW w' {} {}
    | (Inr p, w') \<Rightarrow> \<exists>i d. p = Some i \<and> leaves demoW w' {(i, d)} {}"
proof (rule Unlock_leaves_nothing [OF demoW_wfw])
  show "methods_ok True [recovery_method demoX (NewRecoveryMethod (Some 2) [])] demoW"
    unfolding methods_ok_def
    using recovery.method_contract_axioms [of demoX "NewRecoveryMethod (Some 2) []"]
    by (auto simp: NewRecoveryMethod_def Let_def)
qed

end
