(* ===== verification/Ykman.thy ===== *)
theory Ykman
  imports Transport
begin

text \<open>
  \<open>transport/ykman.go\<close>: the transport that delegates to the ykman program. A process run is a
  request to the outside (\<open>x_run\<close>) answered by \<open>runResult\<close>; the parsers of its output, the
  classification of its errors and the wiping of its buffers are the code's. \<open>defaultRunner\<close>, which
  starts the process, and the time limits are not modelled. Output is bytes; white space and
  letter case follow \<open>unicode.IsSpace\<close> and \<open>unicode.ToLower\<close> on UTF-8.
\<close>

section \<open>bytes.TrimSpace, bytes.Fields, ToLower, Contains\<close>

text \<open>The encodings of the white-space runes. None is part of the encoding of another rune.\<close>

definition spaceEncodings :: "bytes list" where
  "spaceEncodings =
     map (\<lambda>c. [c]) [9, 10, 11, 12, 13, 32] @
     [[0xC2, 0x85], [0xC2, 0xA0], [0xE1, 0x9A, 0x80]] @
     map (\<lambda>c. [0xE2, 0x80, c]) [0x80, 0x81, 0x82, 0x83, 0x84, 0x85, 0x86, 0x87, 0x88, 0x89, 0x8A, 0xA8, 0xA9, 0xAF] @
     [[0xE2, 0x81, 0x9F], [0xE3, 0x80, 0x80]]"

text \<open>The length of the white-space rune at the start (at the end) of a text, or 0.\<close>

definition spaceAtStart :: "bytes \<Rightarrow> nat" where
  "spaceAtStart s =
     (case find (\<lambda>e. take (length e) s = e) spaceEncodings of None \<Rightarrow> 0 | Some e \<Rightarrow> length e)"

definition spaceAtEnd :: "bytes \<Rightarrow> nat" where
  "spaceAtEnd s =
     (case find (\<lambda>e. length e \<le> length s \<and> drop (length s - length e) s = e) spaceEncodings of
        None \<Rightarrow> 0 | Some e \<Rightarrow> length e)"

function trimLeft :: "bytes \<Rightarrow> bytes" where
  "trimLeft s = (if s = [] \<or> spaceAtStart s = 0 then s else trimLeft (drop (spaceAtStart s) s))"
  by pat_completeness auto
termination by (relation "measure length") auto

function trimRight :: "bytes \<Rightarrow> bytes" where
  "trimRight s =
     (if s = [] \<or> spaceAtEnd s = 0 then s else trimRight (take (length s - spaceAtEnd s) s))"
  by pat_completeness auto
termination by (relation "measure length") auto

declare trimLeft.simps [simp del] trimRight.simps [simp del]

definition TrimSpace :: "bytes \<Rightarrow> bytes" where
  "TrimSpace s = trimRight (trimLeft s)"

text \<open>\<open>Fields\<close>, with the field under way.\<close>

function fieldsFrom :: "bytes \<Rightarrow> bytes \<Rightarrow> bytes list" where
  "fieldsFrom [] cur = (if cur = [] then [] else [cur])"
| "fieldsFrom (c # s) cur =
     (let k = spaceAtStart (c # s) in
      if k > 0 then (if cur = [] then [] else [cur]) @ fieldsFrom (drop k (c # s)) []
      else fieldsFrom s (cur @ [c]))"
  by pat_completeness auto
termination by (relation "measure (\<lambda>p. length (fst p))") auto

declare fieldsFrom.simps(2) [simp del]

definition Fields :: "bytes \<Rightarrow> bytes list" where
  "Fields s = fieldsFrom s []"

definition lowerByte :: "u8 \<Rightarrow> u8" where
  "lowerByte c = (if 65 \<le> c \<and> c \<le> 90 then c + 32 else c)"

text \<open>
  \<open>strings.ToLower\<close> as far as the ASCII letters of the result go: besides A to Z only the Kelvin
  sign and the dotted capital I map to ASCII. \<open>bytes.ToLower\<close> is only applied to ASCII.
\<close>

fun ToLower :: "bytes \<Rightarrow> bytes" where
  "ToLower (a # b # c # s) =
     (if a = 0xE2 \<and> b = 0x84 \<and> c = 0xAA then 107 # ToLower s
      else if a = 0xC4 \<and> b = 0xB0 then 105 # ToLower (c # s)
      else lowerByte a # ToLower (b # c # s))"
| "ToLower [a, b] = (if a = 0xC4 \<and> b = 0xB0 then [105] else [lowerByte a, lowerByte b])"
| "ToLower [a] = [lowerByte a]"
| "ToLower [] = []"

fun Contains :: "bytes \<Rightarrow> bytes \<Rightarrow> bool" where
  "Contains [] needle = (needle = [])"
| "Contains (c # s) needle = (take (length needle) (c # s) = needle \<or> Contains s needle)"

section \<open>The response\<close>

definition hexLower :: "u8 \<Rightarrow> bool" where
  "hexLower c \<longleftrightarrow> (48 \<le> c \<and> c \<le> 57) \<or> (97 \<le> c \<and> c \<le> 102)"

definition hexAny :: "u8 \<Rightarrow> bool" where
  "hexAny c \<longleftrightarrow> (48 \<le> c \<and> c \<le> 57) \<or> (97 \<le> c \<and> c \<le> 102) \<or> (65 \<le> c \<and> c \<le> 70)"

abbreviation (input) responseHexLen :: nat where "responseHexLen \<equiv> 40"

definition isHex40 :: "bytes \<Rightarrow> bool" where
  "isHex40 b \<longleftrightarrow> length b = responseHexLen \<and> (\<forall>c \<in> set b. hexAny c)"

text \<open>The loop over the fields, with the copy found so far.\<close>

fun fieldLoop :: "bytes list \<Rightarrow> addr option \<Rightarrow> addr option io" where
  "fieldLoop [] found = ret found"
| "fieldLoop (tok # toks) found =
     (if \<not> isHex40 tok then fieldLoop toks found
      else if found \<noteq> None then ret None
      else bind (alloc (ToLower tok)) (\<lambda>a. fieldLoop toks (Some a)))"

definition extractResponseHex :: "bytes \<Rightarrow> addr option io" where
  "extractResponseHex stdout =
     (let trimmed = TrimSpace stdout in
      if isHex40 trimmed then bind (alloc (ToLower trimmed)) (\<lambda>a. ret (Some a))
      else fieldLoop (Fields stdout) None)"

definition hexVal :: "u8 \<Rightarrow> u8" where
  "hexVal c = (if c \<le> 57 then c - 48 else c - 87)"

fun hexDecode :: "bytes \<Rightarrow> bytes" where
  "hexDecode (a # b # s) = (push_bit 4 (hexVal a) OR hexVal b) # hexDecode s"
| "hexDecode _ = []"

definition decodeResponse :: "bytes \<Rightarrow> gerror + bytes" where
  "decodeResponse out =
     (if length out \<noteq> responseHexLen then Inl [ErrBadResponse]
      else if \<exists>c \<in> set out. \<not> hexLower c then Inl [ErrBadResponse]
      else Inr (hexDecode out))"

section \<open>Versions\<close>

text \<open>\<open>FieldsFunc\<close> of digits and dots.\<close>

fun versionFields :: "bytes \<Rightarrow> bytes \<Rightarrow> bytes list" where
  "versionFields [] cur = (if cur = [] then [] else [cur])"
| "versionFields (r # s) cur =
     (if (r < 48 \<or> r > 57) \<and> r \<noteq> 46 then (if cur = [] then [] else [cur]) @ versionFields s []
      else versionFields s (cur @ [r]))"

fun splitDot :: "bytes \<Rightarrow> bytes \<Rightarrow> bytes list" where
  "splitDot [] cur = [cur]"
| "splitDot (r # s) cur = (if r = 46 then cur # splitDot s [] else splitDot s (cur @ [r]))"

text \<open>\<open>strconv.Atoi\<close> of a string of digits: empty or beyond a 64-bit \<open>int\<close> is an error.\<close>

definition Atoi :: "bytes \<Rightarrow> nat option" where
  "Atoi s =
     (let n = foldl (\<lambda>n c. 10 * n + unat (c - 48)) 0 s
      in if s = [] \<or> n > 2 ^ 63 - 1 then None else Some n)"

text \<open>The three numbers of a version, \<open>[3]int\<close> in the code, ordered by \<open>versionLess\<close>.\<close>

datatype version = Ver nat nat nat

fun findVersion :: "bytes list \<Rightarrow> version option" where
  "findVersion [] = None"
| "findVersion (f # fs) =
     (case splitDot f [] of
        p0 # p1 # p2 # _ \<Rightarrow>
          (case (Atoi p0, Atoi p1, Atoi p2) of
             (Some a, Some b, Some c) \<Rightarrow> Some (Ver a b c)
           | _ \<Rightarrow> findVersion fs)
      | _ \<Rightarrow> findVersion fs)"

definition parseYkmanVersion :: "bytes \<Rightarrow> gerror + version" where
  "parseYkmanVersion s =
     (case findVersion (versionFields s []) of None \<Rightarrow> Inl [ErrNoVersion] | Some v \<Rightarrow> Inr v)"

fun versionLess :: "version \<Rightarrow> version \<Rightarrow> bool" where
  "versionLess (Ver a0 a1 a2) (Ver b0 b1 b2) =
     (if a0 \<noteq> b0 then a0 < b0 else if a1 \<noteq> b1 then a1 < b1 else if a2 \<noteq> b2 then a2 < b2 else False)"

abbreviation (input) minYkmanVersion :: version where "minYkmanVersion \<equiv> Ver 5 0 0"

instantiation version :: linorder
begin

definition less_version :: "version \<Rightarrow> version \<Rightarrow> bool" where
  "less_version = versionLess"

definition less_eq_version :: "version \<Rightarrow> version \<Rightarrow> bool" where
  "less_eq_version u v \<longleftrightarrow> \<not> versionLess v u"

instance
proof
  fix u v w :: version
  show "u < v \<longleftrightarrow> u \<le> v \<and> \<not> v \<le> u" "u \<le> u" "u \<le> v \<or> v \<le> u"
    by (cases u; cases v; force simp: less_version_def less_eq_version_def)+
  show "u \<le> v \<Longrightarrow> v \<le> w \<Longrightarrow> u \<le> w"
    by (cases u; cases v; cases w) (auto simp: less_eq_version_def split: if_splits)
  show "u \<le> v \<Longrightarrow> v \<le> u \<Longrightarrow> u = v"
    by (cases u; cases v) (auto simp: less_eq_version_def split: if_splits)
qed

end

lemma Ver_le_major: "Ver n 0 0 \<le> Ver a b c \<longleftrightarrow> n \<le> a"
  by (auto simp: less_eq_version_def)

section \<open>The transport\<close>

record ykman =
  yk_path :: string

text \<open>
  Running a command: the process, the pipes that collect its two outputs and the deadline after
  which it is killed are outside; their outcome is one \<open>runResult\<close>. The field \<open>run\<close> of a transport is
  \<open>defaultRunner\<close> in every program; only tests replace it.
\<close>

type_synonym commandRunner = "string \<Rightarrow> string list \<Rightarrow> runResult io"

definition defaultRunner :: "environ \<Rightarrow> commandRunner" where
  "defaultRunner X name args =
     (\<lambda>w. (Inr (x_run X (wlog w) name args), w\<lparr>wlog := EvRun name args # wlog w\<rparr>))"

definition ctxErr :: "environ \<Rightarrow> nat \<Rightarrow> nat option io" where
  "ctxErr X ctx = (\<lambda>w. (Inr (x_ctxErr X ctx (wlog w)), w\<lparr>wlog := EvCtxErr ctx # wlog w\<rparr>))"

definition resolveToolPath :: "environ \<Rightarrow> string \<Rightarrow> string io" where
  "resolveToolPath X path =
     (let path = (if path = [] then ''ykman'' else path) in
      (\<lambda>w. let r = x_lookPath X (wlog w) path; w = w\<lparr>wlog := EvLookPath path # wlog w\<rparr> in
          (case r of Inl n \<Rightarrow> (Inl [ErrToolNotFound, External n], w) | Inr p \<Rightarrow> (Inr p, w))))"

definition checkVersion :: "environ \<Rightarrow> ykman \<Rightarrow> unit io" where
  "checkVersion X t =
     bind (defaultRunner X (yk_path t) [''--version'']) (\<lambda>res.
     case rrErr res of
       Some n \<Rightarrow> throw [ErrToolFailure, External n]
     | None \<Rightarrow>
         (case parseYkmanVersion (rrStdout res) of
            Inl e \<Rightarrow> throw (ErrToolVersion # e)
          | Inr v \<Rightarrow> if versionLess v minYkmanVersion then throw [ErrToolVersion] else ret ()))"

definition NewYkmanTransport :: "environ \<Rightarrow> string \<Rightarrow> ykman io" where
  "NewYkmanTransport X path =
     bind (resolveToolPath X path) (\<lambda>abs.
     let t = \<lparr>yk_path = abs\<rparr> in
     bind (checkVersion X t) (\<lambda>_. ret t))"

definition classifyToolError :: "environ \<Rightarrow> nat \<Rightarrow> runResult \<Rightarrow> gerror io" where
  "classifyToolError X ctx res =
     bind (ctxErr X ctx) (\<lambda>c.
     if c \<noteq> None then
       bind (ctxErr X ctx) (\<lambda>c. ret (ErrTouchTimeout # (case c of None \<Rightarrow> [] | Some n \<Rightarrow> [External n])))
     else if rrExecErr res then
       ret (ErrToolNotFound # (case rrErr res of None \<Rightarrow> [] | Some n \<Rightarrow> [External n]))
     else
       let stderr = ToLower (rrStderr res); has = (\<lambda>s. Contains stderr (ascii s)) in
       ret (if has ''touch'' \<and> has ''timeout'' then [ErrTouchTimeout]
            else if has ''no yubikey'' \<or> has ''failed connecting'' \<or> has ''failed to connect'' then [ErrNoDevice]
            else if has ''not configured'' \<or> has ''not programmed'' \<or> has ''no valid'' then [ErrSlotNotConfigured]
            else [ErrToolFailure]))"

definition hexDigit :: "u8 \<Rightarrow> char" where
  "hexDigit v = ''0123456789abcdef'' ! unat v"

definition hexEncode :: "bytes \<Rightarrow> string" where
  "hexEncode b = concat (map (\<lambda>v. [hexDigit (drop_bit 4 v), hexDigit (v AND 15)]) b)"

definition calculateArgs :: "u8 \<Rightarrow> bytes \<Rightarrow> string list" where
  "calculateArgs slot challenge = [''otp'', ''calculate'', fmt_d (unat slot), hexEncode challenge]"

text \<open>The part of \<open>ChallengeResponse\<close> after a successful run, with the output in \<open>stdout\<close>.\<close>

abbreviation (input) zeroBytes :: "addr \<Rightarrow> unit io" where
  "zeroBytes b \<equiv> zero b"

definition takeResponse :: "environ \<Rightarrow> addr \<Rightarrow> bytes \<Rightarrow> sbptr io" where
  "takeResponse X stdout output =
     deferring (zeroBytes stdout) (
       bind (extractResponseHex output) (\<lambda>found.
       case found of
         None \<Rightarrow> throw [ErrBadResponse]
       | Some out \<Rightarrow>
           deferring (zeroBytes out) (
             bind (load out) (\<lambda>o'.
             bind (lift (decodeResponse o')) (\<lambda>r.
             bind (alloc r) (\<lambda>resp.
             deferring (zeroBytes resp) (sb_New X resp)))))))"

definition Ykman_ChallengeResponse :: "environ \<Rightarrow> ykman \<Rightarrow> nat \<Rightarrow> u8 \<Rightarrow> bytes \<Rightarrow> sbptr io" where
  "Ykman_ChallengeResponse X t ctx slot challenge =
     (if \<not> otpSlotValid slot then throw [ErrSlotNotConfigured]
      else
        bind (ctxCheck X ctx) (\<lambda>_.
        bind (defaultRunner X (yk_path t) (calculateArgs slot challenge)) (\<lambda>res.
        bind (alloc (rrStdout res)) (\<lambda>stdout.
        if rrErr res \<noteq> None then bind (classifyToolError X ctx res) throw
        else takeResponse X stdout (rrStdout res)))))"

definition Ykman_Serial :: "environ \<Rightarrow> ykman \<Rightarrow> nat \<Rightarrow> bytes io" where
  "Ykman_Serial X t ctx =
     bind (defaultRunner X (yk_path t) [''list'', ''--serials'']) (\<lambda>res.
     if rrErr res \<noteq> None then bind (classifyToolError X ctx res) throw
     else
       let s = TrimSpace (rrStdout res) in
       if s = [] then throw [ErrNoDevice]
       else ret (TrimSpace (takeWhile (\<lambda>c. c \<noteq> 10) s)))"

definition Ykman_Present :: "environ \<Rightarrow> ykman \<Rightarrow> nat \<Rightarrow> bool io" where
  "Ykman_Present X t ctx =
     (\<lambda>w. case Ykman_Serial X t ctx w of (Inr s, w) \<Rightarrow> (Inr (s \<noteq> []), w) | (Inl e, w) \<Rightarrow> (Inr False, w))"

definition ykman_transport :: "environ \<Rightarrow> ykman \<Rightarrow> transport" where
  "ykman_transport X t =
     \<lparr>t_ChallengeResponse = Ykman_ChallengeResponse X t, t_Serial = Ykman_Serial X t,
      t_Present = Ykman_Present X t\<rparr>"

section \<open>What is taken from the output\<close>

text \<open>
  The response in the output: the whole of it, or its only token of 40 hexadecimal digits.
\<close>

definition responseHex :: "bytes \<Rightarrow> bytes option" where
  "responseHex stdout =
     (if isHex40 (TrimSpace stdout) then Some (ToLower (TrimSpace stdout))
      else case filter isHex40 (Fields stdout) of [tok] \<Rightarrow> Some (ToLower tok) | _ \<Rightarrow> None)"

text \<open>The copies the search leaves in memory; the last one is the response, if there is one.\<close>

definition responseCopies :: "bytes \<Rightarrow> bytes list" where
  "responseCopies stdout =
     (if isHex40 (TrimSpace stdout) then [ToLower (TrimSpace stdout)]
      else case filter isHex40 (Fields stdout) of [] \<Rightarrow> [] | tok # _ \<Rightarrow> [ToLower tok])"

lemma bind_alloc: "bind (alloc b) f w = f (length (wmem w)) (w\<lparr>wmem := wmem w @ [b]\<rparr>)"
  by (simp add: bind_def alloc_def)

lemma bind_run:
  "bind (defaultRunner X path args) f w =
     f (x_run X (wlog w) path args) (w\<lparr>wlog := EvRun path args # wlog w\<rparr>)"
  by (simp add: bind_def defaultRunner_def)

lemma fieldLoop_found:
  "fieldLoop ts (Some a) w = (Inr (if filter isHex40 ts = [] then Some a else None), w)"
  by (induction ts) (auto simp: ret_apply)

lemma fieldLoop_run:
  "fieldLoop ts None w =
    (case filter isHex40 ts of
       [] \<Rightarrow> (Inr None, w)
     | tok # rest \<Rightarrow> (Inr (if rest = [] then Some (length (wmem w)) else None),
         w\<lparr>wmem := wmem w @ [ToLower tok]\<rparr>))"
proof (induction ts)
  case (Cons t ts)
  then show ?case
    by (simp add: bind_alloc fieldLoop_found)
qed (simp add: ret_apply)

lemma extractResponseHex_run:
  "extractResponseHex s w =
    (Inr (if responseHex s = None then None else Some (length (wmem w))),
     w\<lparr>wmem := wmem w @ responseCopies s\<rparr>)"
  unfolding extractResponseHex_def responseHex_def responseCopies_def
  by (auto simp: Let_def fieldLoop_run bind_alloc ret_apply split: list.splits)

lemma responseHex_copies: "responseHex s = Some h \<Longrightarrow> responseCopies s = [h]"
  by (auto simp: responseHex_def responseCopies_def split: if_splits list.splits)

text \<open>A response is always decodable, to 20 bytes.\<close>

lemma ToLower_ascii: "\<forall>c \<in> set s. c < 128 \<Longrightarrow> ToLower s = map lowerByte s"
  by (induction s rule: ToLower.induct) (auto simp: word_less_nat_alt)

lemma hexAny_lower: "hexAny c \<Longrightarrow> hexLower (lowerByte c) \<and> c < 128"
proof -
  assume c: "hexAny c"
  then have "48 \<le> unat c \<and> unat c < 103" by (auto simp: hexAny_def word_le_nat_alt)
  then have "unat c \<in> set [48..<103]" by (simp only: set_upt atLeastLessThan_iff)
  moreover have "\<forall>n \<in> set [48..<103]. hexAny (word_of_nat n) \<longrightarrow>
      hexLower (lowerByte (word_of_nat n)) \<and> (word_of_nat n :: u8) < 128"
    by code_simp
  ultimately have "hexAny (word_of_nat (unat c)) \<longrightarrow>
      hexLower (lowerByte (word_of_nat (unat c))) \<and> (word_of_nat (unat c) :: u8) < 128"
    by (rule bspec [rotated])
  with c show ?thesis by simp
qed

lemma responseHex_hex:
  "responseHex s = Some h \<Longrightarrow> length h = 40 \<and> (\<forall>c \<in> set h. hexLower c)"
proof -
  have *: "length (ToLower t) = 40 \<and> (\<forall>c \<in> set (ToLower t). hexLower c)" if "isHex40 t" for t
  proof -
    have "\<forall>c \<in> set t. c < 128" using that hexAny_lower by (auto simp: isHex40_def)
    then show ?thesis using that hexAny_lower by (auto simp: ToLower_ascii isHex40_def)
  qed
  assume h: "responseHex s = Some h"
  have "\<exists>t. isHex40 t \<and> h = ToLower t"
  proof (cases "isHex40 (TrimSpace s)")
    case True
    with h show ?thesis by (auto simp: responseHex_def)
  next
    case False
    with h obtain t where t: "filter isHex40 (Fields s) = [t]" and "h = ToLower t"
      by (auto simp: responseHex_def split: list.splits)
    moreover have "t \<in> set (filter isHex40 (Fields s))" unfolding t by simp
    then have "isHex40 t" by (simp only: set_filter mem_Collect_eq)
    ultimately show ?thesis by blast
  qed
  with * show "length h = 40 \<and> (\<forall>c \<in> set h. hexLower c)" by blast
qed

lemma length_hexDecode: "length (hexDecode s) = length s div 2"
  by (induction s rule: hexDecode.induct) auto

lemma responseHex_decode:
  "responseHex s = Some h \<Longrightarrow> decodeResponse h = Inr (hexDecode h) \<and> length (hexDecode h) = 20"
  using responseHex_hex [of s h] by (auto simp: decodeResponse_def length_hexDecode)

section \<open>Errors\<close>

definition yk_sentinels :: "sentinel set" where
  "yk_sentinels = {ErrTouchTimeout, ErrToolNotFound, ErrNoDevice, ErrSlotNotConfigured, ErrToolFailure}"

definition yk_errors :: "environ \<Rightarrow> gerror set" where
  "yk_errors X = faults X \<union> {[ErrSlotNotConfigured], [ErrBadResponse]} \<union>
     {s # r | s r. s \<in> yk_sentinels \<and> (r = [] \<or> (\<exists>n. r = [External n]))}"

lemma classify_run:
  "\<exists>e es. classifyToolError X ctx res w = (Inr e, w\<lparr>wlog := es @ wlog w\<rparr>) \<and> e \<in> yk_errors X"
proof (cases "x_ctxErr X ctx (wlog w)")
  case (Some n)
  then show ?thesis
    by (cases "x_ctxErr X ctx (EvCtxErr ctx # wlog w)")
      (auto simp: classifyToolError_def ctxErr_def bind_def ret_def yk_errors_def yk_sentinels_def
        intro: exI [of _ "[EvCtxErr ctx, EvCtxErr ctx]"])
next
  case None
  then show ?thesis
    by (auto simp: classifyToolError_def ctxErr_def bind_def ret_def yk_errors_def yk_sentinels_def Let_def
        intro!: exI [of _ "[EvCtxErr ctx]"] split: option.splits)
qed

section \<open>The transport keeps the contract\<close>

definition yk_answer :: "environ \<Rightarrow> ykman \<Rightarrow> u8 \<Rightarrow> bytes \<Rightarrow> bytes \<Rightarrow> bool" where
  "yk_answer X t slot chal v \<longleftrightarrow>
     (\<exists>h hex. rrErr (x_run X h (yk_path t) (calculateArgs slot chal)) = None \<and>
        responseHex (rrStdout (x_run X h (yk_path t) (calculateArgs slot chal))) = Some hex \<and>
        v = hexDecode hex)"

lemma yk_answer_length: "yk_answer X t slot chal v \<Longrightarrow> length v = 20"
  using responseHex_decode by (auto simp: yk_answer_def)

text \<open>The steps after a run that gave a response.\<close>

lemma yk_finish:
  assumes w: "wfw w" and l: "leaves w u {} {a0}" and h: "responseHex s = Some h"
  shows "case takeResponse X a0 s u of
      (Inl e, w') \<Rightarrow> e \<in> faults X \<and> leaves w w' {} {}
    | (Inr p, w') \<Rightarrow> \<exists>i. p = Some i \<and> leaves w w' {(i, hexDecode h)} {}"
proof -
  let ?a1 = "length (wmem u)" and ?a2 = "Suc (length (wmem u))"
  let ?v = "u\<lparr>wmem := wmem u @ [h]\<rparr>"
  let ?x = "?v\<lparr>wmem := wmem ?v @ [hexDecode h]\<rparr>"
  have lx: "leaves w ?x {} {a0, ?a1, ?a2}"
    using leaves_alloc [OF leaves_alloc [OF l, of h], of "hexDecode h"] by (simp add: insert_commute)
  have d: "decodeResponse h = Inr (hexDecode h)" using responseHex_decode [OF h] by simp
  have ex: "extractResponseHex s u = (Inr (Some ?a1), ?v)"
    using h by (simp add: extractResponseHex_run responseHex_copies)
  have a0: "a0 < length (wmem u)" using leaves_dirty [OF l, of a0] by simp
  obtain r y where n: "sb_New X ?a2 ?x = (r, y)" by fastforce
  have run: "takeResponse X a0 s u = (r, snd (zero a0 (snd (zero ?a1 (snd (zero ?a2 y))))))"
    unfolding takeResponse_def using n ex d
    by (simp add: deferring_def bind_def load_def gets_apply lift_apply alloc_def)
  note nl = sb_New_leaves [OF w lx _ n]
  show ?thesis
  proof (cases r)
    case (Inl e)
    with nl have e: "e \<in> faults X" "leaves w y {} {a0, ?a1, ?a2}" by auto
    have "leaves w (snd (zero ?a2 y)) {} ({a0, ?a1, ?a2} - {?a2})" by (rule leaves_zero [OF e(2)]) simp
    from leaves_zero [OF this, of ?a1]
    have "leaves w (snd (zero ?a1 (snd (zero ?a2 y)))) {} ({a0, ?a1, ?a2} - {?a2} - {?a1})" by simp
    from leaves_zero [OF this, of a0] a0
    have "leaves w (snd (zero a0 (snd (zero ?a1 (snd (zero ?a2 y)))))) {} ({a0, ?a1, ?a2} - {?a2} - {?a1} - {a0})"
      by simp
    moreover have "{a0, ?a1, ?a2} - {?a2} - {?a1} - {a0} = {}" by auto
    ultimately show ?thesis using run Inl e by simp
  next
    case (Inr p)
    let ?i = "length (wsbs ?x)"
    let ?K = "{(?i, hexDecode h)}"
    from Inr nl have p: "p = Some ?i" and y: "leaves w y ?K ({a0, ?a1, ?a2} - {?a2})"
      "?a2 < length (wmem y)" "\<not> owned y ?a2" by (auto simp: nth_append)
    have "length (wmem w) \<le> ?a2" using leaves_dirty [OF lx, of ?a2] by simp
    from leaves_zero_new [OF y(1) this y(2,3)]
    have "leaves w (snd (zero ?a2 y)) ?K ({a0, ?a1, ?a2} - {?a2} - {?a2})" .
    from leaves_zero [OF this, of ?a1]
    have "leaves w (snd (zero ?a1 (snd (zero ?a2 y)))) ?K ({a0, ?a1, ?a2} - {?a2} - {?a2} - {?a1})" by simp
    from leaves_zero [OF this, of a0] a0
    have "leaves w (snd (zero a0 (snd (zero ?a1 (snd (zero ?a2 y)))))) ?K
        ({a0, ?a1, ?a2} - {?a2} - {?a2} - {?a1} - {a0})" by simp
    moreover have "{a0, ?a1, ?a2} - {?a2} - {?a2} - {?a1} - {a0} = {}" by auto
    ultimately have "leaves w (snd (zero a0 (snd (zero ?a1 (snd (zero ?a2 y)))))) ?K {}" by (simp only:)
    then show ?thesis using run Inr p by simp
  qed
qed

lemma yk_no_response:
  assumes l: "leaves w u {} {a0}" and h: "responseHex s = None"
  shows "\<exists>w' D. takeResponse X a0 s u = (Inl [ErrBadResponse], w') \<and> leaves w w' {} D"
proof -
  let ?v = "u\<lparr>wmem := wmem u @ responseCopies s\<rparr>"
  have run: "takeResponse X a0 s u = (Inl [ErrBadResponse], snd (zero a0 ?v))"
    unfolding takeResponse_def using h
    by (simp add: deferring_def bind_def extractResponseHex_run throw_def)
  have "\<exists>D. leaves w ?v {} D \<and> a0 \<in> D"
  proof (cases "responseCopies s")
    case Nil
    with l show ?thesis by auto
  next
    case (Cons c cs)
    then have "responseCopies s = [c]" by (auto simp: responseCopies_def split: if_splits list.splits)
    with leaves_alloc [OF l, of c] show ?thesis by auto
  qed
  then show ?thesis using run leaves_zero by blast
qed

lemma ykman_respond:
  assumes w: "wfw w"
  shows "act False (Ykman_ChallengeResponse X t ctx slot chal) w (\<lambda>e. e \<in> yk_errors X)
    (\<lambda>p w' K D. \<exists>i v. p = Some i \<and> K = {(i, v)} \<and> D = {} \<and> yk_answer X t slot chal v)"
  (is "act _ _ _ ?E ?Ok")
proof (cases "otpSlotValid slot")
  case False
  then show ?thesis using w by (auto simp: Ykman_ChallengeResponse_def yk_errors_def intro: act_throw)
next
  case True
  let ?m = "bind (defaultRunner X (yk_path t) (calculateArgs slot chal)) (\<lambda>res.
      bind (alloc (rrStdout res)) (\<lambda>stdout.
        if rrErr res \<noteq> None then bind (classifyToolError X ctx res) throw
        else takeResponse X stdout (rrStdout res)))"
  have step: "act False ?m w1 ?E ?Ok" if w1: "wfw w1" for w1
  proof -
    let ?res = "x_run X (wlog w1) (yk_path t) (calculateArgs slot chal)" and ?a0 = "length (wmem w1)"
    let ?b = "w1\<lparr>wlog := EvRun (yk_path t) (calculateArgs slot chal) # wlog w1\<rparr>"
    let ?u = "?b\<lparr>wmem := wmem ?b @ [rrStdout ?res]\<rparr>"
    have "\<exists>es. wlog ?b = es @ wlog w1"
      by (rule exI [of _ "[EvRun (yk_path t) (calculateArgs slot chal)]"]) simp
    then have "leaves w1 ?b {} {}"
      by (rule leaves_same [OF leaves_refl [OF w1], rotated 2]) (simp_all add: fakeCfg_def)
    from leaves_alloc [OF this, of "rrStdout ?res"] have lu: "leaves w1 ?u {} {?a0}" by simp
    have run: "?m w1 = (if rrErr ?res \<noteq> None then bind (classifyToolError X ctx ?res) throw
        else takeResponse X ?a0 (rrStdout ?res)) ?u"
      by (simp add: bind_run bind_alloc)
    consider (err) n where "rrErr ?res = Some n" | (ok) h where "rrErr ?res = None" "responseHex (rrStdout ?res) = Some h"
      | (bad) "rrErr ?res = None" "responseHex (rrStdout ?res) = None"
      by (cases "rrErr ?res"; cases "responseHex (rrStdout ?res)") auto
    then show ?thesis
    proof cases
      case err
      obtain e es where c: "classifyToolError X ctx ?res ?u = (Inr e, ?u\<lparr>wlog := es @ wlog ?u\<rparr>)" "e \<in> yk_errors X"
        using classify_run by blast
      have m: "?m w1 = (Inl e, ?u\<lparr>wlog := es @ wlog ?u\<rparr>)"
        unfolding run using err c by (simp add: bind_def throw_def)
      have "leaves w1 (?u\<lparr>wlog := es @ wlog ?u\<rparr>) {} {?a0}"
        by (rule leaves_same [OF lu]) (simp_all add: fakeCfg_def)
      then show ?thesis unfolding act_def m using c(2) by auto
    next
      case ok
      obtain r y where f: "takeResponse X ?a0 (rrStdout ?res) ?u = (r, y)" by fastforce
      with run ok(1) have m: "?m w1 = (r, y)" by simp
      have "yk_answer X t slot chal (hexDecode h)" using ok by (auto simp: yk_answer_def)
      with yk_finish [OF w1 lu ok(2), of X] f show ?thesis
        unfolding act_def m by (cases r) (auto simp: yk_errors_def)
    next
      case bad
      from yk_no_response [OF lu bad(2)] obtain y D
        where f: "takeResponse X ?a0 (rrStdout ?res) ?u = (Inl [ErrBadResponse], y)" and l: "leaves w1 y {} D"
        by blast
      from run f bad(1) have m: "?m w1 = (Inl [ErrBadResponse], y)" by simp
      from l show ?thesis unfolding act_def m by (auto simp: yk_errors_def)
    qed
  qed
  have "act False (bind (ctxCheck X ctx) (\<lambda>_. ?m)) w ?E ?Ok"
    by (rule act_bind [OF w act_ctxCheck [OF w]], simp add: yk_errors_def, rule step)
  with True show ?thesis by (simp add: Ykman_ChallengeResponse_def)
qed

interpretation ykman: transport_contract "ykman_transport X t" "\<lambda>_. True" False "yk_answer X t" "\<lambda>_. yk_errors X" for X t
proof unfold_locales
  show "act False (t_ChallengeResponse (ykman_transport X t) ctx slot chal) w (\<lambda>e. e \<in> yk_errors X)
      (\<lambda>p w' K D. \<exists>i v. p = Some i \<and> K = {(i, v)} \<and> D = {} \<and> yk_answer X t slot chal v)"
    if "wfw w" for w ctx slot chal
    unfolding ykman_transport_def transport.simps by (rule ykman_respond [OF that])
qed simp

section \<open>Properties\<close>




definition versionRun :: "environ \<Rightarrow> string \<Rightarrow> ykman \<Rightarrow> world \<Rightarrow> runResult" where
  "versionRun X path t w =
     x_run X (EvLookPath (if path = [] then ''ykman'' else path) # wlog w) (yk_path t) [''--version'']"

lemma checkVersion_run:
  "fst (checkVersion X t w) = Inr () \<longleftrightarrow>
   rrErr (x_run X (wlog w) (yk_path t) [''--version'']) = None \<and>
   (\<exists>a b c. parseYkmanVersion (rrStdout (x_run X (wlog w) (yk_path t) [''--version''])) = Inr (Ver a b c) \<and> 5 \<le> a)"
proof (cases "parseYkmanVersion (rrStdout (x_run X (wlog w) (yk_path t) [''--version'']))")
  case (Inr v)
  have "\<not> versionLess v minYkmanVersion \<longleftrightarrow> minYkmanVersion \<le> v" by (simp add: less_eq_version_def)
  with Inr show ?thesis
    unfolding checkVersion_def bind_run
    by (cases v) (auto simp: Ver_le_major throw_apply ret_apply split: option.splits)
qed (auto simp: checkVersion_def bind_run throw_apply split: option.splits)


end
