(* ===== verification/Session.thy ===== *)
theory Session
  imports Unlocking Ykman Yubikey
begin

text \<open>
  A whole program run: any sequence of calls of the library's operations with its own methods,
  key derivation functions and transports. Every operation keeps the memory well formed and never
  alters a secret held by a container; and as long as only operations run that clean up on every
  path, no slice with secret bytes is ever left behind.
\<close>

section \<open>Calls\<close>

text \<open>
  The methods the library has, with its own KDFs and transports and with pointers to containers that
  exist. \<open>tidy\<close> asks for a method that wipes its buffers on every path: one without a key, as the
  transports leave the response behind when the memory cannot be locked.
\<close>

definition builtinKDF :: "environ \<Rightarrow> kdf_iface option \<Rightarrow> bool" where
  "builtinKDF X K \<longleftrightarrow> K = None \<or> (\<exists>k. K = Some (builtin_kdf X k))"

definition okMethod :: "environ \<Rightarrow> bool \<Rightarrow> world \<Rightarrow> meth \<Rightarrow> bool" where
  "okMethod X tidy w m \<longleftrightarrow>
     (\<exists>p. m = password_method X p \<and> validPtr w (pm_password p) \<and> builtinKDF X (pm_kdf p)) \<or>
     (\<exists>r. m = recovery_method X r \<and> validPtr w (rm_code r)) \<or>
     \<not> tidy \<and> (\<exists>y. m = yubikey_method X y \<and> validPtr w (ym_password y) \<and> builtinKDF X (yc_KDF (ym_cfg y)) \<and>
       ((\<exists>f < length (wfakes w). ym_transport y = fake_transport X f) \<or>
        (\<exists>t. ym_transport y = ykman_transport X t)))"

text \<open>
  One call, whatever its result. A slice given to \<open>New\<close> is the caller's own; a call is tidy when
  all its paths wipe, which leaves out \<open>Clone\<close> and the parsing of a text with characters that are
  not base32.
\<close>

inductive api :: "environ \<Rightarrow> bool \<Rightarrow> world \<Rightarrow> world \<Rightarrow> bool" for X tidy where
  api_New: "a < length (wmem w) \<Longrightarrow> \<not> owned w a \<Longrightarrow> api X tidy w (snd (sb_New X a w))"
| api_NewZero: "api X tidy w (snd (sb_NewZero X n w))"
| api_Destroy: "api X tidy w (snd (sb_Destroy X p w))"
| api_Clone: "\<not> tidy \<Longrightarrow> validPtr w p \<Longrightarrow> api X tidy w (snd (sb_Clone X p w))"
| api_GenerateDEK: "api X tidy w (snd (GenerateDEK X n w))"
| api_GenerateCode: "api X tidy w (snd (GenerateRecoveryCode X w))"
| api_FormatCode: "api X tidy w (snd (FormatRecoveryCode p w))"
| api_ParseCode: "(tidy \<Longrightarrow> snd (b32_Decode (cleaned s))) \<Longrightarrow> api X tidy w (snd (ParseRecoveryCode X s w))"
| api_NewEnvelope: "validPtr w dek \<Longrightarrow> \<forall>m \<in> set ms. okMethod X tidy w m \<Longrightarrow>
    api X tidy w (snd (NewEnvelope X ctx dek p ms w))"
| api_AddSlot: "validPtr w dek \<Longrightarrow> okMethod X tidy w m \<Longrightarrow> api X tidy w (snd (AddSlot X e ctx dek m w))"
| api_Unlock: "\<forall>m \<in> set ms. okMethod X tidy w m \<Longrightarrow> api X tidy w (snd (Unlock X e ctx ms w))"

text \<open>A run of any number of calls.\<close>

abbreviation session :: "environ \<Rightarrow> bool \<Rightarrow> world \<Rightarrow> world \<Rightarrow> bool" where
  "session X tidy \<equiv> (api X tidy)\<^sup>*\<^sup>*"

section \<open>What every call keeps\<close>

text \<open>
  The slices with bytes other than zero that no container owns: the callers' own, and what was left
  behind.
\<close>

definition residue :: "world \<Rightarrow> addr set" where
  "residue w = {a. a < length (wmem w) \<and> \<not> wiped (wmem w ! a) \<and> \<not> owned w a}"

text \<open>A container still holds what it held, or is destroyed.\<close>

definition keeps :: "bool \<Rightarrow> world \<Rightarrow> world \<Rightarrow> bool" where
  "keeps tidy w w' \<longleftrightarrow>
     wfw w' \<and> length (wsbs w) \<le> length (wsbs w') \<and>
     (\<forall>i < length (wsbs w). payload w' i = payload w i \<or> payload w' i = None) \<and>
     (tidy \<longrightarrow> residue w' \<subseteq> residue w)"

lemma keeps_refl: "wfw w \<Longrightarrow> keeps tidy w w"
  by (simp add: keeps_def)

lemma keeps_trans: "keeps tidy u v \<Longrightarrow> keeps tidy v w \<Longrightarrow> keeps tidy u w"
  unfolding keeps_def by (metis order_less_le_trans order_trans subset_trans)

lemma keeps_leaves:
  assumes w: "wfw w" and l: "leaves w w' K D" and t: "tidy \<Longrightarrow> D = {}"
  shows "keeps tidy w w'"
proof -
  have "residue w' \<subseteq> residue w" if tidy
  proof
    fix a assume a: "a \<in> residue w'"
    then have "a < length (wmem w)"
      using leaves_mem [OF l, of a] t [OF that] by (force simp: residue_def)
    with a show "a \<in> residue w"
      using leaves_old_mem [OF l] owned_iff_old [OF l] by (auto simp: residue_def)
  qed
  then show ?thesis
    using leaves_wf [OF l] leaves_lengths [OF l] leaves_payload [OF w l] by (simp add: keeps_def)
qed

lemma keeps_act:
  assumes "wfw w" and "act tidy m w Err (\<lambda>x w' K D. P x w' K D \<and> (tidy \<longrightarrow> D = {}))"
  shows "keeps tidy w (snd (m w))"
  using assms(2) keeps_leaves [OF assms(1)]
  by (auto simp: act_def split: prod.splits sum.splits)

lemma sb_New_keeps:
  assumes w: "wfw w" and a: "a < length (wmem w)" "\<not> owned w a"
  shows "keeps tidy w (snd (sb_New X a w))"
proof -
  obtain r w' where n: "sb_New X a w = (r, w')" by fastforce
  note run = sb_New_run [where X = X and a = a and w = w, unfolded n prod.case]
  have old: "sbuf (wsbs w ! i) = Some c \<Longrightarrow> c < length (wmem w) \<and> c \<noteq> a" if "i < length (wsbs w)" for i c
    using w a(2) that by (auto simp: wfw_def owned_def)
  show ?thesis
  proof (cases r)
    case (Inl e)
    with run have m: "wsbs w' = wsbs w" "wmem w' = wmem w @ [zeroed (wmem w ! a)]" by auto
    have "payload w' i = payload w i" if "i < length (wsbs w)" for i
      using m old [OF that] by (auto simp: payload_def nth_append intro: map_option_cong)
    moreover have "residue w' \<subseteq> residue w"
      using m by (auto simp: residue_def owned_def nth_append split: if_splits)
    ultimately show ?thesis
      using wfw_cong [OF w m(1)] m by (simp add: keeps_def n)
  next
    case (Inr p)
    with run a have m: "wsbs w' = wsbs w @ [\<lparr>sbuf = Some (length (wmem w)), sdestroyed = False\<rparr>]"
      "wmem w' = (wmem w)[a := zeroed (wmem w ! a)] @ [wmem w ! a]" by auto
    have "payload w' i = payload w i" if "i < length (wsbs w)" for i
      using m old [OF that] that by (auto simp: payload_def nth_append intro!: map_option_cong)
    moreover have "residue w' \<subseteq> residue w"
      using m a by (auto simp: residue_def owned_def nth_append nth_list_update less_Suc_eq split: if_splits)
    moreover have "wfw w'"
      using w old unfolding wfw_def m by (auto simp: nth_append less_Suc_eq split: if_splits)
    ultimately show ?thesis using m by (simp add: keeps_def n)
  qed
qed

lemma sb_Destroy_payload:
  assumes w: "wfw w" and i: "i < length (wsbs w)"
  shows "payload (snd (sb_Destroy X (Some i) w)) i = None"
proof (cases "sbuf (wsbs w ! i)")
  case None
  then show ?thesis using sb_Destroy_skip [OF w, of "Some i" X] i by (simp add: sbAt_def payload_def)
next
  case (Some a)
  then show ?thesis using sb_Destroy_run [OF w i Some, of X] i by (simp add: payload_def Let_def)
qed

lemma sb_Destroy_keeps:
  assumes w: "wfw w" shows "keeps tidy w (snd (sb_Destroy X p w))"
proof (cases "p = None \<or> (\<exists>i. p = Some i \<and> sbuf (sbAt w i) = None)")
  case True
  then show ?thesis using sb_Destroy_skip [OF w True] keeps_refl [OF w] by simp
next
  case False
  then obtain i a where p: "p = Some i" "i < length (wsbs w)" "sbuf (wsbs w ! i) = Some a"
    by (auto simp: sbAt_def split: if_splits)
  define w' where "w' = snd (sb_Destroy X p w)"
  have m: "wmem w' = (wmem w)[a := zeroed (wmem w ! a)]"
    "wsbs w' = (wsbs w)[i := \<lparr>sbuf = None, sdestroyed = True\<rparr>]"
    using sb_Destroy_run [OF w p(2,3), of X] by (simp_all add: w'_def p(1) Let_def)
  have uniq: "j = i" if "j < length (wsbs w)" "sbuf (wsbs w ! j) = Some a" for j
    using that w p by (auto simp: wfw_def)
  have "payload w' j = payload w j \<or> payload w' j = None" if "j < length (wsbs w)" for j
  proof (cases "j = i")
    case False
    then have "sbuf (wsbs w ! j) \<noteq> Some a" using uniq that by blast
    with False show ?thesis using that
      by (auto simp: payload_def m intro!: map_option_cong)
  qed (simp add: payload_def m p(2))
  moreover have "residue w' \<subseteq> residue w"
  proof
    fix c assume c: "c \<in> residue w'"
    then have "c \<noteq> a" by (auto simp: residue_def m)
    moreover have "\<not> owned w c"
    proof
      assume "owned w c"
      then obtain j where j: "j < length (wsbs w)" "sbuf (wsbs w ! j) = Some c" by (auto simp: owned_def)
      with \<open>c \<noteq> a\<close> p have "j \<noteq> i" by auto
      with j have "owned w' c" by (auto simp: owned_def m)
      with c show False by (simp add: residue_def)
    qed
    ultimately show "c \<in> residue w" using c by (auto simp: residue_def m)
  qed
  moreover have "wfw w'" unfolding w'_def by (rule sb_Destroy_wfw [OF w])
  ultimately show ?thesis using m by (simp add: keeps_def w'_def)
qed

lemma sb_NewZero_keeps:
  assumes w: "wfw w" shows "keeps tidy w (snd (sb_NewZero X n w))"
proof (cases "n < 0")
  case True
  then show ?thesis using keeps_refl [OF w] by (simp add: sb_NewZero_def throw_apply)
next
  case False
  then obtain k where k: "n = int k" by (metis nonneg_int_cases not_less)
  obtain r w' where r: "sb_NewZero X (int k) w = (r, w')" by fastforce
  from sb_NewZero_leaves [OF w leaves_refl [OF w] r] show ?thesis
    using keeps_leaves [OF w] r k by (auto split: sum.splits)
qed

lemma sb_Clone_keeps:
  assumes w: "wfw w" shows "keeps False w (snd (sb_Clone X p w))"
proof (cases "contents w p")
  case (Inl e)
  then show ?thesis using keeps_refl [OF w] by (simp add: sb_Clone_def sb_Use_error [OF w Inl])
next
  case (Inr v)
  then show ?thesis using sb_Clone_leaves [OF w Inr, of X] keeps_leaves [OF w]
    by (auto split: prod.splits sum.splits)
qed

section \<open>The library's methods keep their contracts\<close>

lemma method_contract_weaken: "method_contract m V True \<Longrightarrow> method_contract m V c"
  unfolding method_contract_def by (blast intro: act_weaken)

lemma builtin_contract: "builtinKDF X K \<Longrightarrow> \<forall>k. K = Some k \<longrightarrow> (\<exists>stretch E. kdf_contract k stretch E)"
  using builtin.kdf_contract_axioms by (auto simp: builtinKDF_def)

lemma key_contract:
  assumes "(\<exists>f < length (wfakes w). T = fake_transport X f) \<or> (\<exists>t. T = ykman_transport X t)"
  shows "\<exists>tvalid ans TE. transport_contract T tvalid False ans TE \<and> tvalid w"
  using assms
proof
  assume "\<exists>f < length (wfakes w). T = fake_transport X f"
  then obtain f where f: "f < length (wfakes w)" "T = fake_transport X f" by blast
  then have "fake_valid f ((wfakes w ! f)\<lparr>fTouches := 0\<rparr>) w" by (simp add: fake_valid_def)
  then show ?thesis using fake.transport_contract_axioms unfolding f(2) by blast
next
  assume "\<exists>t. T = ykman_transport X t"
  then show ?thesis using ykman.transport_contract_axioms [of X] by auto
qed

lemma okMethod_contract:
  assumes "okMethod X tidy w m" shows "\<exists>V. method_contract m V tidy \<and> V w"
proof -
  consider (password) p where "m = password_method X p" "validPtr w (pm_password p)" "builtinKDF X (pm_kdf p)"
    | (recovery) r where "m = recovery_method X r" "validPtr w (rm_code r)"
    | (key) y where "m = yubikey_method X y" "\<not> tidy" "validPtr w (ym_password y)" "builtinKDF X (yc_KDF (ym_cfg y))"
      "\<exists>tvalid ans TE. transport_contract (ym_transport y) tvalid False ans TE \<and> tvalid w"
    using assms key_contract unfolding okMethod_def by blast
  then show ?thesis
  proof cases
    case password
    then have "password_valid p w" using builtin_contract by (simp add: password_valid_def)
    then show ?thesis
      unfolding password(1) using method_contract_weaken [OF password.method_contract_axioms] by blast
  next
    case recovery
    then show ?thesis
      using method_contract_weaken [OF recovery.method_contract_axioms [of X r]] by auto
  next
    case key
    then have "yubikey_valid False y w" using builtin_contract by (simp add: yubikey_valid_def)
    then show ?thesis unfolding key(1) using key(2) yubikey.method_contract_axioms [of X y False] by auto
  qed
qed

lemma okMethods_ok: "\<forall>m \<in> set ms. okMethod X tidy w m \<Longrightarrow> methods_ok tidy ms w"
  using okMethod_contract by (auto simp: methods_ok_def)

lemma NewEnvelope_keeps:
  assumes w: "wfw w" and "validPtr w dek" and "methods_ok c ms w"
  shows "keeps c w (snd (NewEnvelope X ctx dek p ms w))"
proof (rule keeps_act [OF w])
  show "act c (NewEnvelope X ctx dek p ms) w
      (\<lambda>x. True \<or> newErr w dek p ms (\<lambda>m s. sType s = m_Type m \<and> complete s) x)
      (\<lambda>e w' K D. (K = {} \<and> newOk w dek p ms (\<lambda>m s. sType s = m_Type m \<and> complete s) e) \<and> (c \<longrightarrow> D = {}))"
    by (rule act_conseq [OF NewEnvelope_act [OF w, where c = c]])
      (auto intro: methods_ok_enroll [OF assms(3) _ _ w] validPtr_leaves [OF _ assms(2)])
qed

lemma AddSlot_keeps:
  assumes w: "wfw w" and "validPtr w dek" and "methods_ok c [m] w"
  shows "keeps c w (snd (AddSlot X e ctx dek m w))"
proof (rule keeps_act [OF w])
  let ?R = "\<lambda>s. sType s = m_Type m \<and> complete s"
  show "act c (AddSlot X e ctx dek m) w (\<lambda>x. True \<or> addErr w dek e m x)
      (\<lambda>e' w' K D. (K = {} \<and> (\<exists>s. ?R s \<and> e' = e\<lparr>eslots := eslots e @ [s]\<rparr>)) \<and> (c \<longrightarrow> D = {}))"
    by (rule act_conseq [OF AddSlot_act [OF w, where c = c and R = ?R]])
      (auto intro: methods_ok_enroll [OF assms(3) _ _ w] validPtr_leaves [OF _ assms(2)])
qed

lemma api_keeps: "api X tidy w w' \<Longrightarrow> wfw w \<Longrightarrow> keeps tidy w w'"
proof (induction rule: api.induct)
  case (api_GenerateDEK w n)
  show ?case by (rule keeps_act [OF api_GenerateDEK act_conseq [OF GenerateDEK_act [OF api_GenerateDEK]]]) auto
next
  case (api_GenerateCode w)
  show ?case
    using GenerateRecoveryCode_computes [OF api_GenerateCode, of X] keeps_leaves [OF api_GenerateCode]
    by (auto simp: computes_run split: prod.splits sum.splits)
next
  case (api_FormatCode p w)
  then show ?case using keeps_refl by (auto simp: FormatRecoveryCode_run)
next
  case (api_ParseCode s w)
  have "act tidy (ParseRecoveryCode X s) w (\<lambda>_. True) (\<lambda>x w' K D. True \<and> (tidy \<longrightarrow> D = {}))"
    using ParseRecoveryCode_computes [OF api_ParseCode(2), of s X] unfolding computes_def
    by (rule act_conseq) (use api_ParseCode(1) in auto)
  then show ?case by (rule keeps_act [OF api_ParseCode(2)])
next
  case (api_NewEnvelope w dek ms ctx p)
  then show ?case using NewEnvelope_keeps okMethods_ok by blast
next
  case (api_AddSlot w dek m e ctx)
  then show ?case using AddSlot_keeps okMethods_ok [of "[m]"] by auto
next
  case (api_Unlock w ms e ctx)
  show ?case
    by (rule keeps_act [OF api_Unlock(2) act_conseq [OF Unlock_clean [OF api_Unlock(2) okMethods_ok [OF api_Unlock(1)]]]])
      auto
qed (auto intro: sb_New_keeps sb_NewZero_keeps sb_Destroy_keeps sb_Clone_keeps)

lemma session_keeps: "session X tidy w w' \<Longrightarrow> wfw w \<Longrightarrow> keeps tidy w w'"
proof (induction rule: rtranclp_induct)
  case base
  then show ?case by (rule keeps_refl)
next
  case (step u v)
  then have "keeps tidy w u" by simp
  moreover then have "wfw u" by (simp add: keeps_def)
  ultimately show ?case using api_keeps [OF step(2)] keeps_trans by blast
qed

section \<open>The property\<close>

text \<open>
  C4. After any sequence of calls, failed ones included, with any of the library's methods, KDFs and
  transports: the memory is well formed (a container is destroyed exactly when it has no buffer, its
  buffer exists, and no two containers share one), every container holds exactly what it held or has
  been destroyed, and if only tidy operations ran, no slice that held nothing but zeros, or did not
  exist, now holds bytes outside a container.
\<close>

theorem session_safe:
  assumes "session X tidy w w'" and "wfw w"
  shows "wfw w' \<and>
    (\<forall>p. validPtr w p \<longrightarrow> validPtr w' p \<and>
      (contents w' p = contents w p \<or> contents w' p = Inl [ErrDestroyed])) \<and>
    (tidy \<longrightarrow> residue w' \<subseteq> residue w)"
proof -
  have k: "keeps tidy w w'" by (rule session_keeps [OF assms])
  have "validPtr w' p \<and> (contents w' p = contents w p \<or> contents w' p = Inl [ErrDestroyed])"
    if "validPtr w p" for p
  proof (cases p)
    case (Some i)
    with that k have "i < length (wsbs w')" "payload w' i = payload w i \<or> payload w' i = None"
      by (auto simp: keeps_def validPtr_def)
    with Some show ?thesis by (auto simp: validPtr_def contents_def)
  qed (simp add: contents_def)
  with k show ?thesis by (simp add: keeps_def)
qed

theorem session_safe_witness:
  "\<exists>w'. session demoX True demoW w' \<and> wfw w' \<and> contents w' (Some 0) = Inl [ErrDestroyed] \<and>
     contents w' (Some 1) \<in> {Inr demoDEK, Inl [ErrDestroyed]} \<and> residue w' \<subseteq> residue demoW"
proof -
  let ?w1 = "snd (NewEnvelope demoX 0 (Some 1) PolicyPasswordOnly
      [password_method demoX demoPasswordMethod] demoW)"
  let ?w2 = "snd (sb_Destroy demoX (Some 0) ?w1)"
  have "okMethod demoX True demoW (password_method demoX demoPasswordMethod)"
    unfolding okMethod_def
    by (intro disjI1 exI [of _ demoPasswordMethod] conjI) (auto simp: builtinKDF_def)
  then have 1: "api demoX True demoW ?w1" by (intro api_NewEnvelope) simp_all
  have 2: "api demoX True ?w1 ?w2" by (rule api_Destroy)
  from 1 2 have s: "session demoX True demoW ?w2" by (meson r_into_rtranclp rtranclp_trans)
  have k: "keeps True demoW ?w1" by (rule api_keeps [OF 1 demoW_wfw])
  moreover have "0 < length (wsbs demoW)" by (simp add: demoW_def)
  ultimately have "wfw ?w1" "0 < length (wsbs ?w1)" by (auto simp: keeps_def)
  from sb_Destroy_payload [OF this] have "payload ?w2 0 = None" .
  then have "contents ?w2 (Some 0) = Inl [ErrDestroyed]" by (simp add: contents_def)
  moreover note safe = session_safe [OF s demoW_wfw]
  moreover have "validPtr demoW (Some 1)" by simp
  then have "contents ?w2 (Some 1) \<in> {Inr demoDEK, Inl [ErrDestroyed]}"
    using safe demoW_contents(2) by (metis One_nat_def insert_iff)
  ultimately show ?thesis using s by blast
qed

end
