(* ===== verification/Leaks.thy ===== *)
theory Leaks
  imports Session
begin

text \<open>
  The paths on which bytes of a secret stay in a slice that no container owns and nothing wipes.
  Each lemma gives the condition under which the path is taken and names the slice; theory \<open>Session\<close>
  shows that the operations without such a path never add to \<open>residue\<close>. The slice of \<open>Clone\<close> is part
  of the lemma \<open>sb_Clone_leaves\<close>.
\<close>

lemma residueI: "a < length (wmem w) \<Longrightarrow> \<not> wiped (wmem w ! a) \<Longrightarrow> \<not> owned w a \<Longrightarrow> a \<in> residue w"
  by (simp add: residue_def)

lemma new_slice_unowned: "wfw w \<Longrightarrow> wsbs w' = wsbs w \<Longrightarrow> length (wmem w) \<le> a \<Longrightarrow> \<not> owned w' a"
  by (auto simp: owned_def wfw_def)

text \<open>
  A text that is not base32 to its end: the bytes decoded before the first bad character stay.
\<close>

lemma ParseRecoveryCode_prefix_stays:
  assumes "wfw w" and "b32_Decode (cleaned s) = (out, False)" and "\<not> wiped out"
  shows "length (wmem w) \<in> residue (snd (ParseRecoveryCode X s w)) \<and>
    wmem (snd (ParseRecoveryCode X s w)) ! length (wmem w) = out"
proof -
  have "snd (ParseRecoveryCode X s w) = w\<lparr>wmem := wmem w @ [out]\<rparr>"
    using assms(2) by (simp add: ParseRecoveryCode_def bind_alloc throw_apply)
  then show ?thesis
    using assms(3) new_slice_unowned [OF assms(1), of "w\<lparr>wmem := wmem w @ [out]\<rparr>"] by (auto intro!: residueI)
qed

text \<open>Two candidates in the tool's output: the lower-case copy of the first stays.\<close>

lemma extractResponseHex_copy_stays:
  assumes "wfw w" and "\<not> isHex40 (TrimSpace s)" and "filter isHex40 (Fields s) = tok # tok' # toks"
    and "\<not> wiped (ToLower tok)"
  shows "fst (extractResponseHex s w) = Inr None \<and>
    length (wmem w) \<in> residue (snd (extractResponseHex s w)) \<and>
    wmem (snd (extractResponseHex s w)) ! length (wmem w) = ToLower tok"
proof -
  have run: "extractResponseHex s w = (Inr None, w\<lparr>wmem := wmem w @ [ToLower tok]\<rparr>)"
    using assms(2,3) by (simp add: extractResponseHex_def fieldLoop_run)
  show ?thesis
    unfolding run
    using assms(4) new_slice_unowned [OF assms(1), of "w\<lparr>wmem := wmem w @ [ToLower tok]\<rparr>"]
    by (auto intro!: residueI)
qed

text \<open>The tool fails after it has printed the response: its output stays.\<close>

lemma ykman_output_stays:
  assumes w: "wfw w" and slot: "otpSlotValid slot" and ctx: "ctxCheck X ctx w = (Inr (), u)"
    and res: "res = x_run X (wlog u) (yk_path t) (calculateArgs slot chal)"
    and "rrErr res \<noteq> None" and "\<not> wiped (rrStdout res)"
  shows "length (wmem w) \<in> residue (snd (Ykman_ChallengeResponse X t ctx slot chal w)) \<and>
    wmem (snd (Ykman_ChallengeResponse X t ctx slot chal w)) ! length (wmem w) = rrStdout res"
proof -
  have u: "wmem u = wmem w" "wsbs u = wsbs w"
    using ctxCheck_leaves [OF leaves_refl [OF w] ctx] by auto
  let ?v = "u\<lparr>wlog := EvRun (yk_path t) (calculateArgs slot chal) # wlog u, wmem := wmem u @ [rrStdout res]\<rparr>"
  obtain r w' where c: "bind (classifyToolError X ctx res) (throw :: gerror \<Rightarrow> sbptr io) ?v = (r, w')"
    by fastforce
  have w': "wmem w' = wmem ?v" "wsbs w' = wsbs ?v"
    using c by (auto simp: classifyToolError_def ctxErr_def bind_def ret_apply throw_apply Let_def
        split: if_splits option.splits)
  have "Ykman_ChallengeResponse X t ctx slot chal w = (r, w')"
    using slot assms(5) c
    by (simp add: Ykman_ChallengeResponse_def bind_Inr [of "ctxCheck X ctx", OF ctx] bind_run bind_alloc
        res [symmetric])
  then show ?thesis
    using assms(6) new_slice_unowned [OF w, of w'] w' u by (auto intro!: residueI)
qed

text \<open>The fake key's response stays when the memory for its container cannot be locked.\<close>

lemma fake_response_stays:
  assumes w: "wfw w" and f: "f < length (wfakes w)" "fErrInject (wfakes w ! f) = None" "\<not> fTouchFn (wfakes w ! f)"
    and slot: "otpSlotValid slot" "fsecrets (wfakes w ! f) slot = Some secret"
    and ctx: "x_ctxErr X ctx (wlog w) = None"
    and fail: "Fake_ChallengeResponse X f ctx slot chal w = (Inl e, w')" and "\<not> wiped (hmac sha1 secret chal)"
  shows "length (wmem w) \<in> residue w' \<and> wmem w' ! length (wmem w) = hmac sha1 secret chal"
proof -
  let ?h = "hmac sha1 secret chal" and ?n = "length (wmem w)"
  define v where "v = w\<lparr>wlog := EvCtxErr ctx # wlog w, wmem := wmem w @ [?h],
    wfakes := (wfakes w)[f := (wfakes w ! f)\<lparr>fTouches := fTouches (wfakes w ! f) + 1\<rparr>]\<rparr>"
  have "Fake_ChallengeResponse X f ctx slot chal w = sb_New X ?n v"
    using f slot ctx
    by (simp add: Fake_ChallengeResponse_def withFake_def countTouch_def ctxCheck_def Let_def bind_def ret_def
        alloc_def modify_def v_def)
  with fail have n: "sb_New X ?n v = (Inl e, w')" by simp
  have "wsbs w' = wsbs v \<and> wmem w' = wmem v @ [zeroed (wmem v ! ?n)]"
    using sb_New_run [where X = X and a = ?n and w = v] by (simp add: n)
  then have w': "wsbs w' = wsbs w" "wmem w' = (wmem w @ [?h]) @ [zeroed ?h]" by (simp_all add: v_def)
  then show ?thesis
    using assms(9) new_slice_unowned [OF w w'(1)] by (auto simp: nth_append intro!: residueI)
qed

text \<open>
  C38. Where secret bytes are left behind: when a recovery code's text has a character that is not base32,
  the bytes decoded before it stay in memory, unowned and not wiped; when the tool's output
  has two candidates for a response, so does the copy of the first; and when the tool fails, so does
  the output it had printed.
\<close>

theorem bytes_left_behind:
  assumes "wfw w"
  shows "(\<forall>s out. b32_Decode (cleaned s) = (out, False) \<and> \<not> wiped out \<longrightarrow>
      length (wmem w) \<in> residue (snd (ParseRecoveryCode X s w)) \<and>
      wmem (snd (ParseRecoveryCode X s w)) ! length (wmem w) = out) \<and>
    (\<forall>s tok tok' toks. \<not> isHex40 (TrimSpace s) \<and> filter isHex40 (Fields s) = tok # tok' # toks \<and>
      \<not> wiped (ToLower tok) \<longrightarrow>
      fst (extractResponseHex s w) = Inr None \<and> length (wmem w) \<in> residue (snd (extractResponseHex s w)) \<and>
      wmem (snd (extractResponseHex s w)) ! length (wmem w) = ToLower tok) \<and>
    (\<forall>t ctx u slot chal res. otpSlotValid slot \<and> ctxCheck X ctx w = (Inr (), u) \<and>
      res = x_run X (wlog u) (yk_path t) (calculateArgs slot chal) \<and> rrErr res \<noteq> None \<and>
      \<not> wiped (rrStdout res) \<longrightarrow>
      length (wmem w) \<in> residue (snd (Ykman_ChallengeResponse X t ctx slot chal w)) \<and>
      wmem (snd (Ykman_ChallengeResponse X t ctx slot chal w)) ! length (wmem w) = rrStdout res)"
  using ParseRecoveryCode_prefix_stays [OF assms] extractResponseHex_copy_stays [OF assms]
    ykman_output_stays [OF assms] by blast

theorem bytes_left_behind_witness:
  "5 \<in> residue (snd (ParseRecoveryCode demoX (ascii ''MZXW6-YTB1I'') demoW)) \<and>
   wmem (snd (ParseRecoveryCode demoX (ascii ''MZXW6-YTB1I'') demoW)) ! 5 = ascii ''fooba''"
proof -
  have "b32_Decode (cleaned (ascii ''MZXW6-YTB1I'')) = (ascii ''fooba'', False)" "\<not> wiped (ascii ''fooba'')"
    by code_simp+
  moreover have "length (wmem demoW) = 5" by (simp add: demoW_def)
  ultimately show ?thesis using bytes_left_behind [OF demoW_wfw, of demoX] by metis
qed

end
