(* ===== verification/Policy_Check.thy ===== *)
theory Policy_Check
  imports Envelope
begin

text \<open>
  \<open>policy.go\<close>: the safe-default validator. The report is returned beside the error, as in the code.
\<close>

record SafetyReport =
  Warnings :: "string list"
  UnlockSlots :: nat
  HasRecovery :: bool

definition warnPresence :: string where
  "warnPresence = ''yubikey-only proves presence, not identity: a stolen key + file can unlock; prefer password-and-yubikey''"

definition warnSingle :: string where
  "warnSingle = ''only one unlock method enrolled: a lost factor means permanent lockout; enroll a backup key or recovery code''"

definition warnNoRecovery :: string where
  "warnNoRecovery = ''no recovery code enrolled: consider `recovery-code` as an offline escape hatch''"

text \<open>The loop that looks for a recovery slot.\<close>

fun recoveryLoop :: "slot list \<Rightarrow> SafetyReport \<Rightarrow> SafetyReport" where
  "recoveryLoop [] rep = rep"
| "recoveryLoop (s # ss) rep =
     recoveryLoop ss (if sType s = MethodRecovery then rep\<lparr>HasRecovery := True\<rparr> else rep)"

definition ValidateSafety :: "envelope \<Rightarrow> bool \<Rightarrow> SafetyReport \<times> gerror option" where
  "ValidateSafety e force =
     (let rep = \<lparr>Warnings = [], UnlockSlots = length (eslots e), HasRecovery = False\<rparr>;
          rep = recoveryLoop (eslots e) rep;
          eff = EffectivePolicy e
      in if eff = PolicyYubiKeyOnly \<and> UnlockSlots rep = 1 \<and> \<not> force then (rep, Some [ErrPolicyUnsafe])
         else
           let rep = (if eff = PolicyYubiKeyOnly then rep\<lparr>Warnings := Warnings rep @ [warnPresence]\<rparr> else rep);
               rep = (if UnlockSlots rep < 2 then rep\<lparr>Warnings := Warnings rep @ [warnSingle]\<rparr> else rep);
               rep = (if \<not> HasRecovery rep then rep\<lparr>Warnings := Warnings rep @ [warnNoRecovery]\<rparr> else rep)
           in (rep, None))"

lemma recoveryLoop_eq:
  "recoveryLoop ss rep = rep\<lparr>HasRecovery := HasRecovery rep \<or> (\<exists>s \<in> set ss. sType s = MethodRecovery)\<rparr>"
  by (induction ss arbitrary: rep) auto

definition hasRecovery :: "envelope \<Rightarrow> bool" where
  "hasRecovery e \<longleftrightarrow> (\<exists>s \<in> set (eslots e). sType s = MethodRecovery)"

text \<open>Refused exactly when the only slot is a YubiKey alone and the caller does not insist.\<close>

lemma single_yubikey:
  "EffectivePolicy e = PolicyYubiKeyOnly \<and> length (eslots e) = 1 \<longleftrightarrow>
   (\<exists>s. eslots e = [s] \<and> sType s = MethodYubiKey)"
proof -
  have "policyForMethod t = PolicyYubiKeyOnly \<longleftrightarrow> t = MethodYubiKey" for t
    by (simp add: policyForMethod_def)
  then have one: "EffectivePolicy e = PolicyYubiKeyOnly \<longleftrightarrow> sType s = MethodYubiKey"
    if "eslots e = [s]" for s
    using that EffectivePolicy_iff [of PolicyYubiKeyOnly e] by (auto simp: primaries_Cons)
  have "length (eslots e) = 1 \<longleftrightarrow> (\<exists>s. eslots e = [s])"
    by (cases "eslots e") auto
  with one show ?thesis by auto
qed

lemma ValidateSafety_refuses:
  "snd (ValidateSafety e force) =
    (if \<not> force \<and> (\<exists>s. eslots e = [s] \<and> sType s = MethodYubiKey) then Some [ErrPolicyUnsafe] else None)"
  using single_yubikey [of e]
  by (auto simp: ValidateSafety_def recoveryLoop_eq Let_def)

lemma ValidateSafety_report:
  "UnlockSlots (fst (ValidateSafety e force)) = length (eslots e) \<and>
   HasRecovery (fst (ValidateSafety e force)) = hasRecovery e"
  by (simp add: ValidateSafety_def recoveryLoop_eq Let_def hasRecovery_def)

lemma ValidateSafety_warnings:
  assumes "snd (ValidateSafety e force) = None"
  shows "Warnings (fst (ValidateSafety e force)) =
    (if EffectivePolicy e = PolicyYubiKeyOnly then [warnPresence] else []) @
    (if length (eslots e) < 2 then [warnSingle] else []) @
    (if hasRecovery e then [] else [warnNoRecovery])"
  using assms by (auto simp: ValidateSafety_def recoveryLoop_eq Let_def hasRecovery_def split: if_splits)

section \<open>Properties\<close>

text \<open>
  C37. The safety check: an envelope is refused exactly when its only slot is a bare YubiKey and the
  caller does not force it; the report counts the slots and tells whether one is a recovery slot,
  and an accepted envelope gets, in this order, the warnings for presence-only unlocking, for a
  single slot and for a missing recovery code, each exactly when it applies.
\<close>

theorem ValidateSafety_spec:
  "ValidateSafety e force =
    (\<lparr>Warnings =
        (if \<not> force \<and> (\<exists>s. eslots e = [s] \<and> sType s = MethodYubiKey) then []
         else (if EffectivePolicy e = PolicyYubiKeyOnly then [warnPresence] else []) @
           (if SlotCount e < 2 then [warnSingle] else []) @ (if hasRecovery e then [] else [warnNoRecovery])),
      UnlockSlots = SlotCount e, HasRecovery = hasRecovery e\<rparr>,
     if \<not> force \<and> (\<exists>s. eslots e = [s] \<and> sType s = MethodYubiKey) then Some [ErrPolicyUnsafe] else None)"
  using single_yubikey [of e]
  by (auto simp: ValidateSafety_def recoveryLoop_eq Let_def SlotCount_def hasRecovery_def)

end
