(* ===== verification/Test_Vectors.thy ===== *)
theory Test_Vectors
  imports Recovery Ykman
begin

text \<open>
  Published test vectors and samples of the repository's tests, evaluated on the executable
  definitions: SHA-256 (FIPS 180-4), base32 without padding (RFC 4648), and the
  processing of the output of \<open>ykman\<close>.
\<close>

lemma sha256_abc:
  "sha256 (ascii ''abc'') =
     [186, 120, 22, 191, 143, 1, 207, 234, 65, 65, 64, 222, 93, 174, 34, 35, 176, 3, 97, 163,
     150, 23, 122, 156, 180, 16, 255, 97, 242, 0, 21, 173]"
  by code_simp

lemma base32_foobar:
  "b32_Encode (ascii ''foobar'') = ascii ''MZXW6YTBOI''"
  "b32_Decode (ascii ''MZXW6YTBOI'') = (ascii ''foobar'', True)"
  "b32_Decode (ascii ''MZXW6YTB1I'') = (ascii ''fooba'', False)"
  by code_simp+

lemma ykman_output_sample:
  "responseHex (ascii ''Touch your YubiKey... 00112233445566778899AABBCCDDEEFF00112233'') =
     Some (ascii ''00112233445566778899aabbccddeeff00112233'')"
  by code_simp

end
