(* ===== verification/Sharing.thy ===== *)
theory Sharing
  imports World
begin

text \<open>
  One \<open>SecureBytes\<close> shared by any number of goroutines: \<open>Use\<close>, \<open>Len\<close> and \<open>Destroy\<close> of
  \<open>securebytes.go\<close> as small steps under the container's mutex, interleaved in any order. The
  callback of a \<open>Use\<close> accesses the buffer a given number of times, reading it and writing what it
  likes into it, and may panic at any point. The lemmas say what the
  callbacks can see, what \<open>Destroy\<close> promises, and that nobody waits for ever.
\<close>

section \<open>The state and its steps\<close>

datatype gop = OpUse nat | OpLen | OpDestroy

datatype gresult = ROk | RPanic | RDestroyed | RLen nat | RErr nat

text \<open>
  Where a goroutine stands: before \<open>mu.Lock()\<close>; at the test of \<open>destroyed\<close>; in the callback with some
  accesses left; in the wiping loop at an index; between \<open>munlockFn\<close> and \<open>destroyed = true\<close>; between
  that and \<open>buf = nil\<close>; at the deferred \<open>mu.Unlock()\<close> with its result.
\<close>

datatype gpc =
    Idle
  | Entering gop
  | Checking gop
  | Using nat
  | Wiping nat
  | Marking "nat option"
  | Clearing "nat option"
  | Leaving gop gresult

text \<open>
  The fields \<open>mu\<close>, \<open>destroyed\<close> and \<open>buf\<close> of the container (\<open>cnil\<close>: \<open>buf\<close> is \<open>nil\<close>), the storage
  \<open>buf\<close> pointed to, which outlives it, and the goroutines.
\<close>

record cell =
  mu :: "nat option"
  cdestroyed :: bool
  cnil :: bool
  cmem :: bytes
  pcs :: "nat \<Rightarrow> gpc"

definition newCell :: "bytes \<Rightarrow> cell" where
  "newCell b = \<lparr>mu = None, cdestroyed = False, cnil = False, cmem = b, pcs = (\<lambda>_. Idle)\<rparr>"

datatype label =
    Call (who: nat) gop
  | Tau (who: nat)
  | Access (who: nat) bytes bytes         \<comment> \<open>what the callback read, and left behind\<close>
  | Return (who: nat) gop gresult

text \<open>\<open>len(sb.buf)\<close>: 0 once \<open>buf\<close> is \<open>nil\<close>.\<close>

definition bufLen :: "cell \<Rightarrow> nat" where
  "bufLen s = (if cnil s then 0 else length (cmem s))"

abbreviation go :: "cell \<Rightarrow> nat \<Rightarrow> gpc \<Rightarrow> cell" where
  "go s t p \<equiv> s\<lparr>pcs := (pcs s)(t := p)\<rparr>"

inductive gostep :: "cell \<Rightarrow> label \<Rightarrow> cell \<Rightarrow> bool" where
  call: "pcs s t = Idle \<Longrightarrow> gostep s (Call t op) (go s t (Entering op))"
| lock: "pcs s t = Entering op \<Longrightarrow> mu s = None \<Longrightarrow>
    gostep s (Tau t) ((go s t (Checking op))\<lparr>mu := Some t\<rparr>)"
| use_refused: "pcs s t = Checking (OpUse n) \<Longrightarrow> cdestroyed s \<Longrightarrow>
    gostep s (Tau t) (go s t (Leaving (OpUse n) RDestroyed))"
| use_enter: "pcs s t = Checking (OpUse n) \<Longrightarrow> \<not> cdestroyed s \<Longrightarrow> gostep s (Tau t) (go s t (Using n))"
| use_access: "pcs s t = Using (Suc n) \<Longrightarrow> \<not> cnil s \<Longrightarrow> length new = length (cmem s) \<Longrightarrow>
    gostep s (Access t (cmem s) new) ((go s t (Using n))\<lparr>cmem := new\<rparr>)"
| use_done: "pcs s t = Using 0 \<Longrightarrow> gostep s (Tau t) (go s t (Leaving (OpUse 0) ROk))"
| use_panic: "pcs s t = Using n \<Longrightarrow> gostep s (Tau t) (go s t (Leaving (OpUse n) RPanic))"
| len: "pcs s t = Checking OpLen \<Longrightarrow>
    gostep s (Tau t) (go s t (Leaving OpLen (RLen (if cdestroyed s then 0 else bufLen s))))"
| destroy_again: "pcs s t = Checking OpDestroy \<Longrightarrow> cdestroyed s \<Longrightarrow>
    gostep s (Tau t) (go s t (Leaving OpDestroy ROk))"
| destroy_start: "pcs s t = Checking OpDestroy \<Longrightarrow> \<not> cdestroyed s \<Longrightarrow> gostep s (Tau t) (go s t (Wiping 0))"
| wipe: "pcs s t = Wiping i \<Longrightarrow> i < bufLen s \<Longrightarrow>
    gostep s (Tau t) ((go s t (Wiping (Suc i)))\<lparr>cmem := (cmem s)[i := 0]\<rparr>)"
| munlock: "pcs s t = Wiping i \<Longrightarrow> bufLen s \<le> i \<Longrightarrow> gostep s (Tau t) (go s t (Marking r))"
| mark: "pcs s t = Marking r \<Longrightarrow> gostep s (Tau t) ((go s t (Clearing r))\<lparr>cdestroyed := True\<rparr>)"
| clear: "pcs s t = Clearing r \<Longrightarrow> gostep s (Tau t)
    ((go s t (Leaving OpDestroy (case r of None \<Rightarrow> ROk | Some n \<Rightarrow> RErr n)))\<lparr>cnil := True\<rparr>)"
| unlock: "pcs s t = Leaving op r \<Longrightarrow> gostep s (Return t op r) ((go s t Idle)\<lparr>mu := None\<rparr>)"

inductive run :: "cell \<Rightarrow> label list \<Rightarrow> cell \<Rightarrow> bool" where
  run_nil: "run s [] s"
| run_step: "gostep s l u \<Longrightarrow> run u ls v \<Longrightarrow> run s (l # ls) v"


section \<open>The invariant\<close>

fun critical :: "gpc \<Rightarrow> bool" where
  "critical Idle = False"
| "critical (Entering op) = False"
| "critical _ = True"

text \<open>What a goroutine in its critical section knows of the container.\<close>

fun knows :: "cell \<Rightarrow> gpc \<Rightarrow> bool" where
  "knows s (Using n) \<longleftrightarrow> \<not> cdestroyed s \<and> \<not> cnil s"
| "knows s (Wiping i) \<longleftrightarrow> \<not> cdestroyed s \<and> \<not> cnil s \<and> (\<forall>j < i. j < length (cmem s) \<longrightarrow> cmem s ! j = 0)"
| "knows s (Marking r) \<longleftrightarrow> \<not> cdestroyed s \<and> wiped (cmem s)"
| "knows s (Clearing r) \<longleftrightarrow> cdestroyed s"
| "knows s (Checking op) \<longleftrightarrow> cnil s = cdestroyed s"
| "knows s (Leaving op r) \<longleftrightarrow> cnil s = cdestroyed s \<and> (op = OpDestroy \<longrightarrow> cdestroyed s)"
| "knows s _ \<longleftrightarrow> True"

definition cell_inv :: "cell \<Rightarrow> bool" where
  "cell_inv s \<longleftrightarrow>
     (\<forall>t. critical (pcs s t) \<longleftrightarrow> mu s = Some t) \<and> (\<forall>t. knows s (pcs s t)) \<and>
     (mu s = None \<longrightarrow> cnil s = cdestroyed s) \<and> (cdestroyed s \<longrightarrow> wiped (cmem s))"

lemma cell_invD:
  assumes "cell_inv s"
  shows "critical (pcs s t) \<longleftrightarrow> mu s = Some t" and "knows s (pcs s t)"
    and "cdestroyed s \<Longrightarrow> wiped (cmem s)"
  using assms by (auto simp: cell_inv_def)

lemma knows_outside: "\<not> critical p \<Longrightarrow> knows s p"
  by (cases p) auto

lemma knows_frame [simp]:
  "knows (s\<lparr>pcs := f\<rparr>) p = knows s p" "knows (s\<lparr>mu := m\<rparr>) p = knows s p"
  by (cases p, auto)+

text \<open>
  A step of the holder, or one that takes or gives back the lock: the other goroutines are outside.
\<close>

lemma cell_inv_step:
  assumes "cell_inv s" and "critical (pcs s t)"
    and "pcs s' = (pcs s)(t := p)" and "mu s' = (if critical p then Some t else None)"
    and "knows s' p" and "cdestroyed s' \<Longrightarrow> wiped (cmem s')" and "\<not> critical p \<Longrightarrow> cnil s' = cdestroyed s'"
  shows "cell_inv s'"
proof -
  have t: "mu s = Some t" using cell_invD(1) [OF assms(1)] assms(2) by simp
  have out: "\<not> critical (pcs s u)" if "u \<noteq> t" for u
    using assms(1) t that unfolding cell_inv_def by (metis option.inject)
  then show ?thesis
    unfolding cell_inv_def assms(3) using assms(4-7) by (auto intro: knows_outside split: if_splits)
qed

lemma wiped_nth: "(\<forall>j < length b. b ! j = 0) \<longleftrightarrow> wiped b"
  unfolding wiped_def by (metis in_set_conv_nth)

lemma gostep_inv: "gostep s l s' \<Longrightarrow> cell_inv s \<Longrightarrow> cell_inv s'"
proof (induction rule: gostep.induct)
  case (call s t op)
  then show ?case using cell_invD(1) [of s t] by (auto simp: cell_inv_def)
next
  case (lock s t op)
  have out: "\<not> critical (pcs s u)" for u using cell_invD(1) [OF lock(3), of u] lock(2) by simp
  have n: "cnil s = cdestroyed s" and w: "cdestroyed s \<longrightarrow> wiped (cmem s)"
    using lock(2,3) by (simp_all add: cell_inv_def)
  let ?s' = "(go s t (Checking op))\<lparr>mu := Some t\<rparr>"
  have "critical (pcs ?s' u) \<longleftrightarrow> mu ?s' = Some u" for u using out [of u] by auto
  moreover have "knows ?s' (pcs ?s' u)" for u
  proof (cases "u = t")
    case False
    then show ?thesis using out [of u] by (simp add: knows_outside)
  qed (use n in simp)
  moreover have "mu ?s' \<noteq> None" "cdestroyed ?s' \<longrightarrow> wiped (cmem ?s')" using w by simp_all
  ultimately show ?case unfolding cell_inv_def by blast
next
  case (use_refused s t n)
  then show ?case using cell_invD(1,2) [of s t] cell_invD(3) [of s] by - (rule cell_inv_step [of s t], auto)
next
  case (use_enter s t n)
  then show ?case using cell_invD(1,2) [of s t] cell_invD(3) [of s] by - (rule cell_inv_step [of s t], auto)
next
  case (use_access s t n new)
  then show ?case using cell_invD(1,2) [of s t] by - (rule cell_inv_step [of s t], auto)
next
  case (use_done s t)
  then show ?case using cell_invD(1,2) [of s t] cell_invD(3) [of s] by - (rule cell_inv_step [of s t], auto)
next
  case (use_panic s t n)
  then show ?case using cell_invD(1,2) [of s t] cell_invD(3) [of s] by - (rule cell_inv_step [of s t], auto)
next
  case (len s t)
  then show ?case using cell_invD(1,2) [of s t] cell_invD(3) [of s] by - (rule cell_inv_step [of s t], auto)
next
  case (destroy_again s t)
  then show ?case using cell_invD(1,2) [of s t] cell_invD(3) [of s] by - (rule cell_inv_step [of s t], auto)
next
  case (destroy_start s t)
  then show ?case using cell_invD(1,2) [of s t] by - (rule cell_inv_step [of s t], auto)
next
  case (wipe s t i)
  then show ?case using cell_invD(1,2) [of s t]
    by - (rule cell_inv_step [of s t], auto simp: bufLen_def nth_list_update less_Suc_eq)
next
  case (munlock s t i r)
  then have "\<not> cdestroyed s \<and> (\<forall>j < length (cmem s). cmem s ! j = 0)"
    using cell_invD(1,2) [of s t] by (auto simp: bufLen_def)
  with munlock show ?case using cell_invD(1) [of s t] by - (rule cell_inv_step [of s t], auto simp: wiped_nth)
next
  case (mark s t r)
  then show ?case using cell_invD(1,2) [of s t] by - (rule cell_inv_step [of s t], auto)
next
  case (clear s t r)
  then show ?case using cell_invD(1,2) [of s t] cell_invD(3) [of s] by - (rule cell_inv_step [of s t], auto)
next
  case (unlock s t op r)
  then show ?case using cell_invD(1,2) [of s t] cell_invD(3) [of s] by - (rule cell_inv_step [of s t], auto)
qed

lemma newCell_inv: "cell_inv (newCell b)"
  by (simp add: cell_inv_def newCell_def)

lemma run_inv: "run s ls s' \<Longrightarrow> cell_inv s \<Longrightarrow> cell_inv s'"
  by (induction rule: run.induct) (auto intro: gostep_inv)


lemma newCell_simps [simp]:
  "pcs (newCell b) t = Idle" "mu (newCell b) = None" "cmem (newCell b) = b"
  "\<not> cdestroyed (newCell b)" "\<not> cnil (newCell b)"
  by (simp_all add: newCell_def)

lemma bufLen_le: "bufLen s \<le> length (cmem s)"
  by (simp add: bufLen_def)

inductive_simps run_Nil [simp]: "run s [] v"
inductive_simps run_Cons [simp]: "run s (l # ls) v"

lemma run_append: "run s (xs @ ys) v \<longleftrightarrow> (\<exists>u. run s xs u \<and> run u ys v)"
  by (induction xs arbitrary: s) (simp_all, blast)

text \<open>A step moves one goroutine, the one its label names.\<close>

lemma gostep_frame: "gostep s l s' \<Longrightarrow> u \<noteq> who l \<Longrightarrow> pcs s' u = pcs s u"
  by (induction rule: gostep.induct) auto

section \<open>What the callbacks see\<close>

text \<open>The accesses of a run, in order, and those that fit together: each reads what the last one left.\<close>

fun accesses :: "label list \<Rightarrow> (bytes \<times> bytes) list" where
  "accesses [] = []"
| "accesses (Access t old new # ls) = (old, new) # accesses ls"
| "accesses (_ # ls) = accesses ls"

fun linked :: "bytes \<Rightarrow> (bytes \<times> bytes) list \<Rightarrow> bool" where
  "linked b [] \<longleftrightarrow> True"
| "linked b ((old, new) # as) \<longleftrightarrow> old = b \<and> linked new as"

text \<open>From the first byte wiped on, there is no access any more.\<close>

fun wiping :: "gpc \<Rightarrow> bool" where
  "wiping (Wiping i) = True"
| "wiping (Marking r) = True"
| "wiping (Clearing r) = True"
| "wiping _ = False"

definition dying :: "cell \<Rightarrow> bool" where
  "dying s \<longleftrightarrow> cdestroyed s \<or> (\<exists>t. wiping (pcs s t))"

lemma wiping_critical: "wiping p \<Longrightarrow> critical p"
  by (cases p) auto

lemma dying_other:
  assumes "cell_inv s" "dying s" "\<not> cdestroyed s" "critical (pcs s t)"
  shows "wiping (pcs s t)"
  using assms cell_invD(1) [OF assms(1)] wiping_critical unfolding dying_def
  by (metis option.inject)

lemma dying_using:
  assumes "cell_inv s" "dying s" shows "pcs s t \<noteq> Using n"
  using dying_other [OF assms, of t] cell_invD(2) [OF assms(1), of t] by auto

lemma gostep_destroyed: "gostep s l s' \<Longrightarrow> cdestroyed s \<Longrightarrow> cdestroyed s'"
  by (induction rule: gostep.induct) auto

lemma gostep_wiping: "gostep s l s' \<Longrightarrow> wiping (pcs s (who l)) \<Longrightarrow> cell_inv s \<Longrightarrow> dying s'"
proof (induction rule: gostep.induct)
  case (clear s t r)
  then show ?case using cell_invD(2) [of s t] by (simp add: dying_def)
qed (auto simp: dying_def)

lemma gostep_dying:
  assumes "gostep s l s'" "cell_inv s" "dying s" shows "dying s'"
proof (cases "cdestroyed s")
  case True
  then show ?thesis using gostep_destroyed [OF assms(1)] by (simp add: dying_def)
next
  case False
  then obtain t where t: "wiping (pcs s t)" using assms(3) by (auto simp: dying_def)
  show ?thesis
  proof (cases "t = who l")
    case True
    then show ?thesis using gostep_wiping [OF assms(1)] t assms(2) by simp
  next
    case False
    then have "wiping (pcs s' t)" using gostep_frame [OF assms(1) False] t by simp
    then show ?thesis unfolding dying_def by blast
  qed
qed

lemma gostep_mem:
  "gostep s l s' \<Longrightarrow> \<not> wiping (pcs s (who l)) \<Longrightarrow>
    cmem s' = (case l of Access t old new \<Rightarrow> new | _ \<Rightarrow> cmem s) \<and>
    (case l of Access t old new \<Rightarrow> old = cmem s | _ \<Rightarrow> True)"
  by (induction rule: gostep.induct) auto

inductive_cases gostep_accessE: "gostep s (Access t old new) s'"

lemma dying_no_access: "run s ls s' \<Longrightarrow> cell_inv s \<Longrightarrow> dying s \<Longrightarrow> accesses ls = []"
proof (induction rule: run.induct)
  case (run_step s l u ls v)
  have "accesses ls = []" using run_step gostep_inv gostep_dying by blast
  moreover have "l \<noteq> Access t old new" for t old new
    using run_step(1) dying_using [OF run_step(4,5)] by (auto elim: gostep_accessE)
  ultimately show ?case by (cases l) auto
qed simp

lemma accesses_linked:
  "run s ls s' \<Longrightarrow> cell_inv s \<Longrightarrow> \<not> dying s \<Longrightarrow> linked (cmem s) (accesses ls)"
proof (induction rule: run.induct)
  case (run_step s l u ls v)
  note u = gostep_inv [OF run_step(1,4)]
  have m: "cmem u = (case l of Access t old new \<Rightarrow> new | _ \<Rightarrow> cmem s)"
    "case l of Access t old new \<Rightarrow> old = cmem s | _ \<Rightarrow> True"
    using gostep_mem [OF run_step(1)] run_step(5) by (auto simp: dying_def)
  have "linked (cmem u) (accesses ls)"
    using run_step.IH [OF u] dying_no_access [OF run_step(2) u] by (cases "dying u") auto
  with m show ?case by (cases l) auto
qed simp


section \<open>After Destroy\<close>

text \<open>What an operation that enters a destroyed container returns, and the states it passes.\<close>

fun refusal :: "gop \<Rightarrow> gresult" where
  "refusal (OpUse n) = RDestroyed"
| "refusal OpLen = RLen 0"
| "refusal OpDestroy = ROk"

fun late :: "gpc \<Rightarrow> bool" where
  "late (Leaving op r) \<longleftrightarrow> r = refusal op"
| "late (Checking op) \<longleftrightarrow> True"
| "late p \<longleftrightarrow> \<not> critical p"

lemma outside_late: "\<not> critical p \<Longrightarrow> late p"
  by (cases p) auto

lemma gostep_late: "gostep s l s' \<Longrightarrow> cdestroyed s \<Longrightarrow> late (pcs s (who l)) \<Longrightarrow> late (pcs s' (who l))"
  by (induction rule: gostep.induct) auto

lemma gostep_return: "gostep s l s' \<Longrightarrow> late (pcs s (who l)) \<Longrightarrow>
    case l of Return t op r \<Rightarrow> r = refusal op | _ \<Rightarrow> True"
  by (induction rule: gostep.induct) auto

definition dead :: "cell \<Rightarrow> bool" where
  "dead s \<longleftrightarrow> cdestroyed s \<and> (\<forall>t. late (pcs s t))"

lemma gostep_dead: "gostep s l s' \<Longrightarrow> dead s \<Longrightarrow> dead s'"
  using gostep_late [of s l s'] gostep_frame [of s l s'] gostep_destroyed [of s l s']
  unfolding dead_def by metis

lemma run_dead:
  "run s ls s' \<Longrightarrow> dead s \<Longrightarrow> dead s' \<and> (\<forall>t op r. Return t op r \<in> set ls \<longrightarrow> r = refusal op)"
proof (induction rule: run.induct)
  case (run_step s l u ls v)
  have "case l of Return t op r \<Rightarrow> r = refusal op | _ \<Rightarrow> True"
    using gostep_return [OF run_step(1)] run_step.prems by (simp add: dead_def)
  with run_step.IH gostep_dead [OF run_step(1) run_step.prems] show ?case by auto
qed simp

inductive_cases gostep_returnE: "gostep s (Return t op r) s'"

lemma destroy_dead:
  assumes "gostep s (Return t OpDestroy r) s'" "cell_inv s" shows "dead s'"
proof -
  have t: "pcs s t = Leaving OpDestroy r" and s': "s' = (go s t Idle)\<lparr>mu := None\<rparr>"
    using assms(1) by (auto elim: gostep_returnE)
  have "cdestroyed s" using cell_invD(2) [OF assms(2), of t] t by simp
  moreover have "late (pcs s' u)" for u
  proof (rule outside_late)
    show "\<not> critical (pcs s' u)"
      using cell_invD(1) [OF gostep_inv [OF assms], of u] s' by simp
  qed
  ultimately show ?thesis by (simp add: dead_def s')
qed


section \<open>No deadlock, and an end\<close>

text \<open>
  The steps a goroutine has left at most, in a container of \<open>m\<close> bytes, and of all goroutines that
  have an operation under way.
\<close>

fun gwork :: "nat \<Rightarrow> gpc \<Rightarrow> nat" where
  "gwork m Idle = 0"
| "gwork m (Leaving op r) = 1"
| "gwork m (Clearing r) = 2"
| "gwork m (Marking r) = 3"
| "gwork m (Wiping i) = 4 + (m - i)"
| "gwork m (Using n) = 2 + n"
| "gwork m (Checking (OpUse n)) = 3 + n"
| "gwork m (Checking OpLen) = 2"
| "gwork m (Checking OpDestroy) = 5 + m"
| "gwork m (Entering (OpUse n)) = 4 + n"
| "gwork m (Entering OpLen) = 3"
| "gwork m (Entering OpDestroy) = 6 + m"

definition busy :: "cell \<Rightarrow> nat set" where
  "busy s = {t. pcs s t \<noteq> Idle}"

definition cwork :: "cell \<Rightarrow> nat" where
  "cwork s = (\<Sum>t \<in> busy s. gwork (length (cmem s)) (pcs s t))"

fun isCall :: "label \<Rightarrow> bool" where
  "isCall (Call t op) = True"
| "isCall _ = False"

lemma gwork_entering: "gwork m (Entering op) = Suc (gwork m (Checking op))"
  by (cases op) auto

lemma gostep_length: "gostep s l s' \<Longrightarrow> length (cmem s') = length (cmem s)"
  by (induction rule: gostep.induct) auto

lemma gostep_gwork: "gostep s l s' \<Longrightarrow> \<not> isCall l \<Longrightarrow>
    gwork (length (cmem s)) (pcs s' (who l)) < gwork (length (cmem s)) (pcs s (who l))"
proof (induction rule: gostep.induct)
  case (wipe s t i)
  then show ?case using bufLen_le [of s] by simp
qed (simp_all add: gwork_entering)

lemma busy_step: "gostep s l s' \<Longrightarrow> busy s' \<subseteq> insert (who l) (busy s)"
  using gostep_frame [of s l s'] by (auto simp: busy_def)

lemma run_busy: "run s ls s' \<Longrightarrow> finite (busy s) \<Longrightarrow> finite (busy s')"
  by (induction rule: run.induct) (auto dest: busy_step intro: finite_subset)

lemma cwork_over: "busy s \<subseteq> T \<Longrightarrow> finite T \<Longrightarrow> cwork s = (\<Sum>t \<in> T. gwork (length (cmem s)) (pcs s t))"
  unfolding cwork_def by (rule sum.mono_neutral_left) (auto simp: busy_def)

lemma gostep_cwork:
  assumes "gostep s l s'" "\<not> isCall l" "finite (busy s)" shows "cwork s' < cwork s"
proof -
  let ?T = "insert (who l) (busy s)" and ?m = "length (cmem s)"
  have T: "finite ?T" using assms(3) by simp
  have "cwork s' = (\<Sum>t \<in> ?T. gwork ?m (pcs s' t))"
    using cwork_over [OF busy_step [OF assms(1)] T] gostep_length [OF assms(1)] by simp
  also have "\<dots> < (\<Sum>t \<in> ?T. gwork ?m (pcs s t))"
  proof (rule sum_strict_mono_ex1 [OF T])
    show "\<forall>t \<in> ?T. gwork ?m (pcs s' t) \<le> gwork ?m (pcs s t)"
      using gostep_gwork [OF assms(1,2)] gostep_frame [OF assms(1)] by (metis le_refl less_imp_le)
    show "\<exists>t \<in> ?T. gwork ?m (pcs s' t) < gwork ?m (pcs s t)"
      using gostep_gwork [OF assms(1,2)] by auto
  qed
  also have "\<dots> = cwork s" using cwork_over [OF subset_insertI T] by simp
  finally show ?thesis .
qed

lemma run_cwork:
  "run s ls s' \<Longrightarrow> finite (busy s) \<Longrightarrow> \<not> list_ex isCall ls \<Longrightarrow> length ls + cwork s' \<le> cwork s"
proof (induction rule: run.induct)
  case (run_step s l u ls v)
  have f: "finite (busy u)" using run_busy [of s "[l]" u] run_step by auto
  have "cwork u < cwork s" using gostep_cwork run_step by simp
  with run_step.IH [OF f] run_step.prems show ?case by simp
qed simp

text \<open>The goroutine that can move: the holder of the mutex, or anyone waiting for a free one.\<close>

definition steps :: "cell \<Rightarrow> bool" where
  "steps s \<longleftrightarrow> (\<exists>l u. gostep s l u \<and> \<not> isCall l)"

lemma stepsI: "gostep s l u \<Longrightarrow> \<not> isCall l \<Longrightarrow> steps s"
  by (auto simp: steps_def)

lemma holder_steps:
  assumes "cell_inv s" "pcs s t = p" "critical p" shows "steps s"
proof (cases p)
  case (Checking op)
  with assms show ?thesis
    by (cases op; cases "cdestroyed s")
      (auto intro: stepsI [OF use_refused] stepsI [OF use_enter] stepsI [OF len]
        stepsI [OF destroy_again] stepsI [OF destroy_start])
next
  case (Wiping i)
  with assms show ?thesis
    by (cases "i < bufLen s") (auto intro: stepsI [OF wipe] stepsI [OF munlock])
qed (use assms in \<open>auto intro: stepsI [OF use_panic] stepsI [OF mark] stepsI [OF clear] stepsI [OF unlock]\<close>)

lemma cell_progress:
  assumes "cell_inv s" "busy s \<noteq> {}" shows "steps s"
proof (cases "mu s")
  case None
  obtain t where t: "pcs s t \<noteq> Idle" using assms(2) by (auto simp: busy_def)
  have "\<not> critical (pcs s t)" using cell_invD(1) [OF assms(1), of t] None by simp
  with t obtain op where "pcs s t = Entering op" by (cases "pcs s t") auto
  with None show ?thesis by (auto intro: stepsI [OF lock])
next
  case (Some t)
  then show ?thesis using cell_invD(1) [OF assms(1), of t] holder_steps [OF assms(1) refl] by simp
qed

lemma cell_completes:
  "cell_inv s \<Longrightarrow> finite (busy s) \<Longrightarrow> \<exists>ls u. run s ls u \<and> \<not> list_ex isCall ls \<and> busy u = {}"
proof (induction "cwork s" arbitrary: s rule: less_induct)
  case less
  show ?case
  proof (cases "busy s = {}")
    case True
    then show ?thesis by (intro exI [of _ "[]"]) simp
  next
    case False
    then obtain l u where l: "gostep s l u" "\<not> isCall l"
      using cell_progress [OF less(2)] by (auto simp: steps_def)
    have u: "cell_inv u" "finite (busy u)" "cwork u < cwork s"
      using gostep_inv l less(2,3) run_busy [of s "[l]" u] gostep_cwork by auto
    obtain ls v where "run u ls v" "\<not> list_ex isCall ls" "busy v = {}"
      using less(1) [OF u(3,1,2)] by auto
    with l have "run s (l # ls) v" "\<not> list_ex isCall (l # ls)" by auto
    with \<open>busy v = {}\<close> show ?thesis by blast
  qed
qed


section \<open>The properties\<close>

text \<open>
  A run of two goroutines on a container of one byte: 0 uses it and changes its byte while 1 waits to
  destroy it; a later use is refused.
\<close>

definition demoUse :: "label list" where
  "demoUse = [Call 0 (OpUse (Suc 0)), Call 1 OpDestroy, Tau 0, Tau 0, Access 0 [7] [9], Tau 0,
     Return 0 (OpUse 0) ROk]"

definition demoDestroy :: "label list" where
  "demoDestroy = [Tau 1, Tau 1, Tau 1, Tau 1, Tau 1, Tau 1]"

definition demoLate :: "label list" where
  "demoLate = [Call 0 (OpUse (Suc 0)), Tau 0, Tau 0, Return 0 (OpUse (Suc 0)) RDestroyed]"

lemma accessI:
  "pcs s t = Using (Suc n) \<Longrightarrow> \<not> cnil s \<Longrightarrow> old = cmem s \<Longrightarrow> length new = length old \<Longrightarrow>
    gostep s (Access t old new) ((go s t (Using n))\<lparr>cmem := new\<rparr>)"
  using use_access by simp

lemma demo_run:
  "\<exists>s. run (newCell [7]) (demoUse @ demoDestroy @ Return 1 OpDestroy ROk # demoLate) s \<and> cdestroyed s"
  unfolding demoUse_def demoDestroy_def demoLate_def append.simps newCell_def
  apply (rule exI, rule conjI)
   apply (rule run_step, (rule call; simp), simp del: run_Cons)
   apply (rule run_step, (rule call; simp), simp del: run_Cons)
   apply (rule run_step, (rule lock; simp), simp del: run_Cons)
   apply (rule run_step, (rule use_enter; simp), simp del: run_Cons)
   apply (rule run_step, (rule accessI; simp), simp del: run_Cons)
   apply (rule run_step, (rule use_done; simp), simp del: run_Cons)
   apply (rule run_step, (rule unlock; simp), simp del: run_Cons)
   apply (rule run_step, (rule lock; simp), simp del: run_Cons)
   apply (rule run_step, (rule destroy_start; simp), simp del: run_Cons)
   apply (rule run_step, rule wipe, simp, simp add: bufLen_def, simp del: run_Cons)
   apply (rule run_step, rule munlock [where r = None], simp, simp add: bufLen_def, simp del: run_Cons)
   apply (rule run_step, (rule mark; simp), simp del: run_Cons)
   apply (rule run_step, (rule clear; simp), simp del: run_Cons)
   apply (rule run_step, (rule unlock; simp), simp del: run_Cons)
   apply (rule run_step, (rule call; simp), simp del: run_Cons)
   apply (rule run_step, (rule lock; simp), simp del: run_Cons)
   apply (rule run_step, (rule use_refused; simp), simp del: run_Cons)
   apply (rule run_step, (rule unlock; simp), simp del: run_Cons)
  apply simp
  done

lemma busy_one: "{t::nat. t \<noteq> Suc 0 \<longrightarrow> 0 < t \<and> t = 0} = {Suc 0}"
  by auto

lemma demo_use: "\<exists>s. run (newCell [7]) demoUse s \<and> busy s = {1} \<and> cwork s = 7"
  unfolding demoUse_def newCell_def
  apply (rule exI, rule conjI)
   apply (rule run_step, (rule call; simp), simp del: run_Cons)
   apply (rule run_step, (rule call; simp), simp del: run_Cons)
   apply (rule run_step, (rule lock; simp), simp del: run_Cons)
   apply (rule run_step, (rule use_enter; simp), simp del: run_Cons)
   apply (rule run_step, (rule accessI; simp), simp del: run_Cons)
   apply (rule run_step, (rule use_done; simp), simp del: run_Cons)
   apply (rule run_step, (rule unlock; simp), simp del: run_Cons)
  apply (simp add: busy_def cwork_def busy_one)
  done

text \<open>
  C9. However \<open>Use\<close>, \<open>Len\<close> and \<open>Destroy\<close> calls of any number of goroutines interleave: at most one
  goroutine is inside the critical section; a callback runs only while the container is live and has
  its buffer; once the container counts as destroyed every byte of its storage is zero; and the
  accesses of all callbacks form one chain that starts with the payload and in which each reads what
  the last one left, so there is no torn read and no lost write.
\<close>

theorem run_exclusive:
  assumes "run (newCell b) ls s"
  shows "(\<forall>t u. critical (pcs s t) \<and> critical (pcs s u) \<longrightarrow> t = u) \<and>
    (\<forall>t n. pcs s t = Using n \<longrightarrow> \<not> cdestroyed s \<and> \<not> cnil s) \<and>
    (cdestroyed s \<longrightarrow> wiped (cmem s)) \<and> linked b (accesses ls)"
proof -
  have inv: "cell_inv s" using run_inv [OF assms newCell_inv] .
  have "t = u" if "critical (pcs s t)" "critical (pcs s u)" for t u
    using cell_invD(1) [OF inv, of t] cell_invD(1) [OF inv, of u] that by simp
  moreover have "\<not> cdestroyed s \<and> \<not> cnil s" if "pcs s t = Using n" for t n
    using cell_invD(2) [OF inv, of t] that by simp
  moreover have "\<not> dying (newCell b)" by (simp add: dying_def)
  ultimately show ?thesis
    using cell_invD(3) [OF inv] accesses_linked [OF assms newCell_inv] by auto
qed

theorem run_exclusive_witness:
  "\<exists>s. run (newCell [7]) (demoUse @ demoDestroy @ Return 1 OpDestroy ROk # demoLate) s \<and>
     cdestroyed s \<and> wiped (cmem s) \<and>
     accesses (demoUse @ demoDestroy @ Return 1 OpDestroy ROk # demoLate) = [([7], [9])] \<and>
     linked [7] [([7], [9])]"
proof -
  obtain s where s: "run (newCell [7]) (demoUse @ demoDestroy @ Return 1 OpDestroy ROk # demoLate) s"
    and "cdestroyed s" using demo_run by blast
  moreover have "accesses (demoUse @ demoDestroy @ Return 1 OpDestroy ROk # demoLate) = [([7], [9])]"
    by (simp add: demoUse_def demoDestroy_def demoLate_def)
  ultimately show ?thesis using run_exclusive [OF s] by auto
qed

text \<open>
  C10. From the moment a \<open>Destroy\<close> has returned, whatever ran before and runs after it: no callback
  touches the buffer any more, every \<open>Use\<close> that returns was refused with \<open>ErrDestroyed\<close>, every \<open>Len\<close>
  returns 0, every further \<open>Destroy\<close> returns without error, and the storage stays wiped.
\<close>

theorem Destroy_final:
  assumes "run (newCell b) (xs @ Return t OpDestroy r # ys) s"
  shows "accesses ys = [] \<and> (\<forall>u op q. Return u op q \<in> set ys \<longrightarrow> q = refusal op) \<and> wiped (cmem s)"
proof -
  obtain v w where v: "run (newCell b) xs v" and w: "gostep v (Return t OpDestroy r) w" and s: "run w ys s"
    using assms by (auto simp: run_append)
  have iv: "cell_inv v" and iw: "cell_inv w"
    using run_inv [OF v newCell_inv] gostep_inv [OF w] by auto
  have d: "dead w" using destroy_dead [OF w iv] .
  then have "dying w" by (simp add: dead_def dying_def)
  then have "accesses ys = []" by (rule dying_no_access [OF s iw])
  moreover note run_dead [OF s d] cell_invD(3) [OF run_inv [OF s iw]]
  ultimately show ?thesis by (auto simp: dead_def)
qed

theorem Destroy_final_witness:
  "\<exists>s. run (newCell [7]) (demoUse @ demoDestroy @ Return 1 OpDestroy ROk # demoLate) s \<and>
     Return 0 (OpUse (Suc 0)) RDestroyed \<in> set demoLate \<and> RDestroyed = refusal (OpUse (Suc 0)) \<and>
     accesses demoLate = [] \<and> wiped (cmem s)"
proof -
  obtain s where s: "run (newCell [7]) ((demoUse @ demoDestroy) @ Return 1 OpDestroy ROk # demoLate) s"
    using demo_run by auto
  have "Return 0 (OpUse (Suc 0)) RDestroyed \<in> set demoLate" by (simp add: demoLate_def)
  with s Destroy_final [OF s] show ?thesis by auto
qed

text \<open>
  C30. Whatever the schedule, the calls under way come to an end: from any reachable state a run
  without new calls has a bounded number of steps, it is never stuck while an operation is under way
  (so there is no deadlock, a panic of a callback included), and every operation can be brought to
  its return.
\<close>

theorem run_completes:
  assumes "run (newCell b) ls s"
  shows "(\<forall>ks u. run s ks u \<and> \<not> list_ex isCall ks \<longrightarrow>
      length ks \<le> cwork s \<and> (busy u = {} \<or> (\<exists>l v. gostep u l v \<and> \<not> isCall l))) \<and>
    (\<exists>ks u. run s ks u \<and> \<not> list_ex isCall ks \<and> busy u = {})"
proof -
  have inv: "cell_inv s" using run_inv [OF assms newCell_inv] .
  have fin: "finite (busy s)" using run_busy [OF assms] by (simp add: busy_def)
  have "length ks \<le> cwork s \<and> (busy u = {} \<or> (\<exists>l v. gostep u l v \<and> \<not> isCall l))"
    if "run s ks u" "\<not> list_ex isCall ks" for ks u
    using run_cwork [OF that(1) fin that(2)] cell_progress [OF run_inv [OF that(1) inv]]
    by (auto simp: steps_def)
  with cell_completes [OF inv fin] show ?thesis by blast
qed

theorem run_completes_witness:
  "\<exists>s ks u. run (newCell [7]) demoUse s \<and> busy s = {1} \<and> cwork s = 7 \<and>
     run s ks u \<and> \<not> list_ex isCall ks \<and> length ks \<le> 7 \<and> busy u = {}"
proof -
  obtain s where s: "run (newCell [7]) demoUse s" "busy s = {1}" "cwork s = 7"
    using demo_use by blast
  with run_completes [OF s(1)] show ?thesis by metis
qed

end
