(* ===== verification/Monitor.thy ===== *)
theory Monitor
  imports Prelude
begin

text \<open>
  An object whose operations all start with \<open>mu.Lock()\<close> and end with \<open>mu.Unlock()\<close>, used by any
  number of goroutines. Between the two an operation is a sequence of small steps on the shared
  state, and the steps of different goroutines interleave in any order. The locale \<open>monitor\<close> states
  when the small steps of an operation amount to a function of the whole operation; its lemmas say
  that every concurrent run is then the same as running the operations one after the other, in the
  order in which they return. The theory \<open>Atomic\<close> interprets it on the objects of the program.
\<close>

section \<open>Goroutines and their steps\<close>

datatype ('o, 'l, 'r) mpc =
    Outside
  | Waiting 'o                 \<comment> \<open>at \<open>mu.Lock()\<close>\<close>
  | Inside 'o 'l               \<comment> \<open>holds the lock, at the local state \<open>'l\<close>\<close>
  | Finished 'o 'r             \<comment> \<open>at the deferred \<open>mu.Unlock()\<close>\<close>

record ('s, 'o, 'l, 'r) mstate =
  holder :: "nat option"
  shared :: 's
  mpcs :: "nat \<Rightarrow> ('o, 'l, 'r) mpc"

datatype ('o, 'r) action = Invoke (actor: nat) 'o | Silent (actor: nat) | Respond (actor: nat) 'o 'r

abbreviation moves :: "('s, 'o, 'l, 'r) mstate \<Rightarrow> nat \<Rightarrow> ('o, 'l, 'r) mpc \<Rightarrow> ('s, 'o, 'l, 'r) mstate" where
  "moves m t p \<equiv> m\<lparr>mpcs := (mpcs m)(t := p)\<rparr>"

definition mstart :: "'s \<Rightarrow> ('s, 'o, 'l, 'r) mstate" where
  "mstart s = \<lparr>holder = None, shared = s, mpcs = (\<lambda>_. Outside)\<rparr>"

text \<open>
  \<open>enter op\<close> is the local state after \<open>Lock\<close>; \<open>micro\<close> makes one step and gives the next local state or
  the operation's result.
\<close>

inductive mstep :: "('o \<Rightarrow> 'l) \<Rightarrow> ('l \<Rightarrow> 's \<Rightarrow> ('l + 'r) \<times> 's) \<Rightarrow>
    ('s, 'o, 'l, 'r) mstate \<Rightarrow> ('o, 'r) action \<Rightarrow> ('s, 'o, 'l, 'r) mstate \<Rightarrow> bool"
  for enter micro where
  invoke: "mpcs m t = Outside \<Longrightarrow> mstep enter micro m (Invoke t op) (moves m t (Waiting op))"
| acquire: "mpcs m t = Waiting op \<Longrightarrow> holder m = None \<Longrightarrow>
    mstep enter micro m (Silent t) ((moves m t (Inside op (enter op)))\<lparr>holder := Some t\<rparr>)"
| work: "mpcs m t = Inside op l \<Longrightarrow> micro l (shared m) = (Inl l', s') \<Longrightarrow>
    mstep enter micro m (Silent t) ((moves m t (Inside op l'))\<lparr>shared := s'\<rparr>)"
| finish: "mpcs m t = Inside op l \<Longrightarrow> micro l (shared m) = (Inr r, s') \<Longrightarrow>
    mstep enter micro m (Silent t) ((moves m t (Finished op r))\<lparr>shared := s'\<rparr>)"
| release: "mpcs m t = Finished op r \<Longrightarrow>
    mstep enter micro m (Respond t op r) ((moves m t Outside)\<lparr>holder := None\<rparr>)"

inductive mrun :: "('o \<Rightarrow> 'l) \<Rightarrow> ('l \<Rightarrow> 's \<Rightarrow> ('l + 'r) \<times> 's) \<Rightarrow>
    ('s, 'o, 'l, 'r) mstate \<Rightarrow> ('o, 'r) action list \<Rightarrow> ('s, 'o, 'l, 'r) mstate \<Rightarrow> bool"
  for enter micro where
  mrun_nil: "mrun enter micro m [] m"
| mrun_step: "mstep enter micro m e u \<Longrightarrow> mrun enter micro u es v \<Longrightarrow> mrun enter micro m (e # es) v"

inductive_simps mrun_Nil [simp]: "mrun enter micro m [] v"
inductive_simps mrun_Cons: "mrun enter micro m (e # es) v"

text \<open>A step inside, with the outcome computed.\<close>

lemma inside_step:
  assumes "mpcs m t = Inside op l"
  shows "mstep enter micro m (Silent t)
    ((moves m t (case fst (micro l (shared m)) of Inl l' \<Rightarrow> Inside op l' | Inr r \<Rightarrow> Finished op r))
      \<lparr>shared := snd (micro l (shared m))\<rparr>)"
proof (cases "micro l (shared m)")
  case (Pair x s')
  then show ?thesis using assms by (cases x) (auto intro: work finish)
qed

lemma mrun_append:
  "mrun enter micro m xs u \<Longrightarrow> mrun enter micro u ys v \<Longrightarrow> mrun enter micro m (xs @ ys) v"
  by (induction rule: mrun.induct) (auto intro: mrun_step)

section \<open>The operations that returned, and their replay\<close>

fun responses :: "('o, 'r) action list \<Rightarrow> ('o \<times> 'r) list" where
  "responses [] = []"
| "responses (Respond t op r # es) = (op, r) # responses es"
| "responses (_ # es) = responses es"

fun replay :: "('o \<Rightarrow> 's \<Rightarrow> 'r \<times> 's) \<Rightarrow> 's \<Rightarrow> ('o \<times> 'r) list \<Rightarrow> 's \<Rightarrow> bool" where
  "replay seq s [] s' \<longleftrightarrow> s' = s"
| "replay seq s ((op, r) # xs) s' \<longleftrightarrow> fst (seq op s) = r \<and> replay seq (snd (seq op s)) xs s'"

fun inside :: "('o, 'l, 'r) mpc \<Rightarrow> bool" where
  "inside (Inside op l) = True"
| "inside (Finished op r) = True"
| "inside _ = False"

section \<open>Small steps that amount to an operation\<close>

text \<open>
  \<open>seq op\<close> is the whole operation and \<open>rest l\<close> what is left of it at the local state \<open>l\<close>.
\<close>

locale monitor =
  fixes enter :: "'o \<Rightarrow> 'l" and micro :: "'l \<Rightarrow> 's \<Rightarrow> ('l + 'r) \<times> 's"
    and seq :: "'o \<Rightarrow> 's \<Rightarrow> 'r \<times> 's" and rest :: "'l \<Rightarrow> 's \<Rightarrow> 'r \<times> 's"
  assumes at_start: "rest (enter op) s = seq op s"
    and on_step: "micro l s = (Inl l', s') \<Longrightarrow> rest l' s' = rest l s"
    and at_end: "micro l s = (Inr r, s') \<Longrightarrow> rest l s = (r, s')"
begin

text \<open>The state \<open>s\<close> that the operations returned so far would have made on their own.\<close>

definition agrees :: "'s \<Rightarrow> ('s, 'o, 'l, 'r) mstate \<Rightarrow> bool" where
  "agrees s m \<longleftrightarrow> (\<forall>t. inside (mpcs m t) \<longleftrightarrow> holder m = Some t) \<and>
     (case holder m of
        None \<Rightarrow> shared m = s
      | Some t \<Rightarrow> (case mpcs m t of
            Inside op l \<Rightarrow> rest l (shared m) = seq op s
          | Finished op r \<Rightarrow> (r, shared m) = seq op s
          | _ \<Rightarrow> True))"

definition after :: "'s \<Rightarrow> ('o, 'r) action \<Rightarrow> 's" where
  "after s e = (case e of Respond t op r \<Rightarrow> snd (seq op s) | _ \<Rightarrow> s)"

lemma agrees_start: "agrees s (mstart s)"
  by (simp add: agrees_def mstart_def)

lemma agrees_holder: "agrees s m \<Longrightarrow> inside (mpcs m t) \<Longrightarrow> holder m = Some t"
  by (simp add: agrees_def)

lemma agrees_outside: "agrees s m \<Longrightarrow> holder m \<noteq> Some t \<Longrightarrow> \<not> inside (mpcs m t)"
  by (simp add: agrees_def)

lemma agrees_elsewhere:
  assumes "agrees s m" and "\<not> inside (mpcs m t)" and "\<not> inside p"
  shows "agrees s (moves m t p)"
proof -
  have h: "inside (mpcs m u) \<longleftrightarrow> holder m = Some u" for u using assms(1) by (simp add: agrees_def)
  with assms(2) have "holder m \<noteq> Some t" by simp
  with assms h show ?thesis by (cases "holder m") (auto simp: agrees_def split: mpc.splits)
qed

lemma agrees_step:
  assumes "mstep enter micro m e u" and "agrees s m"
  shows "agrees (after s e) u \<and> (case e of Respond t op r \<Rightarrow> fst (seq op s) = r | _ \<Rightarrow> True)"
  using assms
proof (induction rule: mstep.induct)
  case (invoke m t op)
  then show ?case by (simp add: agrees_elsewhere after_def)
next
  case (acquire m t op)
  then have "\<not> inside (mpcs m u)" "shared m = s" for u by (simp_all add: agrees_def)
  then show ?case by (auto simp: agrees_def after_def at_start)
next
  case (work m t op l l' s')
  then have h: "holder m = Some t" by (intro agrees_holder) simp_all
  with work show ?case by (auto simp: agrees_def after_def on_step)
next
  case (finish m t op l r s')
  then have h: "holder m = Some t" by (intro agrees_holder) simp_all
  with finish show ?case by (auto simp: agrees_def after_def at_end)
next
  case (release m t op r)
  then have h: "holder m = Some t" by (intro agrees_holder) simp_all
  with release have "seq op s = (r, shared m)" by (simp add: agrees_def)
  with h release show ?case by (auto simp: agrees_def after_def)
qed

lemma agrees_run:
  "mrun enter micro m es u \<Longrightarrow> agrees s m \<Longrightarrow> \<exists>s'. replay seq s (responses es) s' \<and> agrees s' u"
proof (induction arbitrary: s rule: mrun.induct)
  case (mrun_step m e u es v)
  note e = agrees_step [OF mrun_step(1,4)]
  obtain s' where "replay seq (after s e) (responses es) s'" "agrees s' v"
    using mrun_step.IH e by blast
  with e show ?case by (cases e) (auto simp: after_def)
qed auto

text \<open>Every run is a sequential one, in the order of the responses.\<close>

lemma linearizable:
  assumes "mrun enter micro (mstart s) es u"
  shows "\<exists>s'. replay seq s (responses es) s' \<and> (holder u = None \<longrightarrow> shared u = s') \<and>
    (\<forall>t t'. inside (mpcs u t) \<and> inside (mpcs u t') \<longrightarrow> t = t')"
proof -
  obtain s' where s': "replay seq s (responses es) s'" "agrees s' u"
    using agrees_run [OF assms agrees_start] by blast
  then have "holder u = None \<longrightarrow> shared u = s'" by (auto simp: agrees_def)
  moreover have "t = t'" if "inside (mpcs u t)" "inside (mpcs u t')" for t t'
    using agrees_holder [OF s'(2) that(1)] agrees_holder [OF s'(2) that(2)] by simp
  with s'(1) calculation show ?thesis by (intro exI [of _ s']) blast
qed

end

section \<open>Operations that end\<close>

text \<open>Every small step brings an operation nearer to its end.\<close>

locale ending_monitor = monitor enter micro seq rest
  for enter :: "'o \<Rightarrow> 'l" and micro :: "'l \<Rightarrow> 's \<Rightarrow> ('l + 'r) \<times> 's" and seq rest +
  fixes left :: "'l \<Rightarrow> 's \<Rightarrow> nat"
  assumes shrinks: "micro l s = (Inl l', s') \<Longrightarrow> left l' s' < left l s"
begin

lemma inside_finishes:
  "mpcs m t = Inside op l \<Longrightarrow>
    \<exists>es r s'. mrun enter micro m es ((moves m t (Finished op r))\<lparr>shared := s'\<rparr>) \<and> (\<forall>e \<in> set es. e = Silent t)"
proof (induction "left l (shared m)" arbitrary: l m rule: less_induct)
  case less
  obtain x s' where x: "micro l (shared m) = (x, s')" by fastforce
  show ?case
  proof (cases x)
    case (Inr r)
    have "mstep enter micro m (Silent t) ((moves m t (Finished op r))\<lparr>shared := s'\<rparr>)"
      using less(2) x Inr by (intro finish) auto
    then have "mrun enter micro m [Silent t] ((moves m t (Finished op r))\<lparr>shared := s'\<rparr>)"
      by (rule mrun_step) (rule mrun_nil)
    then show ?thesis by (intro exI conjI) auto
  next
    case (Inl l')
    let ?u = "(moves m t (Inside op l'))\<lparr>shared := s'\<rparr>"
    have st: "mstep enter micro m (Silent t) ?u" using less(2) x Inl by (intro work) auto
    have "left l' (shared ?u) < left l (shared m)" using shrinks x Inl by simp
    from less(1) [OF this] obtain es r s'' where
      "mrun enter micro ?u es ((moves ?u t (Finished op r))\<lparr>shared := s''\<rparr>)" "\<forall>e \<in> set es. e = Silent t"
      by fastforce
    with mrun_step [OF st] have
      "mrun enter micro m (Silent t # es) ((moves m t (Finished op r))\<lparr>shared := s''\<rparr>)" by fastforce
    with \<open>\<forall>e \<in> set es. e = Silent t\<close> show ?thesis
      by (intro exI [of _ "Silent t # es"] exI [of _ r] exI [of _ s'']) simp
  qed
qed

text \<open>Whoever is inside or waiting for a free lock can be brought outside; so can everyone.\<close>

definition active :: "('s, 'o, 'l, 'r) mstate \<Rightarrow> nat set" where
  "active m = {t. mpcs m t \<noteq> Outside}"

definition quiet :: "('o, 'r) action list \<Rightarrow> bool" where
  "quiet es \<longleftrightarrow> (\<forall>t op. Invoke t op \<notin> set es)"

lemma finished_leaves:
  "mpcs m t = Finished op r \<Longrightarrow>
    mrun enter micro m [Respond t op r] ((moves m t Outside)\<lparr>holder := None\<rparr>)"
  by (rule mrun_step [OF release mrun_nil])

lemma inside_leaves:
  assumes "mpcs m t = Inside op l"
  shows "\<exists>es u. mrun enter micro m es u \<and> quiet es \<and> mpcs u = (mpcs m)(t := Outside)"
proof -
  obtain es r s' where 1: "mrun enter micro m es ((moves m t (Finished op r))\<lparr>shared := s'\<rparr>)"
    "\<forall>e \<in> set es. e = Silent t" using inside_finishes [OF assms] by blast
  let ?u = "(moves m t (Finished op r))\<lparr>shared := s'\<rparr>"
  have "mrun enter micro ?u [Respond t op r] ((moves ?u t Outside)\<lparr>holder := None\<rparr>)"
    by (rule finished_leaves) simp
  from mrun_append [OF 1(1) this] show ?thesis
    using 1(2) by (intro exI conjI) (assumption, auto simp: quiet_def)
qed

lemma one_leaves:
  assumes "agrees s m" and "active m \<noteq> {}"
  shows "\<exists>es u t. mrun enter micro m es u \<and> quiet es \<and> t \<in> active m \<and> mpcs u = (mpcs m)(t := Outside)"
proof (cases "holder m")
  case (Some t)
  then have "inside (mpcs m t)" using assms(1) unfolding agrees_def by blast
  then consider op l where "mpcs m t = Inside op l" | op r where "mpcs m t = Finished op r"
    by (cases "mpcs m t") auto
  then show ?thesis
  proof cases
    case (1 op l)
    then have "t \<in> active m" by (simp add: active_def)
    with inside_leaves [OF 1] show ?thesis by blast
  next
    case (2 op r)
    from finished_leaves [OF 2] 2 show ?thesis
      by (intro exI [of _ "[Respond t op r]"] exI [of _ t] exI conjI) (assumption, auto simp: quiet_def active_def)
  qed
next
  case None
  obtain t where t: "mpcs m t \<noteq> Outside" using assms(2) by (auto simp: active_def)
  have "\<not> inside (mpcs m t)" using agrees_outside [OF assms(1)] None by simp
  with t obtain op where op: "mpcs m t = Waiting op" by (cases "mpcs m t") auto
  let ?u = "(moves m t (Inside op (enter op)))\<lparr>holder := Some t\<rparr>"
  have a: "mstep enter micro m (Silent t) ?u" by (rule acquire [OF op None])
  have "mpcs ?u t = Inside op (enter op)" by simp
  from inside_leaves [OF this] obtain es v where
    v: "mrun enter micro ?u es v" "quiet es" "mpcs v = (mpcs m)(t := Outside)" by auto
  have "mrun enter micro m (Silent t # es) v" by (rule mrun_step [OF a v(1)])
  with v t show ?thesis
    by (intro exI [of _ "Silent t # es"] exI [of _ v] exI [of _ t]) (simp add: quiet_def active_def)
qed

lemma all_leave:
  "agrees s m \<Longrightarrow> finite (active m) \<Longrightarrow>
    \<exists>es u. mrun enter micro m es u \<and> quiet es \<and> active u = {}"
proof (induction "card (active m)" arbitrary: s m rule: less_induct)
  case less
  show ?case
  proof (cases "active m = {}")
    case True
    then show ?thesis by (intro exI [of _ "[]"]) (simp add: quiet_def)
  next
    case False
    from one_leaves [OF less(2) False] obtain es u t where
      u: "mrun enter micro m es u" "quiet es" "t \<in> active m" "mpcs u = (mpcs m)(t := Outside)" by blast
    have a: "active u = active m - {t}" using u(4) by (auto simp: active_def)
    then have "active u \<subset> active m" using u(3) by blast
    then have "card (active u) < card (active m)" by (rule psubset_card_mono [OF less(3)])
    moreover obtain s' where "agrees s' u" using agrees_run [OF u(1) less(2)] by blast
    ultimately obtain es' v where "mrun enter micro u es' v" "quiet es'" "active v = {}"
      using less(1) a less(3) by (metis finite_Diff)
    then show ?thesis using mrun_append [OF u(1)] u(2)
      by (intro exI [of _ "es @ es'"] exI [of _ v]) (simp add: quiet_def)
  qed
qed

lemma mstep_active: "mstep enter micro m e u \<Longrightarrow> active u \<subseteq> insert (actor e) (active m)"
  by (induction rule: mstep.induct) (auto simp: active_def)

lemma mrun_active: "mrun enter micro m es u \<Longrightarrow> finite (active m) \<Longrightarrow> finite (active u)"
  by (induction rule: mrun.induct) (auto dest!: mstep_active intro: finite_subset)

lemma completes:
  assumes "mrun enter micro (mstart s) es u"
  shows "\<exists>es' v. mrun enter micro u es' v \<and> (\<forall>t op. Invoke t op \<notin> set es') \<and> (\<forall>t. mpcs v t = Outside)"
proof -
  obtain s' where "agrees s' u" using agrees_run [OF assms agrees_start] by blast
  moreover have "finite (active (mstart s))" by (simp add: active_def mstart_def)
  then have "finite (active u)" by (rule mrun_active [OF assms])
  ultimately obtain es' v where "mrun enter micro u es' v" "quiet es'" "active v = {}"
    using all_leave by blast
  then show ?thesis by (auto simp: quiet_def active_def)
qed

lemma sequential:
  assumes "mrun enter micro (mstart s) es u"
  shows "(\<exists>s'. replay seq s (responses es) s' \<and> (holder u = None \<longrightarrow> shared u = s')) \<and>
    (\<exists>es' v. mrun enter micro u es' v \<and> (\<forall>t op. Invoke t op \<notin> set es') \<and> (\<forall>t. mpcs v t = Outside))"
proof
  obtain s' where "replay seq s (responses es) s'" "holder u = None \<longrightarrow> shared u = s'"
    using linearizable [OF assms] by (elim exE conjE) (rule that)
  then show "\<exists>s'. replay seq s (responses es) s' \<and> (holder u = None \<longrightarrow> shared u = s')" by (intro exI conjI)
qed (rule completes [OF assms])

end

end
