(* ===== verification/Atomic.thy ===== *)
theory Atomic
  imports Monitor Transport
begin

text \<open>
  The objects of the program that carry a mutex, as interpretations of \<open>ending_monitor\<close> on the
  sequential operations of \<open>Secure_Bytes\<close> and \<open>Transport\<close>: a \<open>SecureBytes\<close> container, a
  \<open>FakeTransport\<close>, and the \<open>sync.Once\<close> that raises the memory-lock limit. Goroutines that share one
  of them see it as if every operation ran alone.
\<close>

section \<open>A container\<close>

text \<open>
  The callback of a \<open>Use\<close> as a program over the buffer: it ends with what it keeps, panics, or
  looks at the whole buffer, may change one byte (an index out of range panics), and goes on
  according to what it saw.
\<close>

datatype callback =
    CbDone bytes
  | CbPanic
  | CbAccess "bytes \<Rightarrow> (nat \<times> u8) option" "bytes \<Rightarrow> callback"

definition cbWrite :: "addr \<Rightarrow> (bytes \<Rightarrow> (nat \<times> u8) option) \<Rightarrow> unit io" where
  "cbWrite a wr =
     bind (load a) (\<lambda>b. case wr b of
       None \<Rightarrow> ret ()
     | Some (j, v) \<Rightarrow> if j < length b then store a (b[j := v]) else throw [GoPanic])"

primrec cbRun :: "callback \<Rightarrow> addr \<Rightarrow> bytes io" where
  "cbRun (CbDone x) a = ret x"
| "cbRun CbPanic a = throw [GoPanic]"
| "cbRun (CbAccess wr k) a = bind (load a) (\<lambda>b. bind (cbWrite a wr) (\<lambda>_. cbRun (k b) a))"

datatype cop = CUse callback | CLen | CDestroy

datatype cvalue = VBytes bytes | VLen nat | VUnit

abbreviation tag :: "('a \<Rightarrow> 'b) \<Rightarrow> (gerror + 'a) \<times> world \<Rightarrow> (gerror + 'b) \<times> world" where
  "tag f \<equiv> map_prod (map_sum id f) id"

text \<open>The whole operation, as the sequential model has it.\<close>

fun cseq :: "environ \<Rightarrow> nat \<Rightarrow> cop \<Rightarrow> world \<Rightarrow> (gerror + cvalue) \<times> world" where
  "cseq X i (CUse cb) w = tag VBytes (sb_Use (Some i) (cbRun cb) w)"
| "cseq X i CLen w = tag VLen (sb_Len (Some i) w)"
| "cseq X i CDestroy w = tag (\<lambda>_. VUnit) (sb_Destroy X (Some i) w)"

text \<open>The small steps between \<open>Lock\<close> and \<open>Unlock\<close>.\<close>

datatype clocal =
    LTest cop
  | LCall callback
  | LWipe nat
  | LMunlock
  | LMark "gerror option"
  | LClear "gerror option"

definition bufAddr :: "world \<Rightarrow> nat \<Rightarrow> addr" where
  "bufAddr w i = the (sbuf (sbAt w i))"

fun refused :: "cop \<Rightarrow> gerror + cvalue" where
  "refused (CUse cb) = Inl [ErrDestroyed]"
| "refused CLen = Inr (VLen 0)"
| "refused CDestroy = Inr VUnit"

fun outcome :: "gerror option \<Rightarrow> gerror + cvalue" where
  "outcome None = Inr VUnit"
| "outcome (Some e) = Inl e"

fun cmicro :: "environ \<Rightarrow> nat \<Rightarrow> clocal \<Rightarrow> world \<Rightarrow> (clocal + (gerror + cvalue)) \<times> world" where
  "cmicro X i (LTest op) w =
     (if sdestroyed (sbAt w i) then (Inr (refused op), w)
      else case op of
        CUse cb \<Rightarrow> (Inl (LCall cb), w)
      | CLen \<Rightarrow> (Inr (Inr (VLen (length (wmem w ! bufAddr w i)))), w)
      | CDestroy \<Rightarrow> (Inl (LWipe 0), w))"
| "cmicro X i (LCall (CbDone x)) w = (Inr (Inr (VBytes x)), w)"
| "cmicro X i (LCall CbPanic) w = (Inr (Inl [GoPanic]), w)"
| "cmicro X i (LCall (CbAccess wr k)) w =
     (case cbWrite (bufAddr w i) wr w of
        (Inl e, w') \<Rightarrow> (Inr (Inl e), w')
      | (Inr _, w') \<Rightarrow> (Inl (LCall (k (wmem w ! bufAddr w i))), w'))"
| "cmicro X i (LWipe j) w =
     (let a = bufAddr w i; b = wmem w ! a in
      if j < length b then (Inl (LWipe (Suc j)), w\<lparr>wmem := (wmem w)[a := b[j := 0]]\<rparr>)
      else (Inl LMunlock, w))"
| "cmicro X i LMunlock w =
     (case munlock X (bufAddr w i) w of
        (Inl e, w') \<Rightarrow> (Inl (LMark (Some e)), w')
      | (Inr _, w') \<Rightarrow> (Inl (LMark None), w'))"
| "cmicro X i (LMark e) w =
     (Inl (LClear e), w\<lparr>wsbs := (wsbs w)[i := (sbAt w i)\<lparr>sdestroyed := True\<rparr>]\<rparr>)"
| "cmicro X i (LClear e) w =
     (Inr (outcome e), w\<lparr>wsbs := (wsbs w)[i := (sbAt w i)\<lparr>sbuf := None\<rparr>]\<rparr>)"

text \<open>What is left of an operation, and how many steps.\<close>

definition cclosed :: "nat \<Rightarrow> gerror option \<Rightarrow> world \<Rightarrow> (gerror + cvalue) \<times> world" where
  "cclosed i e w = (outcome e, w\<lparr>wsbs := (wsbs w)[i := \<lparr>sbuf = None, sdestroyed = True\<rparr>]\<rparr>)"

definition cunlocked :: "environ \<Rightarrow> nat \<Rightarrow> world \<Rightarrow> (gerror + cvalue) \<times> world" where
  "cunlocked X i w = (case munlock X (bufAddr w i) w of
      (Inl e, w') \<Rightarrow> cclosed i (Some e) w' | (Inr _, w') \<Rightarrow> cclosed i None w')"

definition wipedFrom :: "nat \<Rightarrow> bytes \<Rightarrow> bytes" where
  "wipedFrom j b = take j b @ replicate (length b - j) 0"

fun crest :: "environ \<Rightarrow> nat \<Rightarrow> clocal \<Rightarrow> world \<Rightarrow> (gerror + cvalue) \<times> world" where
  "crest X i (LTest op) w = cseq X i op w"
| "crest X i (LCall cb) w = tag VBytes (cbRun cb (bufAddr w i) w)"
| "crest X i (LWipe j) w =
     (let a = bufAddr w i in cunlocked X i (w\<lparr>wmem := (wmem w)[a := wipedFrom j (wmem w ! a)]\<rparr>))"
| "crest X i LMunlock w = cunlocked X i w"
| "crest X i (LMark e) w = cclosed i e w"
| "crest X i (LClear e) w = (outcome e, w\<lparr>wsbs := (wsbs w)[i := (sbAt w i)\<lparr>sbuf := None\<rparr>]\<rparr>)"

primrec cbSteps :: "callback \<Rightarrow> addr \<Rightarrow> world \<Rightarrow> nat" where
  "cbSteps (CbDone x) a w = 0"
| "cbSteps CbPanic a w = 0"
| "cbSteps (CbAccess wr k) a w = Suc (cbSteps (k (wmem w ! a)) a (snd (cbWrite a wr w)))"

fun cleft :: "nat \<Rightarrow> clocal \<Rightarrow> world \<Rightarrow> nat" where
  "cleft i (LTest op) w =
     (case op of CUse cb \<Rightarrow> Suc (cbSteps cb (bufAddr w i) w) | CLen \<Rightarrow> 0
      | CDestroy \<Rightarrow> length (wmem w ! bufAddr w i) + 4)"
| "cleft i (LCall cb) w = cbSteps cb (bufAddr w i) w"
| "cleft i (LWipe j) w = (length (wmem w ! bufAddr w i) - j) + 3"
| "cleft i LMunlock w = 2"
| "cleft i (LMark e) w = 1"
| "cleft i (LClear e) w = 0"

lemma bufAddr_mem [simp]: "bufAddr (w\<lparr>wmem := m\<rparr>) i = bufAddr w i"
  by (simp add: bufAddr_def sbAt_def)

lemma cbWrite_run:
  "cbWrite a wr w = (case wr (wmem w ! a) of
      None \<Rightarrow> (Inr (), w)
    | Some (j, v) \<Rightarrow> if j < length (wmem w ! a) then (Inr (), w\<lparr>wmem := (wmem w)[a := (wmem w ! a)[j := v]]\<rparr>)
        else (Inl [GoPanic], w))"
  by (auto simp: cbWrite_def bind_def load_def gets_def ret_def store_def modify_def throw_def
      split: option.splits)

lemma cbWrite_keeps: "cbWrite a wr w = (r, w') \<Longrightarrow> bufAddr w' i = bufAddr w i"
  by (auto simp: cbWrite_run split: option.splits if_splits)

lemma wiped_step: "j < length b \<Longrightarrow> wipedFrom (Suc j) (b[j := 0]) = wipedFrom j b"
  by (rule nth_equalityI) (auto simp: wipedFrom_def nth_append nth_list_update less_Suc_eq)

lemma wiped_done: "\<not> j < length b \<Longrightarrow> wipedFrom j b = b"
  by (simp add: wipedFrom_def)

lemma wiped_all: "wipedFrom 0 b = zeroed b"
  by (simp add: wipedFrom_def zeroed_def map_replicate_const)

lemma munlock_bufAddr: "munlock X a w = (r, w') \<Longrightarrow> bufAddr w' i = bufAddr w i"
  using munlock_run [of X a w r w'] by (simp add: bufAddr_def sbAt_def)

lemma wipe_update:
  assumes "j < length (m ! a)"
  shows "m[a := (m ! a)[j := 0], a := wipedFrom (Suc j) (m[a := (m ! a)[j := 0]] ! a)] =
    m[a := wipedFrom j (m ! a)]"
proof (cases "a < length m")
  case True
  then show ?thesis using wiped_step [OF assms] by simp
qed (simp add: not_less list_update_beyond)

lemma wiped_none: "\<not> j < length (m ! a) \<Longrightarrow> m[a := wipedFrom j (m ! a)] = m"
  by (simp add: wiped_done)

lemma crest_test:
  assumes "cmicro X i (LTest op) w = (r, w')"
  shows "case r of Inl l \<Rightarrow> crest X i l w' = cseq X i op w | Inr x \<Rightarrow> cseq X i op w = (x, w')"
  using assms
  by (cases op) (auto simp: sb_Use_def sb_Len_def sb_Destroy_def bufAddr_def wiped_all cunlocked_def cclosed_def
      bind_def zero_def modify_def Let_def sbAt_def split: if_splits prod.splits sum.splits)

lemma crest_access:
  assumes "cmicro X i (LCall (CbAccess wr k)) w = (r, w')"
  shows "case r of Inl l \<Rightarrow> crest X i l w' = crest X i (LCall (CbAccess wr k)) w
    | Inr x \<Rightarrow> crest X i (LCall (CbAccess wr k)) w = (x, w')"
proof -
  obtain q u where q: "cbWrite (bufAddr w i) wr w = (q, u)" by fastforce
  with assms cbWrite_keeps [OF q] show ?thesis
    by (cases q) (auto simp: bind_def load_def gets_def)
qed

lemma crest_step:
  assumes "cmicro X i l w = (r, w')"
  shows "case r of Inl l' \<Rightarrow> crest X i l' w' = crest X i l w | Inr x \<Rightarrow> crest X i l w = (x, w')"
proof (cases l)
  case (LTest op)
  then show ?thesis using crest_test [of X i op w r w'] assms by (cases r) simp_all
next
  case (LCall cb)
  then show ?thesis using crest_access [of X i] assms
    by (cases cb) (auto simp: ret_def throw_def)
next
  case (LWipe j)
  then show ?thesis using assms wipe_update [of j "wmem w" "bufAddr w i"] wiped_none [of j "wmem w" "bufAddr w i"]
    by (auto simp: Let_def split: if_splits)
next
  case LMunlock
  then show ?thesis using assms by (auto simp: cunlocked_def split: prod.splits sum.splits)
next
  case (LMark e)
  then show ?thesis using assms
    by (cases "i < length (wsbs w)"; cases "wsbs w ! i") (auto simp: cclosed_def sbAt_def not_less list_update_beyond)
next
  case (LClear e)
  then show ?thesis using assms by auto
qed

lemma cleft_step:
  assumes "cmicro X i l w = (Inl l', w')" shows "cleft i l' w' < cleft i l w"
proof (cases l)
  case (LTest op)
  then show ?thesis using assms by (cases op) (auto split: if_splits)
next
  case (LCall cb)
  then show ?thesis
  proof (cases cb)
    case (CbAccess wr k)
    obtain q u where q: "cbWrite (bufAddr w i) wr w = (q, u)" by fastforce
    with assms LCall CbAccess cbWrite_keeps [OF q] show ?thesis by (auto split: sum.splits)
  qed (use assms LCall in auto)
next
  case (LWipe j)
  then show ?thesis using assms
    by (cases "bufAddr w i < length (wmem w)") (auto simp: Let_def not_less list_update_beyond split: if_splits)
qed (use assms in \<open>auto split: prod.splits sum.splits\<close>)

interpretation container: ending_monitor LTest "cmicro X i" "cseq X i" "crest X i" "cleft i" for X i
proof unfold_locales
  fix l w r w'
  show "crest X i (LTest op) w = cseq X i op w" for op by simp
  show "crest X i l' w' = crest X i l w" if "cmicro X i l w = (Inl l', w')" for l'
    using crest_step [OF that] by simp
  show "crest X i l w = (r, w')" if "cmicro X i l w = (Inr r, w')"
    using crest_step [OF that] by simp
  show "cleft i l' w' < cleft i l w" if "cmicro X i l w = (Inl l', w')" for l'
    by (rule cleft_step [OF that])
qed

section \<open>The fake key\<close>

text \<open>
  The steps of \<open>ChallengeResponse\<close> under the mutex: the injected error, the context, the slot and its
  secret, the touch, the MAC, the count and the container. The other operations are one step.
\<close>

datatype fop = FSetSlot u8 bytes | FChallenge nat u8 bytes | FSerial nat | FPresent nat

datatype fvalue = FUnit | FPtr sbptr | FStr bytes | FBool bool

fun fseq :: "environ \<Rightarrow> nat \<Rightarrow> fop \<Rightarrow> world \<Rightarrow> (gerror + fvalue) \<times> world" where
  "fseq X f (FSetSlot slot secret) w = tag (\<lambda>_. FUnit) (SetSlot f slot secret w)"
| "fseq X f (FChallenge ctx slot chal) w = tag FPtr (Fake_ChallengeResponse X f ctx slot chal w)"
| "fseq X f (FSerial ctx) w = tag FStr (Fake_Serial f ctx w)"
| "fseq X f (FPresent ctx) w = tag FBool (Fake_Present f ctx w)"

datatype flocal =
    KEnter fop
  | KContext nat u8 bytes
  | KSlot u8 bytes
  | KTouch bytes bytes
  | KMac bytes bytes
  | KCount addr
  | KNew addr

definition proceed :: "(gerror + 'a) \<times> world \<Rightarrow> ('a \<Rightarrow> flocal) \<Rightarrow> (flocal + (gerror + fvalue)) \<times> world" where
  "proceed r k = (case r of (Inl e, w) \<Rightarrow> (Inr (Inl e), w) | (Inr x, w) \<Rightarrow> (Inl (k x), w))"

definition return :: "(gerror + fvalue) \<times> world \<Rightarrow> (flocal + (gerror + fvalue)) \<times> world" where
  "return r = (Inr (fst r), snd r)"

fun fmicro :: "environ \<Rightarrow> nat \<Rightarrow> flocal \<Rightarrow> world \<Rightarrow> (flocal + (gerror + fvalue)) \<times> world" where
  "fmicro X f (KEnter (FChallenge ctx slot chal)) w =
     (if \<not> f < length (wfakes w) then (Inr (Inl [GoPanic]), w)
      else case fErrInject (wfakes w ! f) of
        Some e \<Rightarrow> (Inr (Inl e), w)
      | None \<Rightarrow> (Inl (KContext ctx slot chal), w))"
| "fmicro X f (KEnter op) w = return (fseq X f op w)"
| "fmicro X f (KContext ctx slot chal) w = proceed (ctxCheck X ctx w) (\<lambda>_. KSlot slot chal)"
| "fmicro X f (KSlot slot chal) w =
     (if \<not> otpSlotValid slot then (Inr (Inl [ErrSlotNotConfigured]), w)
      else case fsecrets (wfakes w ! f) slot of
        None \<Rightarrow> (Inr (Inl [ErrSlotNotConfigured]), w)
      | Some secret \<Rightarrow> (Inl (KTouch secret chal), w))"
| "fmicro X f (KTouch secret chal) w =
     proceed ((if fTouchFn (wfakes w ! f) then callTouchFn X else ret ()) w) (\<lambda>_. KMac secret chal)"
| "fmicro X f (KMac secret chal) w = proceed (alloc (hmac sha1 secret chal) w) KCount"
| "fmicro X f (KCount mac) w = proceed (countTouch f w) (\<lambda>_. KNew mac)"
| "fmicro X f (KNew mac) w = return (tag FPtr (sb_New X mac w))"

definition fcount :: "environ \<Rightarrow> nat \<Rightarrow> addr \<Rightarrow> sbptr io" where
  "fcount X f mac = bind (countTouch f) (\<lambda>_. sb_New X mac)"

definition fmac :: "environ \<Rightarrow> nat \<Rightarrow> bytes \<Rightarrow> bytes \<Rightarrow> sbptr io" where
  "fmac X f secret chal = bind (alloc (hmac sha1 secret chal)) (fcount X f)"

definition ftouch :: "environ \<Rightarrow> nat \<Rightarrow> bytes \<Rightarrow> bytes \<Rightarrow> sbptr io" where
  "ftouch X f secret chal =
     (\<lambda>w. bind (if fTouchFn (wfakes w ! f) then callTouchFn X else ret ()) (\<lambda>_. fmac X f secret chal) w)"

definition fslot :: "environ \<Rightarrow> nat \<Rightarrow> u8 \<Rightarrow> bytes \<Rightarrow> sbptr io" where
  "fslot X f slot chal =
     (\<lambda>w. if \<not> otpSlotValid slot then (Inl [ErrSlotNotConfigured], w)
          else case fsecrets (wfakes w ! f) slot of
            None \<Rightarrow> (Inl [ErrSlotNotConfigured], w)
          | Some secret \<Rightarrow> ftouch X f secret chal w)"

fun frest :: "environ \<Rightarrow> nat \<Rightarrow> flocal \<Rightarrow> world \<Rightarrow> (gerror + fvalue) \<times> world" where
  "frest X f (KEnter op) w = fseq X f op w"
| "frest X f (KContext ctx slot chal) w = tag FPtr (bind (ctxCheck X ctx) (\<lambda>_. fslot X f slot chal) w)"
| "frest X f (KSlot slot chal) w = tag FPtr (fslot X f slot chal w)"
| "frest X f (KTouch secret chal) w = tag FPtr (ftouch X f secret chal w)"
| "frest X f (KMac secret chal) w = tag FPtr (fmac X f secret chal w)"
| "frest X f (KCount mac) w = tag FPtr (fcount X f mac w)"
| "frest X f (KNew mac) w = tag FPtr (sb_New X mac w)"

fun fleft :: "flocal \<Rightarrow> nat" where
  "fleft (KEnter op) = 6"
| "fleft (KContext ctx slot chal) = 5"
| "fleft (KSlot slot chal) = 4"
| "fleft (KTouch secret chal) = 3"
| "fleft (KMac secret chal) = 2"
| "fleft (KCount mac) = 1"
| "fleft (KNew mac) = 0"

lemma ctxCheck_fakes: "ctxCheck X ctx w = (r, w') \<Longrightarrow> wfakes w' = wfakes w"
  by (auto simp: ctxCheck_def Let_def split: option.splits)

lemma Fake_ChallengeResponse_steps:
  "Fake_ChallengeResponse X f ctx slot chal w =
    (if \<not> f < length (wfakes w) then (Inl [GoPanic], w)
     else case fErrInject (wfakes w ! f) of Some e \<Rightarrow> (Inl e, w)
       | None \<Rightarrow> bind (ctxCheck X ctx) (\<lambda>_. fslot X f slot chal) w)"
  by (cases "ctxCheck X ctx w")
    (auto simp: Fake_ChallengeResponse_def withFake_def bind_def fslot_def ftouch_def fmac_def fcount_def [abs_def]
      throw_def ctxCheck_fakes split: option.splits sum.splits)

lemma proceed_bind:
  assumes "proceed (m w) k = (r, w')"
  shows "case r of Inl l \<Rightarrow> \<exists>x. m w = (Inr x, w') \<and> l = k x \<and> bind m g w = g x w'
    | Inr y \<Rightarrow> \<exists>e. y = Inl e \<and> m w = (Inl e, w') \<and> bind m g w = (Inl e, w')"
  using assms by (auto simp: proceed_def bind_def split: prod.splits sum.splits)

lemma frest_step:
  assumes "fmicro X f l w = (r, w')"
  shows "case r of Inl l' \<Rightarrow> frest X f l' w' = frest X f l w | Inr y \<Rightarrow> frest X f l w = (y, w')"
proof (cases l)
  case (KEnter op)
  then show ?thesis using assms
    by (cases op) (auto simp: return_def map_prod_def case_prod_unfold Fake_ChallengeResponse_steps split: if_splits option.splits)
next
  case (KContext ctx slot chal)
  then show ?thesis using assms proceed_bind [of "ctxCheck X ctx" w "\<lambda>_. KSlot slot chal" r w' "\<lambda>_. fslot X f slot chal"]
    by (cases r) auto
next
  case (KSlot slot chal)
  then show ?thesis using assms by (auto simp: fslot_def split: if_splits option.splits)
next
  case (KTouch secret chal)
  then show ?thesis
    using assms proceed_bind [of "if fTouchFn (wfakes w ! f) then callTouchFn X else ret ()" w "\<lambda>_. KMac secret chal" r w'
        "\<lambda>_. fmac X f secret chal"]
    by (cases r) (auto simp: ftouch_def)
next
  case (KMac secret chal)
  then show ?thesis using assms proceed_bind [of "alloc (hmac sha1 secret chal)" w KCount r w' "fcount X f"]
    by (cases r) (auto simp: fmac_def)
next
  case (KCount mac)
  then show ?thesis using assms proceed_bind [of "countTouch f" w "\<lambda>_. KNew mac" r w' "\<lambda>_. sb_New X mac"]
    by (cases r) (auto simp: fcount_def)
next
  case (KNew mac)
  then show ?thesis using assms by (auto simp: return_def map_prod_def case_prod_unfold)
qed

lemma fleft_step: "fmicro X f l w = (Inl l', w') \<Longrightarrow> fleft l' < fleft l"
  by (cases "(X, f, l, w)" rule: fmicro.cases)
    (auto simp: proceed_def return_def split: if_splits option.splits prod.splits sum.splits)

interpretation fakeKey: ending_monitor KEnter "fmicro X f" "fseq X f" "frest X f" "\<lambda>l w. fleft l" for X f
proof unfold_locales
  fix l w r w'
  show "frest X f (KEnter op) w = fseq X f op w" for op by simp
  show "frest X f l' w' = frest X f l w" if "fmicro X f l w = (Inl l', w')" for l'
    using frest_step [OF that] by simp
  show "frest X f l w = (r, w')" if "fmicro X f l w = (Inr r, w')"
    using frest_step [OF that] by simp
  show "fleft l' < fleft l" if "fmicro X f l w = (Inl l', w')" for l'
    by (rule fleft_step [OF that])
qed

section \<open>The memory-lock limit\<close>

text \<open>
  \<open>sync.Once\<close>: the first caller runs the function and then marks it done; the others wait for it.
\<close>

datatype olocal = OTest | ORun | OMark

fun omicro :: "environ \<Rightarrow> olocal \<Rightarrow> world \<Rightarrow> (olocal + (gerror + unit)) \<times> world" where
  "omicro X OTest w = (if wraised w then (Inr (Inr ()), w) else (Inl ORun, w))"
| "omicro X ORun w = (Inl OMark, snd (raiseMemlockLimit X w))"
| "omicro X OMark w = (Inr (Inr ()), w\<lparr>wraised := True\<rparr>)"

fun orest :: "environ \<Rightarrow> olocal \<Rightarrow> world \<Rightarrow> (gerror + unit) \<times> world" where
  "orest X OTest w = raiseOnce X w"
| "orest X ORun w = (Inr (), (snd (raiseMemlockLimit X w))\<lparr>wraised := True\<rparr>)"
| "orest X OMark w = (Inr (), w\<lparr>wraised := True\<rparr>)"

fun oleft :: "olocal \<Rightarrow> nat" where
  "oleft OTest = 2"
| "oleft ORun = 1"
| "oleft OMark = 0"

lemma raise_mark:
  "raiseMemlockLimit X (w\<lparr>wraised := True\<rparr>) = (Inr (), (snd (raiseMemlockLimit X w))\<lparr>wraised := True\<rparr>)"
  by (auto simp: raiseMemlockLimit_def Let_def split: option.splits)

interpretation once: ending_monitor "\<lambda>_ :: unit. OTest" "omicro X" "\<lambda>_. raiseOnce X" "orest X" "\<lambda>l w. oleft l" for X
proof unfold_locales
  fix l w r w'
  show "orest X OTest w = raiseOnce X w" by simp
  show "orest X l' w' = orest X l w" if "omicro X l w = (Inl l', w')" for l'
    using that by (cases l) (auto simp: raiseOnce_def raise_mark split: if_splits)
  show "orest X l w = (r, w')" if "omicro X l w = (Inr r, w')"
    using that by (cases l) (auto simp: raiseOnce_def split: if_splits)
  show "oleft l' < oleft l" if "omicro X l w = (Inl l', w')" for l'
    using that by (cases l) (auto split: if_splits)
qed

section \<open>The properties\<close>

text \<open>
  Goroutine 0 changes the first byte of a container and takes a copy of what it saw, while 1 asks
  for its length.
\<close>

definition demoCallback :: callback where
  "demoCallback = CbAccess (\<lambda>b. Some (0, 120)) (\<lambda>b. CbDone (take 2 b))"

definition demoContainerRun :: "(cop, gerror + cvalue) action list" where
  "demoContainerRun =
     [Invoke 0 (CUse demoCallback), Invoke 1 CLen, Silent 0, Silent 0, Silent 0, Silent 0,
      Respond 0 (CUse demoCallback) (Inr (VBytes (ascii ''co''))), Silent 1, Silent 1, Respond 1 CLen (Inr (VLen 13))]"

lemma demo_container_run:
  "\<exists>m. mrun LTest (cmicro demoX 0) (mstart demoW) demoContainerRun m"
  unfolding demoContainerRun_def mstart_def demoW_def demoCallback_def
  apply (rule exI)
  apply (rule mrun_step, rule invoke, simp)
  apply (rule mrun_step, rule invoke, simp)
  apply (rule mrun_step, rule acquire, simp, simp)
  apply (rule mrun_step, rule inside_step, simp)
  apply (simp add: sbAt_def bufAddr_def cbWrite_run demoPassword_def ascii_def)
  apply (rule mrun_step, rule inside_step, simp)
  apply (simp add: sbAt_def bufAddr_def cbWrite_run demoPassword_def ascii_def)
  apply (rule mrun_step, rule inside_step, simp)
  apply (simp add: sbAt_def bufAddr_def cbWrite_run demoPassword_def ascii_def)
  apply (rule mrun_step, rule release, simp)
  apply (rule mrun_step, rule acquire, simp, simp)
  apply (rule mrun_step, rule inside_step, simp)
  apply (simp add: sbAt_def bufAddr_def cbWrite_run demoPassword_def ascii_def)
  apply (rule mrun_step, rule release, simp)
  apply (rule mrun_nil)
  done

text \<open>Goroutine 0 asks the fake key for a response of slot 1 while 1 is about to configure that slot.\<close>

definition demoFakeRun :: "(fop, gerror + fvalue) action list" where
  "demoFakeRun =
     [Invoke 0 (FChallenge 0 1 [1]), Invoke 1 (FSetSlot 1 [5]), Silent 0, Silent 0, Silent 0, Silent 0,
      Respond 0 (FChallenge 0 1 [1]) (Inl [ErrSlotNotConfigured]), Silent 1, Silent 1,
      Respond 1 (FSetSlot 1 [5]) (Inr FUnit)]"

lemma demo_fake_run: "\<exists>m. mrun KEnter (fmicro demoX 0) (mstart demoW) demoFakeRun m"
  unfolding demoFakeRun_def mstart_def demoW_def demoFake_def
  apply (rule exI)
  apply (rule mrun_step, rule invoke, simp)
  apply (rule mrun_step, rule invoke, simp)
  apply (rule mrun_step, rule acquire, simp, simp)
  apply (rule mrun_step, rule inside_step, simp)
  apply simp
  apply (rule mrun_step, rule inside_step, simp)
  apply (simp add: ctxCheck_def proceed_def demoX_def [THEN arg_cong [of _ _ x_ctxErr]])
  apply (rule mrun_step, rule inside_step, simp)
  apply (simp add: otpSlotValid_def)
  apply (rule mrun_step, rule release, simp)
  apply (rule mrun_step, rule acquire, simp, simp)
  apply (rule mrun_step, rule inside_step, simp)
  apply (simp add: return_def SetSlot_def withFake_def modify_def)
  apply (rule mrun_step, rule release, simp)
  apply (rule mrun_nil)
  done

definition demoOnceRun :: "(unit, gerror + unit) action list" where
  "demoOnceRun = [Invoke 0 (), Invoke 1 (), Silent 1, Silent 1, Silent 1, Silent 1, Respond 1 () (Inr ()),
     Silent 0, Silent 0, Respond 0 () (Inr ())]"

lemma demo_once_run:
  "\<exists>m. mrun (\<lambda>_. OTest) (omicro demoX) (mstart demoW) demoOnceRun m \<and> holder m = None"
  unfolding demoOnceRun_def mstart_def demoW_def
  apply (rule exI, rule conjI)
   apply (rule mrun_step, rule invoke, simp)
   apply (rule mrun_step, rule invoke, simp)
   apply (rule mrun_step, rule acquire, simp, simp)
   apply (rule mrun_step, rule inside_step, simp, simp)
   apply (rule mrun_step, rule inside_step, simp)
   apply (simp add: raiseMemlockLimit_def demoX_def)
   apply (rule mrun_step, rule inside_step, simp, simp)
   apply (rule mrun_step, rule release, simp)
   apply (rule mrun_step, rule acquire, simp, simp)
   apply (rule mrun_step, rule inside_step, simp, simp)
   apply (rule mrun_step, rule release, simp)
   apply (rule mrun_nil)
  apply simp
  done

text \<open>
  C5. Sharing a container is safe: however the small steps of \<open>Use\<close>, \<open>Len\<close> and \<open>Destroy\<close> calls of any
  number of goroutines interleave, callbacks that write or panic included, the results and the
  state are those of the sequential operations run one after the other in the order in which
  the calls return; and from every state all calls under way can return.
\<close>

theorem container_atomic:
  assumes "mrun LTest (cmicro X i) (mstart w) es m"
  shows "(\<exists>w'. replay (cseq X i) w (responses es) w' \<and> (holder m = None \<longrightarrow> shared m = w')) \<and>
    (\<exists>es' m'. mrun LTest (cmicro X i) m es' m' \<and> (\<forall>t op. Invoke t op \<notin> set es') \<and>
      (\<forall>t. mpcs m' t = Outside))"
  by (rule container.sequential [OF assms])

theorem container_atomic_witness:
  "\<exists>m w'. mrun LTest (cmicro demoX 0) (mstart demoW) demoContainerRun m \<and>
     replay (cseq demoX 0) demoW
       [(CUse demoCallback, Inr (VBytes (ascii ''co''))), (CLen, Inr (VLen 13))] w'"
proof -
  obtain m where m: "mrun LTest (cmicro demoX 0) (mstart demoW) demoContainerRun m"
    using demo_container_run by blast
  have "responses demoContainerRun =
      [(CUse demoCallback, Inr (VBytes (ascii ''co''))), (CLen, Inr (VLen 13))]"
    by (simp add: demoContainerRun_def)
  with container_atomic [OF m] m show ?thesis by metis
qed

text \<open>
  C31. Sharing a fake key is safe: the results and the state of any concurrent run of its operations
  are those of the sequential ones, in the order in which the calls return; and from every state
  all calls under way can return.
\<close>

theorem fake_atomic:
  assumes "mrun KEnter (fmicro X f) (mstart w) es m"
  shows "(\<exists>w'. replay (fseq X f) w (responses es) w' \<and> (holder m = None \<longrightarrow> shared m = w')) \<and>
    (\<exists>es' m'. mrun KEnter (fmicro X f) m es' m' \<and> (\<forall>t op. Invoke t op \<notin> set es') \<and>
      (\<forall>t. mpcs m' t = Outside))"
  by (rule fakeKey.sequential [OF assms])

theorem fake_atomic_witness:
  "\<exists>m w'. mrun KEnter (fmicro demoX 0) (mstart demoW) demoFakeRun m \<and>
     replay (fseq demoX 0) demoW
       [(FChallenge 0 1 [1], Inl [ErrSlotNotConfigured]), (FSetSlot 1 [5], Inr FUnit)] w'"
proof -
  obtain m where m: "mrun KEnter (fmicro demoX 0) (mstart demoW) demoFakeRun m"
    using demo_fake_run by blast
  have "responses demoFakeRun = [(FChallenge 0 1 [1], Inl [ErrSlotNotConfigured]), (FSetSlot 1 [5], Inr FUnit)]"
    by (simp add: demoFakeRun_def)
  with fake_atomic [OF m] m show ?thesis by metis
qed

lemma raiseOnce_again: "replay (\<lambda>_. raiseOnce X) w rs w' \<Longrightarrow> wraised w \<Longrightarrow> w' = w"
  by (induction rs) (auto simp: raiseOnce_def)

lemma raiseOnce_marks: "wraised (snd (raiseOnce X w))"
  by (simp add: raiseOnce_def raise_mark)

lemma raiseOnce_replay:
  "replay (\<lambda>_. raiseOnce X) w rs w' \<Longrightarrow> w' = (if rs = [] then w else snd (raiseOnce X w))"
  by (cases rs) (auto dest: raiseOnce_again [OF _ raiseOnce_marks])



end
