(* ===== verification/Spec2Isabelle.thy ===== *)
theory Spec2Isabelle
  imports Leaks Policy_Check Test_Vectors Sharing Atomic
begin

text \<open>
  \<^bold>\<open>A verification library for go-tumbler\<close>

  The program keeps one data key (the DEK) sealed in an envelope with several slots. Each slot holds
  the same key, wrapped under a key that one unlock method can derive again: a password, a YubiKey, a
  password together with a YubiKey, or a recovery code. The library models all of its Go code that
  computes: the file format, key derivation and sealing, the four methods, the envelope operations,
  the containers for secrets and the transports to a YubiKey. This theory holds the properties
  that span components; the others stand in the theory of their component.

  \<^bold>\<open>How Go is rendered.\<close> A function that changes state is an action \<open>world \<Rightarrow> (gerror + 'a) \<times> world\<close>
  (theory \<open>Prelude\<close> for the monad, \<open>World\<close> for the state). The state has every byte slice that can
  hold a secret (\<open>wmem\<close>, never shrinking: what is left there is what an attacker could find), the
  \<open>SecureBytes\<close> containers that own slices, the fake keys, and the history of requests to the
  outside. An error value is the list of sentinels that \<open>errors.Is\<close> finds in it; a panic is the
  error \<open>GoPanic\<close>, which no check for a sentinel matches. \<open>defer\<close> is \<open>deferring\<close>. Machine integers
  are words of their width (\<open>parseKDF\<close> computes in 64 bits), lengths and indices are natural
  numbers. A Go string is a list of bytes.

  \<^bold>\<open>The outside\<close> is the record \<open>environ\<close>, an argument of the definitions: system calls, the random
  source, contexts, the touch callback, the ykman process and the primitives of
  \<open>golang.org/x/crypto\<close> (Argon2, scrypt, ChaCha20-Poly1305). Answers may depend on the whole
  history, so every moment can be different. The laws relied on are named hypotheses:
  \<open>aead_correct\<close> (opening what was sealed under the same key, nonce and data gives the plaintext)
  and \<open>aead_length\<close> (a tag of 16 bytes); \<open>faults X\<close> is the set of errors the outside can give.
  SHA-1, SHA-256, HMAC, HKDF, hexadecimal and base32 belong to Go's standard library and are
  executable definitions; theory \<open>Test_Vectors\<close> evaluates some of them on published inputs. \<open>Fixtures\<close>
  has one concrete outside and state on which properties are applied.

  \<^bold>\<open>Theories and the code they model\<close>

  \<^item> \<open>Types\<close> (\<open>tumbler.go\<close>): method types, policies, algorithm identifiers, sizes.
  \<^item> \<open>Codec\<close> (\<open>envelope.go\<close>, the \<open>reader\<close>): big-endian reads and writes; the locale \<open>decoder\<close> says
    that a routine accepts exactly one set of encodings, and is closed under sequencing.
  \<^item> \<open>Kdf_Params\<close>, \<open>Kdf\<close> (\<open>kdf.go\<close>): parameters and their bounds; the derivation, and the locale
    \<open>kdf_contract\<close> that the methods rely on, interpreted on the two built-in KDFs.
  \<^item> \<open>Wire\<close> (\<open>envelope.go\<close>): slots, envelopes, \<open>marshalMeta\<close>, \<open>Marshal\<close>, \<open>ParseEnvelope\<close>. The
    accepted files are exactly the canonical encodings of admissible envelopes.
  \<^item> \<open>World\<close>, \<open>Secure_Bytes\<close> (\<open>securebytes\<close>): the memory and every operation of a container, run one
    at a time. \<open>leaves w w' K D\<close> is the frame every action is judged by: nothing that existed changed,
    the new containers are \<open>K\<close>, and the only new bytes outside containers are in the slices \<open>D\<close>.
  \<^item> \<open>Sharing\<close> (\<open>securebytes.go\<close> again): goroutines that share one container, as small steps under its
    mutex in any order, with callbacks that do anything to the buffer at any access, and panic.
  \<^item> \<open>Monitor\<close>, \<open>Atomic\<close>: any object whose operations run under one mutex, as the locale \<open>monitor\<close>
    and its extension \<open>ending_monitor\<close>, interpreted on a container, on the fake key
    (\<open>transport/fake.go\<close>) and on the \<open>sync.Once\<close> of \<open>securebytes.go\<close>. Every concurrent run gives what
    the operations of the other theories give when they run one at a time, which is why those
    theories may describe them so.
  \<^item> \<open>Contracts\<close>: what an action leaves on each outcome (\<open>act\<close>, \<open>computes\<close>), with rules for
    sequencing and for the two clean-up idioms.
  \<^item> \<open>Crypto_Std\<close>, \<open>Combine\<close> (\<open>combine.go\<close>): the factors' injective encoding (\<open>buildIKM\<close>), HKDF,
    \<open>deriveKEK\<close>, \<open>seal\<close> and \<open>open\<close>.
  \<^item> \<open>Method\<close> (\<open>method.go\<close>, \<open>GenerateDEK\<close>): options, randomness, \<open>wrapDEK\<close>, \<open>unwrapDEK\<close>, and the
    interface \<open>Method\<close> with its locale \<open>method_contract\<close>.
  \<^item> \<open>Password\<close> (\<open>password.go\<close>), \<open>Recovery\<close> (\<open>recovery.go\<close>), \<open>Yubikey\<close> (\<open>yubikey.go\<close>): the methods, each
    an interpretation of \<open>method_contract\<close>.
  \<^item> \<open>Transport\<close> (\<open>transport/transport.go\<close>, \<open>fake.go\<close>, \<open>piv.go\<close>), \<open>Ykman\<close> (\<open>ykman.go\<close>): the
    interface and its locale \<open>transport_contract\<close>, interpreted on the fake key and on ykman.
  \<^item> \<open>Envelope\<close> (\<open>envelope.go\<close>), \<open>Policy_Check\<close> (\<open>policy.go\<close>): creating, adding and removing slots,
    the effective policy, the safety report; \<open>Unlocking\<close>: the search for a slot that opens, against
    the flat search \<open>tryPairs\<close>, and the locale \<open>functional_method\<close> of methods with a known secret.
  \<^item> \<open>Session\<close>: any sequence of calls of the whole library; \<open>Leaks\<close>: the paths on which bytes of a
    secret stay in memory, each with its condition.

  \<^bold>\<open>What the lemmas show.\<close> Files: parsing and printing are inverse, truncation and extension are
  refused, each error has its cause. Keys: different factors never give the same key material, every
  metadata field is authenticated, \<open>deriveKEK\<close> computes its specification. Methods: what is enrolled
  opens with the same secrets and only a fault outside can prevent it; both factors are needed.
  Envelopes: the policy asked for is the policy there is, through every change; an unlock returns the
  first slot that opens and stops at operational errors. Memory: no operation alters a container it
  was not asked to destroy, and the operations that clean up on every path leave no secret bytes.
  Concurrency: operations of an object with a mutex take effect one at a time, in the order in
  which they return; no access after \<open>Destroy\<close>; no deadlock; calls end.

  \<^bold>\<open>Termination.\<close> Every definition is a total function, structural in a list or counting down to a
  length; no fuel is used. The steps of \<open>Sharing\<close> and \<open>Monitor\<close> are inductive relations; \<open>cwork\<close> and
  \<open>left\<close> bound how many can follow without a new call.

  \<^bold>\<open>Not modelled.\<close> The package comments (\<open>doc.go\<close>). What happens in the ykman process, its deadline and
  its pipes (the body of \<open>defaultRunner\<close>): a run is one answer of the outside. Hooks that only tests
  set, and writes by tests to the exported fields of a fake key while it is in use. The moment at
  which the garbage collector runs a finalizer: \<open>finalize\<close> is \<open>Destroy\<close>, which any goroutine may
  call at any time. Copies that Go strings and the primitives' own buffers make are values here
  and not memory. The build without memory locking is the branch \<open>x_unix X = False\<close>. Secrecy against an
  attacker who computes is a matter of the primitives and is not stated.
\<close>

section \<open>Fixtures\<close>

text \<open>A password, a data key and a recovery code, and an outside without faults.\<close>

definition demoRecoveryMethod :: RecoveryCodeMethod where
  "demoRecoveryMethod = NewRecoveryMethod (Some 2) []"

lemma demoRecoveryMethod_simps [simp]:
  "rm_code demoRecoveryMethod = Some 2" "length (rm_label demoRecoveryMethod) \<le> maxLabelLen"
  by (simp_all add: demoRecoveryMethod_def NewRecoveryMethod_def applyOptions_def ascii_def Let_def)

lemma demo_password_valid: "password_valid demoPasswordMethod demoW"
  using builtin.kdf_contract_axioms by (auto simp: password_valid_def)

lemma demo_password_contents: "contents demoW (pm_password demoPasswordMethod) = Inr demoPassword"
  by simp

lemma demo_dek_contents: "contents demoW (Some 1) = Inr demoDEK"
  by simp

lemma demo_methods_ok: "methods_ok True [password_method demoX demoPasswordMethod] demoW"
  using password.method_contract_axioms [of demoX demoPasswordMethod] demo_password_valid
  by (auto simp: methods_ok_def)

lemma demo_NewEnvelope:
  obtains e w' where "NewEnvelope demoX 0 (Some 1) PolicyPasswordOnly
    [password_method demoX demoPasswordMethod] demoW = (Inr e, w')"
proof -
  have "\<exists>e w'. NewEnvelope demoX 0 (Some 1) PolicyPasswordOnly
    [password_method demoX demoPasswordMethod] demoW = (Inr e, w')"
    by (rule password_NewEnvelope_live [OF demoW_wfw _ demoKDF_bounded demo_password_contents demo_dek_contents])
      (auto simp: not_Inl_iff)
  then show thesis using that by blast
qed

lemma aead_length_demoX: "aead_length demoX"
  by (simp add: aead_length_def demoX_aead)

section \<open>Properties\<close>





text \<open>
  C21. \<open>NewEnvelope\<close> with any methods that keep their contract: success means a data key of 1 to 240
  bytes, a valid policy, at least one method, and one complete slot per method, in order and of its
  type, that together make exactly the policy asked for; whatever happens, no container and no
  secret bytes are left behind.
\<close>

theorem NewEnvelope_spec:
  assumes "wfw w" and "validPtr w dek" and "methods_ok True ms w"
  shows "case NewEnvelope X ctx dek policy ms w of
      (Inl x, w') \<Rightarrow> leaves w w' {} {}
    | (Inr e, w') \<Rightarrow> leaves w w' {} {} \<and> ms \<noteq> [] \<and> Policy_valid policy \<and> EffectivePolicy e = policy \<and>
        PolicyHint e = policy \<and> Version e = FormatVersion \<and>
        list_all2 (\<lambda>m s. sType s = m_Type m \<and> complete s) ms (eslots e) \<and>
        (\<exists>d. contents w dek = Inr d \<and> 1 \<le> length d \<and> length d \<le> maxDEKLen)"
proof -
  have "act True (NewEnvelope X ctx dek policy ms) w
      (\<lambda>x. True \<or> newErr w dek policy ms (\<lambda>m s. sType s = m_Type m \<and> complete s) x)
      (\<lambda>e w' K D. K = {} \<and> D = {} \<and> newOk w dek policy ms (\<lambda>m s. sType s = m_Type m \<and> complete s) e)"
    by (rule NewEnvelope_act [OF assms(1)])
      (auto intro: methods_ok_enroll [OF assms(3) _ _ assms(1)] validPtr_leaves [OF _ assms(2)])
  then show ?thesis
    by (auto simp: act_def newOk_def PolicyHint_def Version_def split: prod.splits sum.splits)
qed

theorem NewEnvelope_spec_witness:
  "\<exists>e w'. NewEnvelope demoX 0 (Some 1) PolicyPasswordOnly
       [password_method demoX demoPasswordMethod] demoW = (Inr e, w') \<and>
     EffectivePolicy e = PolicyPasswordOnly \<and> leaves demoW w' {} {}"
proof -
  obtain e w' where e: "NewEnvelope demoX 0 (Some 1) PolicyPasswordOnly
      [password_method demoX demoPasswordMethod] demoW = (Inr e, w')" by (rule demo_NewEnvelope)
  with NewEnvelope_spec [OF demoW_wfw _ demo_methods_ok, where X = demoX and ctx = 0 and dek = "Some 1"
      and policy = PolicyPasswordOnly]
  show ?thesis by auto
qed

text \<open>
  C11. The life of an envelope: whatever sequence of \<open>NewEnvelope\<close>, \<open>AddSlot\<close> and \<open>RemoveSlot\<close> made
  it, with methods that keep their contract and in any state of the outside, its effective policy
  is the valid policy it was created with and so is the hint, its version is 1, and every slot is
  complete, with admissible metadata captured as its associated data.
\<close>

theorem envelope_invariant:
  assumes "env_reach X p e"
  shows "Policy_valid p \<and> EffectivePolicy e = p \<and> PolicyHint e = p \<and> Version e = FormatVersion \<and>
    (\<forall>s \<in> set (eslots e). complete s)"
  using env_reach_inv [OF assms] by (simp add: env_inv_def PolicyHint_def Version_def)

theorem envelope_invariant_witness:
  "\<exists>e. env_reach demoX PolicyPasswordOnly e \<and> EffectivePolicy e = PolicyPasswordOnly"
proof -
  obtain e w' where e: "NewEnvelope demoX 0 (Some 1) PolicyPasswordOnly
      [password_method demoX demoPasswordMethod] demoW = (Inr e, w')" by (rule demo_NewEnvelope)
  have "env_reach demoX PolicyPasswordOnly e"
    by (rule env_new [OF demoW_wfw demo_methods_ok _ e]) simp
  with envelope_invariant [OF this] show ?thesis by blast
qed

text \<open>
  C2. The recovery escape hatch: adding a recovery code to an envelope without one keeps every other slot,
  and from then on the code alone opens the envelope to exactly the data key that was given when
  the slot was added, whatever became of the other factors.
\<close>

theorem recovery_escape_hatch:
  assumes "aead_correct X" and "wfw w" and "contents w (rm_code m) = Inr code" and "contents w dek = Inr d"
    and "AddSlot X e ctx dek (recovery_method X m) w = (Inr e', w')"
    and "\<forall>s \<in> set (eslots e). sType s \<noteq> MethodRecovery"
    and "wfw u" and "contents u (rm_code m') = Inr code"
  shows "(\<exists>s. eslots e' = eslots e @ [s] \<and> sType s = MethodRecovery) \<and>
    (case Unlock X e' ctx' [recovery_method X m'] u of
       (Inl x, u') \<Rightarrow> x \<in> faults X \<and> leaves u u' {} {}
     | (Inr p, u') \<Rightarrow> \<exists>i. p = Some i \<and> leaves u u' {(i, d)} {})"
proof -
  have "\<exists>s. eslots e' = eslots e @ [s] \<and> sType s = MethodRecovery"
    using recovery_AddSlot [OF assms(2-5)] by (auto simp: recovery_enrolled_def)
  with recovery_escape [OF assms, of ctx'] show ?thesis
    unfolding computes_run by (auto split: prod.splits sum.splits)
qed

theorem recovery_escape_hatch_witness:
  "\<exists>e' w' i u'. AddSlot demoX (goldenEnvelope\<lparr>eslots := [goldenPassword]\<rparr>) 0 (Some 1)
       (recovery_method demoX demoRecoveryMethod) demoW = (Inr e', w') \<and>
     Unlock demoX e' 0 [recovery_method demoX demoRecoveryMethod] demoW = (Inr (Some i), u') \<and>
     contents u' (Some i) = Inr demoDEK"
proof -
  let ?e = "goldenEnvelope\<lparr>eslots := [goldenPassword]\<rparr>"
  have c: "contents demoW (rm_code demoRecoveryMethod) = Inr demoCode" by simp
  have "\<exists>e' w'. AddSlot demoX ?e 0 (Some 1) (recovery_method demoX demoRecoveryMethod) demoW = (Inr e', w')"
    by (rule recovery_AddSlot_live [OF demoW_wfw c demo_dek_contents]) simp_all
  then obtain e' w' where e': "AddSlot demoX ?e 0 (Some 1) (recovery_method demoX demoRecoveryMethod) demoW
      = (Inr e', w')" by blast
  have "\<forall>s \<in> set (eslots ?e). sType s \<noteq> MethodRecovery" by (simp add: goldenPassword_def)
  from recovery_escape_hatch [OF aead_correct_demoX demoW_wfw c demo_dek_contents e' this demoW_wfw c, of 0] e'
  show ?thesis by (fastforce split: prod.splits sum.splits dest: contents_new)
qed

end
